(* ===== verification/Prelude.thy ===== *)
theory Prelude
  imports Main "HOL-Library.Word"
begin

text \<open>
  Shared vocabulary of the xv6 development: the machine integers of the C sources, the result
  type of kernel code, sequential composition of fallible steps, and the generic lemmas about
  lists, functions and words that the component theories use.
\<close>

section \<open>Machine integers\<close>

text \<open>\<open>types.h\<close>: \<open>uint\<close>, \<open>ushort\<close> and \<open>uchar\<close>. A C \<open>int\<close> is a \<open>uint\<close> read by \<^term>\<open>sint\<close>.\<close>

type_synonym uint = "32 word"
type_synonym ushort = "16 word"
type_synonym uchar = "8 word"

section \<open>Results of kernel code\<close>

text \<open>
  A kernel routine either returns, or does not come back to its caller: it calls \<open>panic\<close>
  (with the message), it spins on a lock that another CPU holds, it stops in an endless loop, it
  performs an access that C leaves undefined (a null pointer, an index outside an array), or it
  has given up the CPU and has not been resumed.
\<close>

datatype kerr = Panic string | Spin | Halt | Undefined string | Asleep

type_synonym 'a res = "kerr + 'a"

fun bnd :: "'a res \<Rightarrow> ('a \<Rightarrow> 'b res) \<Rightarrow> 'b res" where
  "bnd (Inl e) f = Inl e"
| "bnd (Inr x) f = f x"

named_theorems res_iff \<open>inversion of results of the form \<open>m = Inr x\<close>\<close>

lemma bnd_Inr_iff [res_iff]: "bnd m f = Inr y \<longleftrightarrow> (\<exists>x. m = Inr x \<and> f x = Inr y)"
  by (cases m) auto

lemma bnd_Inl_iff: "bnd m f = Inl e \<longleftrightarrow> m = Inl e \<or> (\<exists>x. m = Inr x \<and> f x = Inl e)"
  by (cases m) auto

lemma bnd_assoc: "bnd (bnd m f) g = bnd m (\<lambda>x. bnd (f x) g)"
  by (cases m) auto

lemma bnd_return [simp]: "bnd m Inr = m"
  by (cases m) auto

lemma bnd_cong [fundef_cong]:
  "m = m' \<Longrightarrow> (\<And>x. m' = Inr x \<Longrightarrow> f x = f' x) \<Longrightarrow> bnd m f = bnd m' f'"
  by (cases m') auto

text \<open>A test that panics when it fails.\<close>

definition panic_if :: "bool \<Rightarrow> string \<Rightarrow> unit res" where
  "panic_if b msg = (if b then Inl (Panic msg) else Inr ())"

lemma panic_if_simps [simp]:
  "panic_if True msg = Inl (Panic msg)" "panic_if False msg = Inr ()"
  by (simp_all add: panic_if_def)

lemma panic_if_Inr_iff [res_iff]: "panic_if b msg = Inr u \<longleftrightarrow> \<not> b"
  by (simp add: panic_if_def)

text \<open>A loop over the elements of a list.\<close>

fun foldM :: "('i \<Rightarrow> 's \<Rightarrow> 's res) \<Rightarrow> 'i list \<Rightarrow> 's \<Rightarrow> 's res" where
  "foldM f [] s = Inr s"
| "foldM f (x # xs) s = bnd (f x s) (foldM f xs)"

lemma foldM_cong [fundef_cong]:
  "xs = ys \<Longrightarrow> s = t \<Longrightarrow> (\<And>x u. x \<in> set ys \<Longrightarrow> f x u = g x u) \<Longrightarrow> foldM f xs s = foldM g ys t"
  by (induction xs arbitrary: ys s t) (auto intro!: bnd_cong)

lemma foldM_append: "foldM f (xs @ ys) s = bnd (foldM f xs s) (foldM f ys)"
  by (induction xs arbitrary: s) (auto simp: bnd_assoc intro!: bnd_cong)

text \<open>An invariant of the body is an invariant of the loop, which then returns.\<close>

lemma foldM_invariant:
  assumes "I s" and "\<And>x u. x \<in> set xs \<Longrightarrow> I u \<Longrightarrow> \<exists>v. f x u = Inr v \<and> I v"
  shows "\<exists>t. foldM f xs s = Inr t \<and> I t"
  using assms
proof (induction xs arbitrary: s)
  case Nil
  then show ?case by simp
next
  case (Cons x xs)
  then obtain v where "f x s = Inr v" "I v" by (meson list.set_intros(1))
  with Cons.IH [of v] Cons.prems(2) show ?case by auto
qed

section \<open>Lists, functions and words\<close>

text \<open>The first element that satisfies a test: the search loops of the kernel.\<close>

lemma find_upt_Some_iff:
  "find P [a..<b] = Some i \<longleftrightarrow> a \<le> i \<and> i < b \<and> P i \<and> (\<forall>j. a \<le> j \<and> j < i \<longrightarrow> \<not> P j)"
proof (cases "a \<le> b")
  case True
  have "find P [a..<b] = Some i \<longleftrightarrow>
      (\<exists>k. k < b - a \<and> P (a + k) \<and> i = a + k \<and> (\<forall>j<k. \<not> P (a + j)))"
    by (auto simp: find_Some_iff)
  also have "\<dots> \<longleftrightarrow> a \<le> i \<and> i < b \<and> P i \<and> (\<forall>j. a \<le> j \<and> j < i \<longrightarrow> \<not> P j)"
    (is "?L \<longleftrightarrow> ?R")
  proof
    assume ?L
    then obtain k where k: "k < b - a" "P (a + k)" "i = a + k" "\<forall>j<k. \<not> P (a + j)"
      by blast
    have "\<not> P j" if "a \<le> j" "j < i" for j
      using that k(3,4) spec [OF k(4), of "j - a"] by simp
    with k show ?R by auto
  next
    assume R: ?R
    then have "\<forall>j<i - a. \<not> P (a + j)" by auto
    with R show ?L by (intro exI [of _ "i - a"]) auto
  qed
  finally show ?thesis .
next
  case False
  then show ?thesis by auto
qed

lemma find_upt_None_iff: "find P [a..<b] = None \<longleftrightarrow> (\<forall>j. a \<le> j \<and> j < b \<longrightarrow> \<not> P j)"
  by (auto simp: find_None_iff)

lemma find_filter: "find P xs = (case filter P xs of [] \<Rightarrow> None | x # _ \<Rightarrow> Some x)"
  by (induction xs) auto

lemma unat_uint_less [simp]: "unat (x :: uint) < 4294967296"
  using unsigned_less [of x] by simp

lemma unat_inc:
  "x \<noteq> - 1 \<Longrightarrow> unat (x + 1 :: 'a::len word) = Suc (unat x)"
  by (metis add.commute add_eq_0_iff unatSuc)

end
