(* ===== verification/Cstring.thy ===== *)
theory Cstring
  imports Prelude
begin

text \<open>
  Byte-addressed memory and the routines of \<open>string.c\<close> over it. Pointers are 32-bit words and
  pointer arithmetic wraps, as on the machine; a loop \<open>while (n-- > 0)\<close> is a recursion on its
  count. The lemmas state each routine by what it leaves at every address.
\<close>

unbundle bit_operations_syntax

type_synonym mem = "uint \<Rightarrow> uchar"

section \<open>Words in memory\<close>

definition load32 :: "mem \<Rightarrow> uint \<Rightarrow> uint" where
  "load32 m a = ucast (m a) OR push_bit 8 (ucast (m (a + 1)))
     OR push_bit 16 (ucast (m (a + 2))) OR push_bit 24 (ucast (m (a + 3)))"

definition store32 :: "mem \<Rightarrow> uint \<Rightarrow> uint \<Rightarrow> mem" where
  "store32 m a w = m(a := ucast w, a + 1 := ucast (drop_bit 8 w),
     a + 2 := ucast (drop_bit 16 w), a + 3 := ucast (drop_bit 24 w))"

section \<open>Filling: \<open>stosb\<close>, \<open>stosl\<close>, \<open>memset\<close>\<close>

text \<open>The \<open>rep stosb\<close> and \<open>rep stosl\<close> wrappers of \<open>x86.h\<close>.\<close>

fun stosb :: "uint \<Rightarrow> uint \<Rightarrow> nat \<Rightarrow> mem \<Rightarrow> mem" where
  "stosb addr data 0 m = m"
| "stosb addr data (Suc cnt) m = stosb (addr + 1) data cnt (m(addr := ucast data))"

fun stosl :: "uint \<Rightarrow> uint \<Rightarrow> nat \<Rightarrow> mem \<Rightarrow> mem" where
  "stosl addr data 0 m = m"
| "stosl addr data (Suc cnt) m = stosl (addr + 4) data cnt (store32 m addr data)"

definition memset :: "uint \<Rightarrow> uint \<Rightarrow> uint \<Rightarrow> mem \<Rightarrow> mem" where
  "memset dst c n m =
     (if 4 dvd sint dst \<and> n mod 4 = 0
      then let c = c AND 0xFF
           in stosl dst (push_bit 24 c OR push_bit 16 c OR push_bit 8 c OR c) (unat (n div 4)) m
      else stosb dst c (unat n) m)"

section \<open>Comparing and copying bytes\<close>

fun memcmp_loop :: "nat \<Rightarrow> uint \<Rightarrow> uint \<Rightarrow> mem \<Rightarrow> int" where
  "memcmp_loop 0 s1 s2 m = 0"
| "memcmp_loop (Suc n) s1 s2 m =
     (if m s1 \<noteq> m s2 then uint (m s1) - uint (m s2)
      else memcmp_loop n (s1 + 1) (s2 + 1) m)"

definition memcmp :: "uint \<Rightarrow> uint \<Rightarrow> uint \<Rightarrow> mem \<Rightarrow> int" where
  "memcmp v1 v2 n m = memcmp_loop (unat n) v1 v2 m"

fun copy_up :: "nat \<Rightarrow> uint \<Rightarrow> uint \<Rightarrow> mem \<Rightarrow> mem" where
  "copy_up 0 d s m = m"
| "copy_up (Suc n) d s m = copy_up n (d + 1) (s + 1) (m(d := m s))"

fun copy_down :: "nat \<Rightarrow> uint \<Rightarrow> uint \<Rightarrow> mem \<Rightarrow> mem" where
  "copy_down 0 d s m = m"
| "copy_down (Suc n) d s m = copy_down n (d - 1) (s - 1) (m(d - 1 := m (s - 1)))"

definition memmove :: "uint \<Rightarrow> uint \<Rightarrow> uint \<Rightarrow> mem \<Rightarrow> mem" where
  "memmove dst src n m =
     (if src < dst \<and> src + n > dst
      then copy_down (unat n) (dst + n) (src + n) m
      else copy_up (unat n) dst src m)"

definition memcpy :: "uint \<Rightarrow> uint \<Rightarrow> uint \<Rightarrow> mem \<Rightarrow> mem" where
  "memcpy dst src n m = memmove dst src n m"

section \<open>Strings\<close>

fun strncmp_loop :: "nat \<Rightarrow> uint \<Rightarrow> uint \<Rightarrow> mem \<Rightarrow> int" where
  "strncmp_loop 0 p q m = 0"
| "strncmp_loop (Suc n) p q m =
     (if m p \<noteq> 0 \<and> m p = m q then strncmp_loop n (p + 1) (q + 1) m
      else uint (m p) - uint (m q))"

definition strncmp :: "uint \<Rightarrow> uint \<Rightarrow> uint \<Rightarrow> mem \<Rightarrow> int" where
  "strncmp p q n m = strncmp_loop (unat n) p q m"

text \<open>
  The copying loop of \<open>strncpy\<close> and \<open>safestrcpy\<close>: it returns the memory, the iterations that are
  left when the terminating zero has been copied, and the write pointer.
\<close>

fun str_copy :: "nat \<Rightarrow> uint \<Rightarrow> uint \<Rightarrow> mem \<Rightarrow> mem \<times> nat \<times> uint" where
  "str_copy 0 s t m = (m, 0, s)"
| "str_copy (Suc n) s t m =
     (if m t \<noteq> 0 then str_copy n (s + 1) (t + 1) (m(s := m t)) else (m(s := m t), n, s + 1))"

definition strncpy :: "uint \<Rightarrow> uint \<Rightarrow> int \<Rightarrow> mem \<Rightarrow> mem" where
  "strncpy s t n m = (let (m1, k, s1) = str_copy (nat n) s t m in stosb s1 0 k m1)"

definition safestrcpy :: "uint \<Rightarrow> uint \<Rightarrow> int \<Rightarrow> mem \<Rightarrow> mem" where
  "safestrcpy s t n m =
     (if n \<le> 0 then m
      else let (m1, k, s1) = str_copy (nat (n - 1)) s t m in m1(s1 := 0))"

text \<open>\<open>strlen\<close> does not return when no zero byte follows \<open>s\<close>: then the model is \<^term>\<open>None\<close>.\<close>

partial_function (option) strlen_loop :: "uint \<Rightarrow> nat \<Rightarrow> mem \<Rightarrow> nat option" where
  "strlen_loop s n m = (if m (s + of_nat n) = 0 then Some n else strlen_loop s (Suc n) m)"

definition strlen :: "uint \<Rightarrow> mem \<Rightarrow> nat option" where
  "strlen s m = strlen_loop s 0 m"

text \<open>The bytes of a memory range, and the C string \<open>xs\<close> (with its zero) at an address.\<close>

definition bytes_at :: "mem \<Rightarrow> uint \<Rightarrow> nat \<Rightarrow> uchar list" where
  "bytes_at m a n = map (\<lambda>i. m (a + of_nat i)) [0..<n]"

definition cstr_at :: "mem \<Rightarrow> uint \<Rightarrow> uchar list \<Rightarrow> bool" where
  "cstr_at m a xs \<longleftrightarrow> bytes_at m a (length xs) = xs \<and> m (a + of_nat (length xs)) = 0 \<and> 0 \<notin> set xs"

section \<open>Facts about memory\<close>

lemma word_sub_eq_0 [simp]: "(a - b = (0::'a::len word)) = (a = b)"
  by simp

lemma unat_pred: "k \<noteq> 0 \<Longrightarrow> unat k = Suc (unat (k - 1 :: 'a::len word))"
  using unatSuc [of "k - 1"] by simp

lemma load32_store32 [simp]: "load32 (store32 m a w) a = w"
proof -
  have "ucast (ucast w :: uchar) OR push_bit 8 (ucast (ucast (drop_bit 8 w) :: uchar))
      OR push_bit 16 (ucast (ucast (drop_bit 16 w) :: uchar))
      OR push_bit 24 (ucast (ucast (drop_bit 24 w) :: uchar)) = w"
    (is "?l = w")
  proof (rule bit_word_eqI)
    fix n assume "n < LENGTH(32)"
    then consider "n < 8" | "8 \<le> n" "n < 16" | "16 \<le> n" "n < 24" | "24 \<le> n" "n < 32"
      by fastforce
    then show "bit ?l n = bit w n" by cases (auto simp: bit_simps)
  qed
  then show ?thesis by (simp add: load32_def store32_def)
qed

lemma store32_apply:
  "store32 m a w b =
     (if b = a + 3 then ucast (drop_bit 24 w) else if b = a + 2 then ucast (drop_bit 16 w)
      else if b = a + 1 then ucast (drop_bit 8 w) else if b = a then ucast w else m b)"
  by (simp add: store32_def)

lemma unat_lt_4: "unat (k::uint) < 4 \<longleftrightarrow> k = 0 \<or> k = 1 \<or> k = 2 \<or> k = 3"
  by (auto simp: word_unat_eq_iff)

lemma store32_outside: "4 \<le> unat (b - a) \<Longrightarrow> store32 m a w b = m b"
  using unat_lt_4 [of "b - a"] by (auto simp: store32_apply)

lemma load32_cong:
  "(\<And>k. unat k < 4 \<Longrightarrow> m (a + k) = m' (a + k)) \<Longrightarrow> load32 m a = load32 m' a"
proof -
  assume *: "\<And>k. unat k < 4 \<Longrightarrow> m (a + k) = m' (a + k)"
  from * [of 0] * [of 1] * [of 2] * [of 3] show ?thesis by (simp add: load32_def)
qed

lemma stosb_apply:
  "n < 2 ^ 32 \<Longrightarrow> stosb d c n m a = (if unat (a - d) < n then ucast c else m a)"
proof (induction n arbitrary: d m)
  case 0
  then show ?case by simp
next
  case (Suc n)
  show ?case
  proof (cases "a = d")
    case True
    have "d - (d + 1) = 0xFFFFFFFF" by simp
    with Suc True show ?thesis by simp
  next
    case False
    then have "unat (a - d) = Suc (unat (a - (d + 1)))"
      using unat_pred [of "a - d"] by (simp add: diff_diff_eq)
    with Suc False show ?thesis by simp
  qed
qed

lemma unat_sub_add:
  "unat (a - (d + k) :: uint) =
     (if unat k \<le> unat (a - d) then unat (a - d) - unat k else unat (a - d) + 2 ^ 32 - unat k)"
  using unat_sub_if' [of "a - d" k] by (simp add: diff_diff_eq)

lemma store32_inside:
  "unat (b - a) < 4 \<Longrightarrow> store32 m a w b = ucast (drop_bit (8 * unat (b - a)) w)"
proof -
  assume "unat (b - a) < 4"
  then consider "b - a = 0" | "b - a = 1" | "b - a = 2" | "b - a = 3"
    using unat_lt_4 by blast
  then show ?thesis
  proof cases
    case 1 then show ?thesis by (simp add: store32_apply)
  next
    case 2 then have "b = a + 1" by (simp add: diff_eq_eq add.commute)
    then show ?thesis by (simp add: store32_apply)
  next
    case 3 then have "b = a + 2" by (simp add: diff_eq_eq add.commute)
    then show ?thesis by (simp add: store32_apply)
  next
    case 4 then have "b = a + 3" by (simp add: diff_eq_eq add.commute)
    then show ?thesis by (simp add: store32_apply)
  qed
qed

lemma stosl_apply:
  assumes "\<And>k. k < 4 \<Longrightarrow> ucast (drop_bit (8 * k) w) = b"
  shows "4 * n < 2 ^ 32 \<Longrightarrow> stosl d w n m a = (if unat (a - d) < 4 * n then b else m a)"
proof (induction n arbitrary: d m)
  case 0
  then show ?case by simp
next
  case (Suc n)
  have IH: "stosl d w (Suc n) m a = (if unat (a - (d + 4)) < 4 * n then b else store32 m d w a)"
    using Suc by simp
  show ?case
  proof (cases "unat (a - d) < 4")
    case True
    with Suc.prems have "\<not> unat (a - (d + 4)) < 4 * n" by (simp add: unat_sub_add)
    with IH True assms show ?thesis by (simp add: store32_inside)
  next
    case False
    then have "unat (a - (d + 4)) = unat (a - d) - 4" by (simp add: unat_sub_add)
    with IH False show ?thesis by (auto simp: store32_outside)
  qed
qed

lemma ucast_drop_bit_spread:
  fixes c :: uint
  assumes "k < 4"
  shows "ucast (drop_bit (8 * k) (push_bit 24 (c AND 0xFF) OR push_bit 16 (c AND 0xFF)
    OR push_bit 8 (c AND 0xFF) OR (c AND 0xFF))) = (ucast c :: uchar)"
proof -
  have mask: "(0xFF :: uint) = mask 8" by (simp add: mask_eq_decr_exp)
  from assms consider "k = 0" | "k = 1" | "k = 2" | "k = 3" by linarith
  then show ?thesis
    unfolding mask by cases (auto intro!: bit_word_eqI simp: bit_simps)
qed

lemma memset_apply:
  "memset d c n m a = (if unat (a - d) < unat n then ucast c else m a)"
proof (cases "4 dvd sint d \<and> n mod 4 = 0")
  case True
  from True have "unat (n mod 4) = 0" by simp
  then have "unat n mod 4 = 0" by (simp add: unat_mod)
  then have n: "4 * unat (n div 4) = unat n" by (auto simp: unat_div)
  moreover have "unat n < 2 ^ 32" using unsigned_less [of n] by simp
  ultimately show ?thesis
    using True stosl_apply [OF ucast_drop_bit_spread, where n = "unat (n div 4)"]
    by (simp add: memset_def Let_def)
next
  case False
  moreover have "unat n < 2 ^ 32" using unsigned_less [of n] by simp
  ultimately show ?thesis by (auto simp: memset_def stosb_apply)
qed

section \<open>Copying, comparing\<close>

lemma copy_up_same: "copy_up n d d m = m"
  by (induction n arbitrary: d) simp_all

lemma copy_up_apply:
  "n < 2 ^ 32 \<Longrightarrow> n \<le> unat (d - s) \<Longrightarrow>
   copy_up n d s m a = (if unat (a - d) < n then m (s + (a - d)) else m a)"
proof (induction n arbitrary: d s m)
  case 0
  then show ?case by simp
next
  case (Suc n)
  have IH: "copy_up (Suc n) d s m a =
      (if unat (a - (d + 1)) < n then (m(d := m s)) (s + 1 + (a - (d + 1))) else (m(d := m s)) a)"
    using Suc.prems by (subst copy_up.simps, subst Suc.IH) auto
  show ?case
  proof (cases "a = d")
    case True
    have "d - (d + 1) = 0xFFFFFFFF" by simp
    with IH True Suc.prems show ?thesis by simp
  next
    case False
    then have k: "unat (a - d) = Suc (unat (a - (d + 1)))"
      using unat_pred [of "a - d"] by (simp add: diff_diff_eq)
    have src: "s + 1 + (a - (d + 1)) = s + (a - d)" by simp
    have "s + (a - d) \<noteq> d" if "unat (a - d) < Suc n"
    proof
      assume "s + (a - d) = d"
      then have "d - s = a - d" by (metis add_diff_cancel_left')
      with that Suc.prems show False by simp
    qed
    then show ?thesis
      unfolding IH src k using False by (auto simp del: add_diff_eq)
  qed
qed

lemma copy_down_apply:
  "n < 2 ^ 32 \<Longrightarrow> n \<le> unat (s - d) \<Longrightarrow>
   copy_down n (d + of_nat n) (s + of_nat n) m a =
     (if unat (a - d) < n then m (s + (a - d)) else m a)"
proof (induction n arbitrary: m)
  case 0
  then show ?case by simp
next
  case (Suc n)
  let ?k = "of_nat n :: uint"
  let ?m = "m(d + ?k := m (s + ?k))"
  have "d + of_nat (Suc n) - 1 = d + ?k" "s + of_nat (Suc n) - 1 = s + ?k" by simp_all
  then have IH: "copy_down (Suc n) (d + of_nat (Suc n)) (s + of_nat (Suc n)) m a =
      (if unat (a - d) < n then ?m (s + (a - d)) else ?m a)"
    using Suc.prems by (subst copy_down.simps, simp only:, subst Suc.IH) auto
  have un: "unat ?k = n" using Suc.prems by (simp add: unat_of_nat)
  have last: "a = d + ?k \<longleftrightarrow> unat (a - d) = n"
  proof
    assume "unat (a - d) = n"
    with un have "a - d = ?k" by (simp add: word_unat_eq_iff)
    then show "a = d + ?k" by (metis add.commute diff_add_cancel)
  qed (simp add: un)
  have "s + (a - d) \<noteq> d + ?k" if "unat (a - d) < n"
  proof
    assume "s + (a - d) = d + ?k"
    then have eq: "s - d = ?k - (a - d)" by (simp add: algebra_simps)
    have "a - d \<le> ?k" using that un by (simp add: word_le_nat_alt)
    then have "unat (?k - (a - d)) \<le> n" using un by (simp only: unat_sub)
    with that Suc.prems show False unfolding eq by simp
  qed
  then show ?case unfolding IH using last by (auto simp del: add_diff_eq simp: less_Suc_eq)
qed

text \<open>
  A range that does not wrap around the address space: what C requires of every object.
\<close>

definition no_wrap :: "uint \<Rightarrow> uint \<Rightarrow> bool" where
  "no_wrap a n \<longleftrightarrow> unat a + unat n < 2 ^ 32"

lemma memmove_apply:
  assumes "no_wrap d n" and "no_wrap s n"
  shows "memmove d s n m a = (if unat (a - d) < unat n then m (s + (a - d)) else m a)"
proof -
  have n: "unat n < 2 ^ 32" using unsigned_less [of n] by simp
  have sn: "unat (s + n) = unat s + unat n"
    using assms(2) by (simp add: no_wrap_def unat_word_ariths)
  consider "s < d" "d < s + n" | "s = d" | "d < s" | "s < d" "s + n \<le> d"
    by (meson not_less less_linear)
  then show ?thesis
  proof cases
    case 1
    then have "unat n \<le> unat (s - d)"
      using assms(1) unat_sub_if' [of s d] by (simp add: no_wrap_def word_less_nat_alt)
    with 1 n copy_down_apply [of "unat n" s d m a] show ?thesis
      by (simp add: memmove_def)
  next
    case 2
    then show ?thesis by (simp add: memmove_def copy_up_same)
  next
    case 3
    then have "unat n \<le> unat (d - s)"
      using assms(2) unat_sub_if' [of d s] by (simp add: no_wrap_def word_less_nat_alt)
    with 3 n show ?thesis by (auto simp: memmove_def copy_up_apply)
  next
    case 4
    then have "unat n \<le> unat (d - s)"
      using sn unat_sub_if' [of d s] by (simp add: word_less_nat_alt word_le_nat_alt)
    with 4 n show ?thesis by (auto simp: memmove_def copy_up_apply)
  qed
qed

lemma bytes_at_0 [simp]: "bytes_at m a 0 = []"
  by (simp add: bytes_at_def)

lemma bytes_at_Suc: "bytes_at m a (Suc n) = m a # bytes_at m (a + 1) n"
  by (simp add: bytes_at_def map_upt_Suc add.assoc del: upt_Suc)

lemma length_bytes_at [simp]: "length (bytes_at m a n) = n"
  by (simp add: bytes_at_def)

lemma bytes_at_cong:
  "(\<And>i. i < n \<Longrightarrow> m (a + of_nat i) = m' (b + of_nat i)) \<Longrightarrow> bytes_at m a n = bytes_at m' b n"
  by (simp add: bytes_at_def)

lemma uint_eq_uint_iff [simp]: "uint a = uint b \<longleftrightarrow> a = b"
  by (simp add: word_uint_eq_iff)

lemma memcmp_loop_0_iff: "memcmp_loop n p q m = 0 \<longleftrightarrow> bytes_at m p n = bytes_at m q n"
  by (induction n arbitrary: p q) (auto simp: bytes_at_Suc)

lemma memcmp_0_iff: "memcmp p q n m = 0 \<longleftrightarrow> bytes_at m p (unat n) = bytes_at m q (unat n)"
  by (simp add: memcmp_def memcmp_loop_0_iff)

text \<open>What a fixed-size, possibly unterminated C string denotes: its bytes up to the first zero.\<close>

definition strn_at :: "mem \<Rightarrow> uint \<Rightarrow> nat \<Rightarrow> uchar list" where
  "strn_at m a n = takeWhile (\<lambda>c. c \<noteq> 0) (bytes_at m a n)"

lemma strncmp_loop_0_iff: "strncmp_loop n p q m = 0 \<longleftrightarrow> strn_at m p n = strn_at m q n"
  by (induction n arbitrary: p q) (auto simp: strn_at_def bytes_at_Suc uint_0_iff)

lemma strncmp_0_iff: "strncmp p q n m = 0 \<longleftrightarrow> strn_at m p (unat n) = strn_at m q (unat n)"
  by (simp add: strncmp_def strncmp_loop_0_iff)

lemma cstr_at_Nil [simp]: "cstr_at m a [] \<longleftrightarrow> m a = 0"
  by (simp add: cstr_at_def)

lemma cstr_at_Cons [simp]:
  "cstr_at m a (x # xs) \<longleftrightarrow> m a = x \<and> x \<noteq> 0 \<and> cstr_at m (a + 1) xs"
  by (auto simp: cstr_at_def bytes_at_Suc add.assoc)

lemma strlen_loop_eq:
  "cstr_at m (s + of_nat n) xs \<Longrightarrow> strlen_loop s n m = Some (n + length xs)"
proof (induction xs arbitrary: n)
  case Nil
  then show ?case by (simp add: strlen_loop.simps)
next
  case (Cons x xs)
  then have "strlen_loop s (Suc n) m = Some (Suc n + length xs)"
    by (intro Cons.IH) (simp add: algebra_simps)
  with Cons.prems show ?case by (subst strlen_loop.simps) simp
qed

lemma strlen_eq: "cstr_at m s xs \<Longrightarrow> strlen s m = Some (length xs)"
  using strlen_loop_eq [of m s 0 xs] by (simp add: strlen_def)

text \<open>
  The copying loop is a plain copy of the string's bytes with its zero, or of \<open>n\<close> bytes when the
  string is longer. The target must not lie inside the part of the source still to be read.
\<close>

lemma strn_at_upd:
  assumes "n \<le> unat (s - t)" and "n < 2 ^ 32"
  shows "bytes_at (m(s := v)) t n = bytes_at m t n"
proof (rule bytes_at_cong)
  fix i assume i: "i < n"
  then have "unat (of_nat i :: uint) = i" using assms(2) by (simp add: unat_of_nat)
  then have "t + of_nat i \<noteq> s" using i assms(1) by auto
  then show "(m(s := v)) (t + of_nat i) = m (t + of_nat i)" by simp
qed

lemma str_copy_eq:
  "n < 2 ^ 32 \<Longrightarrow> n \<le> unat (s - t) \<Longrightarrow> c = min n (Suc (length (strn_at m t n))) \<Longrightarrow>
   str_copy n s t m = (copy_up c s t m, n - c, s + of_nat c)"
proof (induction n arbitrary: s t m c)
  case 0
  then show ?case by simp
next
  case (Suc n)
  show ?case
  proof (cases "m t = 0")
    case True
    with Suc.prems show ?thesis by (simp add: strn_at_def bytes_at_Suc fun_upd_def)
  next
    case False
    let ?m = "m(s := m t)"
    have "n \<le> unat (s - (t + 1))"
      using Suc.prems(2) unat_pred [of "s - t"] by (cases "s = t") (simp_all add: diff_diff_eq)
    then have "bytes_at ?m (t + 1) n = bytes_at m (t + 1) n"
      using Suc.prems(1) by (intro strn_at_upd) simp_all
    then have len: "length (strn_at m t (Suc n)) = Suc (length (strn_at ?m (t + 1) n))"
      using False by (simp add: strn_at_def bytes_at_Suc)
    define c' where "c' = min n (Suc (length (strn_at ?m (t + 1) n)))"
    have "str_copy n (s + 1) (t + 1) ?m = (copy_up c' (s + 1) (t + 1) ?m, n - c', s + 1 + of_nat c')"
      using Suc.prems(1,2) by (intro Suc.IH) (simp_all add: c'_def fun_upd_def)
    moreover have "c = Suc c'" using Suc.prems(3) len by (simp add: c'_def)
    ultimately show ?thesis using False by (simp add: add.assoc)
  qed
qed

lemma length_strn_at: "length (strn_at m a n) \<le> n"
  using length_takeWhile_le [of _ "bytes_at m a n"] by (simp add: strn_at_def)

lemma cstr_at_strn: "cstr_at m a xs \<Longrightarrow> length xs < n \<Longrightarrow> strn_at m a n = xs"
proof (induction xs arbitrary: a n)
  case Nil
  then show ?case by (cases n) (auto simp: strn_at_def bytes_at_Suc)
next
  case (Cons x xs)
  then obtain n' where "n = Suc n'" by (cases n) auto
  with Cons show ?case by (auto simp: strn_at_def bytes_at_Suc)
qed

lemma strn_at_cstr: "length (strn_at m a n) < n \<Longrightarrow> cstr_at m a (strn_at m a n)"
  by (induction n arbitrary: a) (auto simp: strn_at_def bytes_at_Suc)

lemma cstr_at_cong:
  "cstr_at m a xs \<Longrightarrow> (\<And>i. i \<le> length xs \<Longrightarrow> m' (b + of_nat i) = m (a + of_nat i)) \<Longrightarrow>
   cstr_at m' b xs"
  using bytes_at_cong [of "length xs" m' b m a] by (auto simp: cstr_at_def)

lemma strn_at_full:
  "length (strn_at m a n) = n \<Longrightarrow> strn_at m a n = bytes_at m a n \<and> 0 \<notin> set (strn_at m a n)"
  unfolding strn_at_def using takeWhile_eq_all_conv [of "\<lambda>c. c \<noteq> 0" "bytes_at m a n"]
  by (metis length_bytes_at take_all_iff order_refl takeWhile_eq_take)

lemma safestrcpy_copies:
  assumes "0 < n" and "n < 2 ^ 32" and "nat n \<le> unat (s - t)"
  shows "cstr_at (safestrcpy s t n m) s (strn_at m t (nat n - 1))"
    and "nat n \<le> unat (a - s) \<Longrightarrow> safestrcpy s t n m a = m a"
proof -
  define xs where "xs = strn_at m t (nat n - 1)"
  define c where "c = min (nat n - 1) (Suc (length xs))"
  have len: "length xs \<le> nat n - 1" by (simp add: xs_def length_strn_at)
  have cn: "c < nat n" using assms(1) by (simp add: c_def)
  have "str_copy (nat n - 1) s t m = (copy_up c s t m, nat n - 1 - c, s + of_nat c)"
    using assms by (intro str_copy_eq) (auto simp: c_def xs_def)
  then have eq: "safestrcpy s t n m = (copy_up c s t m)(s + of_nat c := 0)"
    using assms(1) by (simp add: safestrcpy_def nat_diff_distrib)
  have up: "copy_up c s t m a = (if unat (a - s) < c then m (t + (a - s)) else m a)" for a
    using assms by (intro copy_up_apply) (auto simp: c_def)
  have un: "unat (of_nat i :: uint) = i" if "i < nat n" for i
    using that assms(2) by (simp add: unat_of_nat)
  have app: "safestrcpy s t n m (s + of_nat i) =
      (if i = c then 0 else if i < c then m (t + of_nat i) else m (s + of_nat i))"
    if "i < nat n" for i
  proof -
    have "s + of_nat i = s + of_nat c \<longleftrightarrow> i = c"
      using un [OF that] un [OF cn] by (metis add_left_cancel)
    then show ?thesis unfolding eq using un [OF that] by (simp add: up)
  qed
  show "cstr_at (safestrcpy s t n m) s (strn_at m t (nat n - 1))"
  proof (cases "length xs < nat n - 1")
    case True
    then have "cstr_at m t xs" unfolding xs_def by (rule strn_at_cstr)
    then show ?thesis
      unfolding xs_def [symmetric]
    proof (rule cstr_at_cong)
      fix i assume i: "i \<le> length xs"
      have "m (t + of_nat c) = 0" if "i = c"
        using i that True by (simp add: c_def)
      with i True show "safestrcpy s t n m (s + of_nat i) = m (t + of_nat i)"
        by (subst app) (auto simp: c_def)
    qed
  next
    case False
    with len have full: "length xs = nat n - 1" by simp
    with strn_at_full [of m t "nat n - 1"] have xs: "xs = bytes_at m t (nat n - 1)" "0 \<notin> set xs"
      unfolding xs_def by blast+
    have "c = nat n - 1" using full by (simp add: c_def)
    then have "bytes_at (safestrcpy s t n m) s (nat n - 1) = xs"
      unfolding xs(1) using app by (intro bytes_at_cong) auto
    with \<open>c = nat n - 1\<close> full xs(2) app [of c] assms(1) show ?thesis
      unfolding xs_def [symmetric] by (simp add: cstr_at_def)
  qed
  show "safestrcpy s t n m a = m a" if "nat n \<le> unat (a - s)"
  proof -
    have "a \<noteq> s + of_nat c" using un [OF cn] cn that by auto
    with that cn show ?thesis by (simp add: eq up)
  qed
qed

end
