(* ===== verification/Machine.thy ===== *)
theory Machine
  imports Cstring
begin

text \<open>
  The machine the kernel runs on: per-CPU state (\<open>struct cpu\<close> of \<open>proc.h\<close> together with the
  registers the kernel manipulates), physical memory, the spin locks of all subsystems, and the
  primitives \<open>cli\<close>, \<open>sti\<close>, \<open>mycpu\<close> and \<open>cpuid\<close>. Every component extends the record
  \<open>machine\<close> by its own global variables, so an operation of one component runs unchanged on the
  state of every later one.
\<close>

section \<open>Constants of \<open>param.h\<close>, \<open>mmu.h\<close> and \<open>memlayout.h\<close>\<close>

abbreviation (input) NPROC :: nat where "NPROC \<equiv> 64"
abbreviation (input) KSTACKSIZE :: uint where "KSTACKSIZE \<equiv> 4096"
abbreviation (input) NCPU :: nat where "NCPU \<equiv> 8"
abbreviation (input) NOFILE :: nat where "NOFILE \<equiv> 16"
abbreviation (input) PGSIZE :: uint where "PGSIZE \<equiv> 4096"
abbreviation (input) KERNBASE :: uint where "KERNBASE \<equiv> 0x80000000"
abbreviation (input) EXTMEM :: uint where "EXTMEM \<equiv> 0x100000"
abbreviation (input) PHYSTOP :: uint where "PHYSTOP \<equiv> 0xE000000"
abbreviation (input) DEVSPACE :: uint where "DEVSPACE \<equiv> 0xFE000000"

definition V2P :: "uint \<Rightarrow> uint" where "V2P a = a - KERNBASE"
definition P2V :: "uint \<Rightarrow> uint" where "P2V a = a + KERNBASE"

definition PGROUNDUP :: "uint \<Rightarrow> uint" where
  "PGROUNDUP sz = (sz + PGSIZE - 1) AND NOT (PGSIZE - 1)"

definition PGROUNDDOWN :: "uint \<Rightarrow> uint" where
  "PGROUNDDOWN a = a AND NOT (PGSIZE - 1)"

abbreviation (input) SEG_KCODE :: nat where "SEG_KCODE \<equiv> 1"
abbreviation (input) SEG_KDATA :: nat where "SEG_KDATA \<equiv> 2"
abbreviation (input) SEG_UCODE :: nat where "SEG_UCODE \<equiv> 3"
abbreviation (input) SEG_UDATA :: nat where "SEG_UDATA \<equiv> 4"
abbreviation (input) SEG_TSS :: nat where "SEG_TSS \<equiv> 5"
abbreviation (input) DPL_USER :: uint where "DPL_USER \<equiv> 3"

section \<open>Per-CPU state\<close>

record segdesc =
  lim_15_0 :: ushort
  base_15_0 :: ushort
  base_23_16 :: uchar
  seg_type :: "4 word"
  seg_s :: bool
  seg_dpl :: "2 word"
  seg_p :: bool
  lim_19_16 :: "4 word"
  seg_avl :: bool
  seg_rsv1 :: bool
  seg_db :: bool
  seg_g :: bool
  base_31_24 :: uchar

definition SEG :: "4 word \<Rightarrow> uint \<Rightarrow> uint \<Rightarrow> 2 word \<Rightarrow> segdesc" where
  "SEG type base lim dpl =
     \<lparr>lim_15_0 = ucast (drop_bit 12 lim AND 0xffff), base_15_0 = ucast (base AND 0xffff),
      base_23_16 = ucast (drop_bit 16 base AND 0xff), seg_type = type, seg_s = True,
      seg_dpl = dpl, seg_p = True, lim_19_16 = ucast (drop_bit 28 lim), seg_avl = False,
      seg_rsv1 = False, seg_db = True, seg_g = True, base_31_24 = ucast (drop_bit 24 base)\<rparr>"

definition SEG16 :: "4 word \<Rightarrow> uint \<Rightarrow> uint \<Rightarrow> 2 word \<Rightarrow> segdesc" where
  "SEG16 type base lim dpl =
     \<lparr>lim_15_0 = ucast (lim AND 0xffff), base_15_0 = ucast (base AND 0xffff),
      base_23_16 = ucast (drop_bit 16 base AND 0xff), seg_type = type, seg_s = True,
      seg_dpl = dpl, seg_p = True, lim_19_16 = ucast (drop_bit 16 lim), seg_avl = False,
      seg_rsv1 = False, seg_db = True, seg_g = False, base_31_24 = ucast (drop_bit 24 base)\<rparr>"

text \<open>The fields of \<open>struct taskstate\<close> that the kernel writes.\<close>

record taskstate =
  ts_esp0 :: uint
  ts_ss0 :: ushort
  ts_iomb :: ushort

text \<open>
  \<open>struct cpu\<close> (\<open>cpu_proc\<close> is its field \<open>proc\<close>, an index into the process table), extended by
  the CPU's interrupt flag, page-table register and task register. \<open>ts_addr\<close> is the address
  of its \<open>ts\<close> field. The saved scheduler context is represented by the control points of the
  scheduler model.
\<close>

record cpu =
  apicid :: uchar
  ts :: taskstate
  ts_addr :: uint
  gdt :: "nat \<Rightarrow> segdesc"
  started :: bool
  ncli :: int
  intena :: bool
  cpu_proc :: "nat option"
  IF_flag :: bool
  cr3 :: uint
  tr :: uint

section \<open>Locks\<close>

text \<open>
  The spin locks of the kernel, by the variable that holds them. \<open>L_buf\<close> and \<open>L_inode\<close> are the
  spin locks inside the sleep locks of a buffer and of an in-memory inode, \<open>L_pipe\<close> is the lock
  of the pipe at an address.
\<close>

datatype lockid =
    L_ptable | L_kmem | L_tickslock | L_cons | L_ftable | L_icache | L_bcache | L_log | L_ide
  | L_buf nat | L_inode nat | L_pipe uint

text \<open>\<open>struct spinlock\<close>; the call stack \<open>pcs\<close>, kept for debugging only, is left out.\<close>

record spinlock =
  locked :: bool
  lname :: string
  lcpu :: "nat option"

section \<open>The machine\<close>

text \<open>
  \<open>this_cpu\<close> is the CPU that executes and \<open>lapic_id\<close> what each CPU reads from its local
  interrupt controller.
\<close>

record machine =
  mem :: mem
  cpus :: "nat \<Rightarrow> cpu"
  ncpu :: nat
  this_cpu :: nat
  lapic_id :: "nat \<Rightarrow> uchar"
  locks :: "lockid \<Rightarrow> spinlock"

abbreviation cur :: "'a machine_scheme \<Rightarrow> cpu" where
  "cur s \<equiv> cpus s (this_cpu s)"

definition upd_cpu :: "nat \<Rightarrow> (cpu \<Rightarrow> cpu) \<Rightarrow> 'a machine_scheme \<Rightarrow> 'a machine_scheme" where
  "upd_cpu i f s = s\<lparr>cpus := (cpus s)(i := f (cpus s i))\<rparr>"

definition cli :: "'a machine_scheme \<Rightarrow> 'a machine_scheme" where
  "cli s = upd_cpu (this_cpu s) (\<lambda>c. c\<lparr>IF_flag := False\<rparr>) s"

definition sti :: "'a machine_scheme \<Rightarrow> 'a machine_scheme" where
  "sti s = upd_cpu (this_cpu s) (\<lambda>c. c\<lparr>IF_flag := True\<rparr>) s"

definition mycpu :: "'a machine_scheme \<Rightarrow> nat res" where
  "mycpu s =
     (if IF_flag (cur s) then Inl (Panic (''mycpu called with interrupts enabled'' @ [CHR 0x0A]))
      else case find (\<lambda>i. apicid (cpus s i) = lapic_id s (this_cpu s)) [0..<ncpu s] of
        Some i \<Rightarrow> Inr i
      | None \<Rightarrow> Inl (Panic (''unknown apicid'' @ [CHR 0x0A])))"

text \<open>\<open>cpuid\<close> is \<open>mycpu() - cpus\<close>: the index itself.\<close>

definition cpuid :: "'a machine_scheme \<Rightarrow> nat res" where
  "cpuid s = mycpu s"

text \<open>
  The APIC ids in \<open>cpus\<close> are those the hardware reports, and no two CPUs share one. The code
  assumes this after \<open>mpinit\<close>.
\<close>

definition cpus_wf :: "'a machine_scheme \<Rightarrow> bool" where
  "cpus_wf s \<longleftrightarrow> this_cpu s < ncpu s \<and> (\<forall>i<ncpu s. lapic_id s i = apicid (cpus s i)) \<and>
     inj_on (\<lambda>i. apicid (cpus s i)) {..<ncpu s}"

lemma mycpu_wf:
  assumes "cpus_wf s" and "\<not> IF_flag (cur s)"
  shows "mycpu s = Inr (this_cpu s)"
proof -
  have "find (\<lambda>i. apicid (cpus s i) = lapic_id s (this_cpu s)) [0..<ncpu s] = Some (this_cpu s)"
    using assms(1) by (auto simp: cpus_wf_def find_upt_Some_iff dest: inj_onD)
  with assms(2) show ?thesis by (simp add: mycpu_def)
qed

section \<open>Rounding to pages\<close>

lemma unat_PGROUNDDOWN: "unat (PGROUNDDOWN a) = 4096 * (unat a div 4096)"
proof -
  have "a AND NOT (mask 12) = push_bit 12 (drop_bit 12 a)"
    by (rule bit_word_eqI) (auto simp: bit_simps)
  moreover have "(PGSIZE - 1 :: uint) = mask 12" by (simp add: mask_eq_decr_exp)
  ultimately have "PGROUNDDOWN a = push_bit 12 (drop_bit 12 a)" by (simp only: PGROUNDDOWN_def)
  also have "\<dots> = a div 4096 * 4096" by (simp add: push_bit_eq_mult drop_bit_eq_div)
  finally have eq: "PGROUNDDOWN a = a div 4096 * 4096" .
  have "unat a < 4294967296" using unsigned_less [of a] by simp
  then have "unat a div 4096 * 4096 < 4294967296" by (rule le_less_trans [rotated]) simp
  then show ?thesis
    unfolding eq by (simp add: unat_word_ariths unat_div)
qed

lemma unat_PGROUNDUP:
  assumes "unat a + 4095 < 2 ^ 32"
  shows "unat (PGROUNDUP a) = 4096 * ((unat a + 4095) div 4096)"
proof -
  have "a + PGSIZE - 1 = a + 4095" by (simp add: algebra_simps)
  then have "PGROUNDUP a = PGROUNDDOWN (a + 4095)" by (simp only: PGROUNDUP_def PGROUNDDOWN_def)
  moreover have "unat (a + 4095) = unat a + 4095" using assms by (simp add: unat_word_ariths)
  ultimately show ?thesis by (simp add: unat_PGROUNDDOWN)
qed

end
