(* ===== verification/Spinlock.thy ===== *)
theory Spinlock
  imports Machine
begin

text \<open>
  \<open>spinlock.c\<close>: nested disabling of interrupts (\<open>pushcli\<close>, \<open>popcli\<close>) and spin locks. An
  \<open>acquire\<close> of a lock that another CPU holds is the result \<^term>\<open>Spin\<close>: the caller stays in its
  loop until that CPU releases. The lemmas give the state after each routine in closed form
  (\<open>pushed\<close>, \<open>popped\<close>, \<open>acquired\<close>, \<open>released\<close>); the components use these forms. The last
  section runs several CPUs against each other, one access of a lock word at a time, with the
  spinning as steps; there \<open>acquire\<close> and \<open>release\<close> are runs of a CPU that the others do not
  interrupt.
\<close>

section \<open>The code\<close>

definition initlock :: "lockid \<Rightarrow> string \<Rightarrow> 'a machine_scheme \<Rightarrow> 'a machine_scheme" where
  "initlock L name s = s\<lparr>locks := (locks s)(L := \<lparr>locked = False, lname = name, lcpu = None\<rparr>)\<rparr>"

definition pushcli :: "'a machine_scheme \<Rightarrow> 'a machine_scheme res" where
  "pushcli s =
     (let eflags = IF_flag (cur s); s = cli s
      in bnd (mycpu s) (\<lambda>c.
           let s = (if ncli (cpus s c) = 0 then upd_cpu c (\<lambda>x. x\<lparr>intena := eflags\<rparr>) s else s)
           in Inr (upd_cpu c (\<lambda>x. x\<lparr>ncli := ncli x + 1\<rparr>) s)))"

definition popcli :: "'a machine_scheme \<Rightarrow> 'a machine_scheme res" where
  "popcli s =
     bnd (panic_if (IF_flag (cur s)) ''popcli - interruptible'') (\<lambda>_.
     bnd (mycpu s) (\<lambda>c.
       let s = upd_cpu c (\<lambda>x. x\<lparr>ncli := ncli x - 1\<rparr>) s
       in bnd (panic_if (ncli (cpus s c) < 0) ''popcli'') (\<lambda>_.
          if ncli (cpus s c) = 0 \<and> intena (cpus s c) then Inr (sti s) else Inr s)))"

text \<open>
  The accesses to the lock words, one at a time: each definition touches the memory the CPUs share
  once. \<open>holding\<close> reads the two words one after the other, \<open>acquire\<close> exchanges \<open>locked\<close> and then
  writes \<open>cpu\<close>, \<open>release\<close> clears \<open>cpu\<close> and then \<open>locked\<close>.
\<close>

definition holding_flag :: "lockid \<Rightarrow> 'a machine_scheme \<Rightarrow> (bool \<times> 'a machine_scheme) res" where
  "holding_flag L s = bnd (pushcli s) (\<lambda>s. Inr (locked (locks s L), s))"

definition holding_cpu :: "lockid \<Rightarrow> bool \<Rightarrow> 'a machine_scheme \<Rightarrow> (bool \<times> 'a machine_scheme) res" where
  "holding_cpu L b s =
     bnd (mycpu s) (\<lambda>c.
       let r = (b \<and> lcpu (locks s L) = Some c)
       in bnd (popcli s) (\<lambda>s. Inr (r, s)))"

definition holding :: "lockid \<Rightarrow> 'a machine_scheme \<Rightarrow> (bool \<times> 'a machine_scheme) res" where
  "holding L s = bnd (holding_flag L s) (\<lambda>(b, s). holding_cpu L b s)"

definition xchg_locked :: "lockid \<Rightarrow> 'a machine_scheme \<Rightarrow> bool \<times> 'a machine_scheme" where
  "xchg_locked L s = (locked (locks s L), s\<lparr>locks := (locks s)(L := (locks s L)\<lparr>locked := True\<rparr>)\<rparr>)"

definition set_lcpu :: "lockid \<Rightarrow> 'a machine_scheme \<Rightarrow> 'a machine_scheme res" where
  "set_lcpu L s = bnd (mycpu s) (\<lambda>c. Inr (s\<lparr>locks := (locks s)(L := (locks s L)\<lparr>lcpu := Some c\<rparr>)\<rparr>))"

definition clear_lcpu :: "lockid \<Rightarrow> 'a machine_scheme \<Rightarrow> 'a machine_scheme" where
  "clear_lcpu L s = s\<lparr>locks := (locks s)(L := (locks s L)\<lparr>lcpu := None\<rparr>)\<rparr>"

definition clear_locked :: "lockid \<Rightarrow> 'a machine_scheme \<Rightarrow> 'a machine_scheme" where
  "clear_locked L s = s\<lparr>locks := (locks s)(L := (locks s L)\<lparr>locked := False\<rparr>)\<rparr>"

definition acquire :: "lockid \<Rightarrow> 'a machine_scheme \<Rightarrow> 'a machine_scheme res" where
  "acquire L s =
     bnd (pushcli s) (\<lambda>s.
     bnd (holding L s) (\<lambda>(h, s).
       if h then Inl (Panic ''acquire'')
       else let (old, s) = xchg_locked L s
            in if old then Inl Spin else set_lcpu L s))"

definition release :: "lockid \<Rightarrow> 'a machine_scheme \<Rightarrow> 'a machine_scheme res" where
  "release L s =
     bnd (holding L s) (\<lambda>(h, s).
       if \<not> h then Inl (Panic ''release'')
       else popcli (clear_locked L (clear_lcpu L s)))"

text \<open>\<open>getcallerpcs\<close> follows the chain of saved frame pointers, at most ten frames.\<close>

fun getcallerpcs_loop :: "nat \<Rightarrow> uint \<Rightarrow> mem \<Rightarrow> uint list" where
  "getcallerpcs_loop 0 ebp m = []"
| "getcallerpcs_loop (Suc n) ebp m =
     (if ebp = 0 \<or> ebp < KERNBASE \<or> ebp = 0xffffffff then replicate (Suc n) 0
      else load32 m (ebp + 4) # getcallerpcs_loop n (load32 m ebp) m)"

definition getcallerpcs :: "uint \<Rightarrow> mem \<Rightarrow> uint list" where
  "getcallerpcs v m = getcallerpcs_loop 10 (v - 8) m"

section \<open>Closed forms\<close>

text \<open>
  The discipline of \<open>pushcli\<close> and \<open>popcli\<close>: the depth is not negative, and interrupts are off
  whenever it is positive.
\<close>

definition cli_ok :: "cpu \<Rightarrow> bool" where
  "cli_ok c \<longleftrightarrow> 0 \<le> ncli c \<and> (0 < ncli c \<longrightarrow> \<not> IF_flag c)"

definition cpu_ok :: "'a machine_scheme \<Rightarrow> bool" where
  "cpu_ok s \<longleftrightarrow> cpus_wf s \<and> cli_ok (cur s)"

definition push_cpu :: "cpu \<Rightarrow> cpu" where
  "push_cpu c = c\<lparr>IF_flag := False, intena := (if ncli c = 0 then IF_flag c else intena c),
     ncli := ncli c + 1\<rparr>"

definition pop_cpu :: "cpu \<Rightarrow> cpu" where
  "pop_cpu c = (if ncli c = 1 \<and> intena c then c\<lparr>ncli := 0, IF_flag := True\<rparr>
     else c\<lparr>ncli := ncli c - 1\<rparr>)"

text \<open>What a balanced pair leaves behind: the interrupt state recorded at the outer level.\<close>

definition sync_cpu :: "cpu \<Rightarrow> cpu" where
  "sync_cpu c = c\<lparr>intena := (if ncli c = 0 then IF_flag c else intena c)\<rparr>"

abbreviation pushed :: "'a machine_scheme \<Rightarrow> 'a machine_scheme" where
  "pushed s \<equiv> upd_cpu (this_cpu s) push_cpu s"

abbreviation popped :: "'a machine_scheme \<Rightarrow> 'a machine_scheme" where
  "popped s \<equiv> upd_cpu (this_cpu s) pop_cpu s"

abbreviation synced :: "'a machine_scheme \<Rightarrow> 'a machine_scheme" where
  "synced s \<equiv> upd_cpu (this_cpu s) sync_cpu s"

abbreviation free_lock :: "lockid \<Rightarrow> 'a machine_scheme \<Rightarrow> bool" where
  "free_lock L s \<equiv> \<not> locked (locks s L) \<and> lcpu (locks s L) = None"

abbreviation holds :: "lockid \<Rightarrow> 'a machine_scheme \<Rightarrow> bool" where
  "holds L s \<equiv> locked (locks s L) \<and> lcpu (locks s L) = Some (this_cpu s)"

definition take_lock :: "nat \<Rightarrow> spinlock \<Rightarrow> spinlock" where
  "take_lock c l = l\<lparr>locked := True, lcpu := Some c\<rparr>"

definition drop_lock :: "spinlock \<Rightarrow> spinlock" where
  "drop_lock l = l\<lparr>lcpu := None, locked := False\<rparr>"

definition acquired :: "lockid \<Rightarrow> 'a machine_scheme \<Rightarrow> 'a machine_scheme" where
  "acquired L s = (pushed s)\<lparr>locks := (locks s)(L := take_lock (this_cpu s) (locks s L))\<rparr>"

definition released :: "lockid \<Rightarrow> 'a machine_scheme \<Rightarrow> 'a machine_scheme" where
  "released L s = (popped s)\<lparr>locks := (locks s)(L := drop_lock (locks s L))\<rparr>"

lemma upd_cpu_simps [simp]:
  "mem (upd_cpu i f s) = mem s" "ncpu (upd_cpu i f s) = ncpu s"
  "this_cpu (upd_cpu i f s) = this_cpu s" "lapic_id (upd_cpu i f s) = lapic_id s"
  "locks (upd_cpu i f s) = locks s" "machine.more (upd_cpu i f s) = machine.more s"
  "cpus (upd_cpu i f s) = (cpus s)(i := f (cpus s i))"
  by (simp_all add: upd_cpu_def)

lemma push_cpu_simps [simp]:
  "ncli (push_cpu c) = ncli c + 1" "\<not> IF_flag (push_cpu c)" "apicid (push_cpu c) = apicid c"
  "cpu_proc (push_cpu c) = cpu_proc c"
  by (simp_all add: push_cpu_def)

lemma pop_cpu_simps [simp]:
  "ncli (pop_cpu c) = ncli c - 1" "apicid (pop_cpu c) = apicid c"
  "cpu_proc (pop_cpu c) = cpu_proc c"
  by (simp_all add: pop_cpu_def)

lemma sync_cpu_simps [simp]:
  "ncli (sync_cpu c) = ncli c" "IF_flag (sync_cpu c) = IF_flag c" "apicid (sync_cpu c) = apicid c"
  "cpu_proc (sync_cpu c) = cpu_proc c"
  by (simp_all add: sync_cpu_def)

lemma sync_cpu_id: "0 < ncli c \<Longrightarrow> sync_cpu c = c"
  by (simp add: sync_cpu_def)

lemma pop_push_cpu: "cli_ok c \<Longrightarrow> pop_cpu (push_cpu c) = sync_cpu c"
  by (auto simp: push_cpu_def pop_cpu_def sync_cpu_def cli_ok_def)

lemma cli_ok_push [simp]: "cli_ok c \<Longrightarrow> cli_ok (push_cpu c)"
  by (simp add: cli_ok_def)

lemma cli_ok_pop [simp]: "cli_ok c \<Longrightarrow> 0 < ncli c \<Longrightarrow> cli_ok (pop_cpu c)"
  by (auto simp: cli_ok_def pop_cpu_def)

lemma cli_ok_sync [simp]: "cli_ok (sync_cpu c) = cli_ok c"
  by (simp add: cli_ok_def)

lemma cpus_wf_cong:
  assumes "this_cpu s' = this_cpu s" "ncpu s' = ncpu s" "lapic_id s' = lapic_id s"
    and "\<And>i. apicid (cpus s' i) = apicid (cpus s i)"
  shows "cpus_wf s' = cpus_wf s"
  by (simp add: cpus_wf_def assms)

lemma cpus_wf_upd_cpu [simp]:
  "(\<And>c. apicid (f c) = apicid c) \<Longrightarrow> cpus_wf (upd_cpu i f s) = cpus_wf s"
  by (rule cpus_wf_cong) auto

lemma cpus_wf_locks [simp]: "cpus_wf (s\<lparr>locks := l\<rparr>) = cpus_wf s"
  by (rule cpus_wf_cong) auto

lemma upd_cpu_locks [simp]: "(upd_cpu i f s)\<lparr>locks := locks s\<rparr> = upd_cpu i f s"
  by (simp add: upd_cpu_def)

lemma upd_cpu_id: "f (cpus s i) = cpus s i \<Longrightarrow> upd_cpu i f s = s"
  by (simp add: upd_cpu_def)

lemma upd_cpu_twice [simp]: "upd_cpu i f (upd_cpu i g s) = upd_cpu i (\<lambda>c. f (g c)) s"
  by (simp add: upd_cpu_def)

lemma upd_cpu_upd_locks: "upd_cpu i f (s\<lparr>locks := l\<rparr>) = (upd_cpu i f s)\<lparr>locks := l\<rparr>"
  by (simp add: upd_cpu_def)

lemma upd_cpu_cong: "f (cpus s i) = g (cpus s i) \<Longrightarrow> upd_cpu i f s = upd_cpu i g s"
  by (simp add: upd_cpu_def)

lemma pushcli_eq: "cpus_wf s \<Longrightarrow> pushcli s = Inr (pushed s)"
proof -
  assume "cpus_wf s"
  then have "mycpu (cli s) = Inr (this_cpu s)"
    by (subst mycpu_wf) (simp_all add: cli_def)
  then show ?thesis
    by (simp add: pushcli_def Let_def cli_def) (auto simp: upd_cpu_def push_cpu_def)
qed

lemma popcli_eq:
  assumes "cpu_ok s" and "0 < ncli (cur s)"
  shows "popcli s = Inr (popped s)"
proof -
  have "mycpu s = Inr (this_cpu s)"
    using assms by (intro mycpu_wf) (simp_all add: cpu_ok_def cli_ok_def)
  with assms show ?thesis
    by (simp add: popcli_def Let_def cpu_ok_def cli_ok_def sti_def)
      (auto simp: upd_cpu_def pop_cpu_def)
qed

lemma popcli_unbalanced: "cpus_wf s \<Longrightarrow> \<not> IF_flag (cur s) \<Longrightarrow> ncli (cur s) \<le> 0 \<Longrightarrow>
    popcli s = Inl (Panic ''popcli'')"
  by (simp add: popcli_def Let_def mycpu_wf)

lemma holding_eq:
  assumes "cpu_ok s"
  shows "holding L s = Inr (holds L s, synced s)"
proof -
  have wf: "cpus_wf s" and ok: "cli_ok (cur s)" using assms by (simp_all add: cpu_ok_def)
  have ok': "cpu_ok (pushed s)" using wf ok by (simp add: cpu_ok_def)
  have "mycpu (pushed s) = Inr (this_cpu s)" using wf by (subst mycpu_wf) simp_all
  moreover have "popcli (pushed s) = Inr (synced s)"
    using ok by (subst popcli_eq [OF ok'])
      (auto simp: cli_ok_def pop_push_cpu intro!: upd_cpu_cong pop_push_cpu)
  ultimately show ?thesis
    by (simp add: holding_def holding_flag_def holding_cpu_def pushcli_eq [OF wf] Let_def)
qed

lemma holding_inside: "cpu_ok s \<Longrightarrow> 0 < ncli (cur s) \<Longrightarrow> holding L s = Inr (holds L s, s)"
  by (simp add: holding_eq upd_cpu_id sync_cpu_id)

lemma acquire_cases:
  assumes "cpu_ok s"
  shows "acquire L s =
    (if holds L s then Inl (Panic ''acquire'') else if locked (locks s L) then Inl Spin
     else Inr (acquired L s))"
proof -
  have wf: "cpus_wf s" and ok: "cli_ok (cur s)" using assms by (simp_all add: cpu_ok_def)
  have ok': "cpu_ok (pushed s)" using wf ok by (simp add: cpu_ok_def)
  have h: "holding L (pushed s) = Inr (holds L s, pushed s)"
    using ok by (subst holding_inside [OF ok']) (simp_all add: cli_ok_def)
  have "mycpu ((pushed s)\<lparr>locks := l\<rparr>) = Inr (this_cpu s)" for l
    using wf by (subst mycpu_wf) simp_all
  then show ?thesis
    by (simp add: acquire_def xchg_locked_def set_lcpu_def pushcli_eq [OF wf] h Let_def acquired_def take_lock_def)
qed

lemma acquire_eq: "cpu_ok s \<Longrightarrow> free_lock L s \<Longrightarrow> acquire L s = Inr (acquired L s)"
  by (simp add: acquire_cases)

lemma release_cases:
  assumes "cpu_ok s" and "0 < ncli (cur s)"
  shows "release L s = (if holds L s then Inr (released L s) else Inl (Panic ''release''))"
proof -
  have "cpu_ok (s\<lparr>locks := l\<rparr>)" for l using assms by (simp add: cpu_ok_def)
  then have "popcli (s\<lparr>locks := l\<rparr>) = Inr ((popped s)\<lparr>locks := l\<rparr>)" for l
    using assms(2) by (subst popcli_eq) (auto simp: upd_cpu_upd_locks)
  then show ?thesis
    by (simp add: release_def clear_lcpu_def clear_locked_def holding_inside [OF assms] released_def drop_lock_def)
qed

lemma release_not_held:
  "cpu_ok s \<Longrightarrow> \<not> holds L s \<Longrightarrow> release L s = Inl (Panic ''release'')"
  by (simp add: release_def holding_eq)

lemma release_eq:
  "cpu_ok s \<Longrightarrow> 0 < ncli (cur s) \<Longrightarrow> holds L s \<Longrightarrow> release L s = Inr (released L s)"
  by (simp add: release_cases)

section \<open>What the primitives may change\<close>

text \<open>Whatever the state, a primitive that returns has changed CPUs and locks only.\<close>

lemma upd_cpu_frame: "\<exists>C. upd_cpu i f s = s\<lparr>cpus := C\<rparr>"
  by (auto simp: upd_cpu_def)

lemma pushcli_frame: "pushcli s = Inr t \<Longrightarrow> \<exists>C. t = s\<lparr>cpus := C\<rparr>"
  by (auto simp: pushcli_def Let_def cli_def res_iff upd_cpu_def)

lemma popcli_frame: "popcli s = Inr t \<Longrightarrow> \<exists>C. t = s\<lparr>cpus := C\<rparr>"
  by (auto simp: popcli_def Let_def sti_def res_iff upd_cpu_def split: if_splits)

lemma holding_frame: "holding L s = Inr (h, t) \<Longrightarrow> \<exists>C. t = s\<lparr>cpus := C\<rparr>"
  by (auto simp: holding_def holding_flag_def holding_cpu_def Let_def res_iff dest!: pushcli_frame popcli_frame)

lemma acquire_frame: "acquire L s = Inr t \<Longrightarrow> t = s\<lparr>cpus := cpus t, locks := locks t\<rparr>"
  by (auto simp: acquire_def xchg_locked_def set_lcpu_def Let_def res_iff dest!: pushcli_frame holding_frame split: if_splits)

lemma release_frame: "release L s = Inr t \<Longrightarrow> t = s\<lparr>cpus := cpus t, locks := locks t\<rparr>"
  by (auto simp: release_def clear_lcpu_def clear_locked_def res_iff dest!: popcli_frame holding_frame split: if_splits)

section \<open>Critical sections\<close>

text \<open>
  What a client sees. Between \<open>acquire\<close> and \<open>release\<close> the lock is held and interrupts are off;
  a section that leaves the CPUs and the locks alone ends in the state it was entered in, but for
  the recorded interrupt state of this CPU.
\<close>

lemma acquired_simps [simp]:
  "mem (acquired L s) = mem s" "ncpu (acquired L s) = ncpu s"
  "this_cpu (acquired L s) = this_cpu s" "lapic_id (acquired L s) = lapic_id s"
  "machine.more (acquired L s) = machine.more s"
  "cpus (acquired L s) = (cpus s)(this_cpu s := push_cpu (cur s))"
  "locks (acquired L s) = (locks s)(L := take_lock (this_cpu s) (locks s L))"
  by (simp_all add: acquired_def)

lemma released_simps [simp]:
  "mem (released L s) = mem s" "ncpu (released L s) = ncpu s"
  "this_cpu (released L s) = this_cpu s" "lapic_id (released L s) = lapic_id s"
  "machine.more (released L s) = machine.more s"
  "cpus (released L s) = (cpus s)(this_cpu s := pop_cpu (cur s))"
  "locks (released L s) = (locks s)(L := drop_lock (locks s L))"
  by (simp_all add: released_def)

lemma take_lock_simps [simp]: "locked (take_lock c l)" "lcpu (take_lock c l) = Some c"
  by (simp_all add: take_lock_def)

lemma drop_lock_simps [simp]: "\<not> locked (drop_lock l)" "lcpu (drop_lock l) = None"
  by (simp_all add: drop_lock_def)

lemma drop_take_lock [simp]: "\<not> locked l \<Longrightarrow> lcpu l = None \<Longrightarrow> drop_lock (take_lock c l) = l"
  by (simp add: drop_lock_def take_lock_def)

lemma cpu_ok_cong:
  assumes "cpus t = cpus s" "this_cpu t = this_cpu s" "ncpu t = ncpu s" "lapic_id t = lapic_id s"
  shows "cpu_ok t = cpu_ok s"
  using cpus_wf_cong [of t s] by (simp add: cpu_ok_def assms)

lemma cpu_ok_acquired [simp]: "cpu_ok s \<Longrightarrow> cpu_ok (acquired L s)"
  by (simp add: cpu_ok_def acquired_def)

lemma cpu_ok_synced [simp]: "cpu_ok (synced s) = cpu_ok s"
  by (simp add: cpu_ok_def)

lemma cpu_ok_ncli: "cpu_ok s \<Longrightarrow> 0 \<le> ncli (cur s)"
  by (simp add: cpu_ok_def cli_ok_def)

lemma crit_exit:
  assumes s: "cpu_ok s" "free_lock L s"
    and t: "cpus t = cpus (acquired L s)" "locks t = locks (acquired L s)"
      "this_cpu t = this_cpu s" "ncpu t = ncpu s" "lapic_id t = lapic_id s"
  shows "release L t =
    Inr (t\<lparr>cpus := (cpus s)(this_cpu s := sync_cpu (cur s)), locks := locks s\<rparr>)"
proof -
  have "cpu_ok t" using s(1) t by (subst cpu_ok_cong [of t "acquired L s"]) simp_all
  moreover have "0 < ncli (cur t)" using cpu_ok_ncli [OF s(1)] by (simp add: t)
  moreover have "holds L t" by (simp add: t)
  ultimately have "release L t = Inr (released L t)" by (rule release_eq)
  moreover have "pop_cpu (push_cpu (cur s)) = sync_cpu (cur s)"
    using s(1) by (simp add: cpu_ok_def pop_push_cpu)
  ultimately show ?thesis using s(2) t by (simp add: released_def upd_cpu_def)
qed

text \<open>The contract of a lock, for clients that only need that a section returns.\<close>

locale mutex =
  fixes acq rel :: "'s \<Rightarrow> 's res" and ready held :: "'s \<Rightarrow> bool"
  assumes acq_returns: "ready s \<Longrightarrow> \<exists>t. acq s = Inr t \<and> held t"
    and rel_returns: "held t \<Longrightarrow> \<exists>s. rel t = Inr s \<and> ready s"
    and no_reacquire: "held t \<Longrightarrow> \<exists>e. acq t = Inl e"
begin

definition guarded :: "('s \<Rightarrow> ('r \<times> 's) res) \<Rightarrow> 's \<Rightarrow> ('r \<times> 's) res" where
  "guarded f s = bnd (acq s) (\<lambda>s. bnd (f s) (\<lambda>(r, s). bnd (rel s) (\<lambda>s. Inr (r, s))))"

lemma guarded_returns:
  assumes "ready s" and "\<And>t. held t \<Longrightarrow> \<exists>r u. f t = Inr (r, u) \<and> held u"
  shows "\<exists>r u. guarded f s = Inr (r, u) \<and> ready u"
proof -
  obtain t where t: "acq s = Inr t" "held t" using acq_returns [OF assms(1)] by blast
  obtain r u where u: "f t = Inr (r, u)" "held u" using assms(2) [OF t(2)] by blast
  obtain v where "rel u = Inr v" "ready v" using rel_returns [OF u(2)] by blast
  with t u show ?thesis by (simp add: guarded_def)
qed

end

definition lock_ready :: "lockid \<Rightarrow> 'a machine_scheme \<Rightarrow> bool" where
  "lock_ready L s \<longleftrightarrow> cpu_ok s \<and> free_lock L s"

definition lock_held :: "lockid \<Rightarrow> 'a machine_scheme \<Rightarrow> bool" where
  "lock_held L s \<longleftrightarrow> cpu_ok s \<and> 0 < ncli (cur s) \<and> holds L s"

lemma cpu_ok_released: "cpu_ok s \<Longrightarrow> 0 < ncli (cur s) \<Longrightarrow> cpu_ok (released L s)"
  by (simp add: cpu_ok_def released_def)

interpretation spin: mutex "acquire L" "release L" "lock_ready L" "lock_held L"
proof
  fix s :: "'a machine_scheme" assume "lock_ready L s"
  then show "\<exists>t. acquire L s = Inr t \<and> lock_held L t"
    using cpu_ok_ncli [of s] by (simp add: lock_ready_def lock_held_def acquire_eq)
next
  fix t :: "'a machine_scheme" assume "lock_held L t"
  then show "\<exists>s. release L t = Inr s \<and> lock_ready L s"
    by (simp add: lock_ready_def lock_held_def release_eq cpu_ok_released)
next
  fix t :: "'a machine_scheme" assume "lock_held L t"
  then show "\<exists>e. acquire L t = Inl e"
    by (simp add: lock_held_def acquire_cases)
qed

section \<open>Several CPUs\<close>

text \<open>
  The CPUs run against each other one access of the lock words at a time. A CPU is idle, that is in
  code outside \<open>spinlock.c\<close>, or at a point of \<open>acquire\<close> or \<open>release\<close>: about to read \<open>locked\<close> or
  \<open>cpu\<close> in \<open>holding\<close>, about to execute the \<open>xchg\<close> of the loop, about to write \<open>cpu\<close>, to clear
  \<open>cpu\<close>, to clear \<open>locked\<close> or to call \<open>popcli\<close>. An \<open>xchg\<close> that finds the lock taken is a step,
  after which the CPU is about to execute the next one. A CPU that has called \<open>panic\<close> takes no
  more steps.
\<close>

datatype spin_pc = Idle | A_holding lockid | A_check lockid bool | A_xchg lockid | A_cpu lockid
  | R_check lockid bool | R_cpu lockid | R_locked lockid | R_popcli lockid | A_panic | R_panic

text \<open>
  \<open>sections\<close> records the locks whose \<open>acquire\<close> a CPU has returned from and whose \<open>release\<close> it has
  not started, that is not got past its check; \<open>depth\<close> counts its other unmatched \<open>pushcli\<close>s.
\<close>

record spin_sys =
  hw :: machine
  spc :: "nat \<Rightarrow> spin_pc"
  sections :: "nat \<Rightarrow> lockid set"
  depth :: "nat \<Rightarrow> nat"

abbreviation on_cpu :: "nat \<Rightarrow> spin_sys \<Rightarrow> machine" where
  "on_cpu i S \<equiv> (hw S)\<lparr>this_cpu := i\<rparr>"

abbreviation goes :: "nat \<Rightarrow> spin_pc \<Rightarrow> machine \<Rightarrow> spin_sys \<Rightarrow> spin_sys" where
  "goes i x s S \<equiv> S\<lparr>hw := s, spc := (spc S)(i := x)\<rparr>"

inductive cpu_step :: "nat \<Rightarrow> spin_sys \<Rightarrow> spin_sys \<Rightarrow> bool" where
  call_acquire: "spc S i = Idle \<Longrightarrow> pushcli (on_cpu i S) = Inr s \<Longrightarrow> cpu_step i S (goes i (A_holding L) s S)"
| acquire_flag: "spc S i = A_holding L \<Longrightarrow> holding_flag L (on_cpu i S) = Inr (b, s) \<Longrightarrow>
    cpu_step i S (goes i (A_check L b) s S)"
| acquire_check: "spc S i = A_check L b \<Longrightarrow> holding_cpu L b (on_cpu i S) = Inr (h, s) \<Longrightarrow>
    cpu_step i S (goes i (if h then A_panic else A_xchg L) s S)"
| acquire_xchg: "spc S i = A_xchg L \<Longrightarrow> xchg_locked L (on_cpu i S) = (old, s) \<Longrightarrow>
    cpu_step i S (goes i (if old then A_xchg L else A_cpu L) s S)"
| acquire_return: "spc S i = A_cpu L \<Longrightarrow> set_lcpu L (on_cpu i S) = Inr s \<Longrightarrow>
    cpu_step i S ((goes i Idle s S)\<lparr>sections := (sections S)(i := insert L (sections S i))\<rparr>)"
| call_release: "spc S i = Idle \<Longrightarrow> holding_flag L (on_cpu i S) = Inr (b, s) \<Longrightarrow>
    cpu_step i S (goes i (R_check L b) s S)"
| release_check: "spc S i = R_check L b \<Longrightarrow> holding_cpu L b (on_cpu i S) = Inr (True, s) \<Longrightarrow>
    cpu_step i S ((goes i (R_cpu L) s S)\<lparr>sections := (sections S)(i := sections S i - {L})\<rparr>)"
| release_panic: "spc S i = R_check L b \<Longrightarrow> holding_cpu L b (on_cpu i S) = Inr (False, s) \<Longrightarrow>
    cpu_step i S (goes i R_panic s S)"
| release_cpu: "spc S i = R_cpu L \<Longrightarrow> cpu_step i S (goes i (R_locked L) (clear_lcpu L (on_cpu i S)) S)"
| release_locked: "spc S i = R_locked L \<Longrightarrow> cpu_step i S (goes i (R_popcli L) (clear_locked L (on_cpu i S)) S)"
| release_return: "spc S i = R_popcli L \<Longrightarrow> popcli (on_cpu i S) = Inr s \<Longrightarrow> cpu_step i S (goes i Idle s S)"
| push: "spc S i = Idle \<Longrightarrow> pushcli (on_cpu i S) = Inr s \<Longrightarrow>
    cpu_step i S (S\<lparr>hw := s, depth := (depth S)(i := depth S i + 1)\<rparr>)"
| pop: "spc S i = Idle \<Longrightarrow> 0 < depth S i \<Longrightarrow> popcli (on_cpu i S) = Inr s \<Longrightarrow>
    cpu_step i S (S\<lparr>hw := s, depth := (depth S)(i := depth S i - 1)\<rparr>)"

definition spin_start :: "spin_sys \<Rightarrow> bool" where
  "spin_start S \<longleftrightarrow> cpus_wf (hw S) \<and> (\<forall>i. ncli (cpus (hw S) i) = 0) \<and>
     (\<forall>L. free_lock L (hw S)) \<and> (\<forall>i. spc S i = Idle \<and> sections S i = {} \<and> depth S i = 0)"

inductive spin_reach :: "spin_sys \<Rightarrow> bool" where
  start: "spin_start S \<Longrightarrow> spin_reach S"
| step: "spin_reach S \<Longrightarrow> i < ncpu (hw S) \<Longrightarrow> cpu_step i S T \<Longrightarrow> spin_reach T"

text \<open>
  The invariant. A CPU owns a lock from the \<open>xchg\<close> that found it free to the store that frees it.
  \<open>locked\<close> says that the lock has an owner, which is unique; \<open>cpu\<close> says whose section it is; the
  depth counts the sections and the levels that \<open>acquire\<close> and \<open>release\<close> add at each point.
\<close>

fun pc_owns :: "spin_pc \<Rightarrow> lockid \<Rightarrow> bool" where
  "pc_owns (A_cpu L) M = (L = M)"
| "pc_owns (R_cpu L) M = (L = M)"
| "pc_owns (R_locked L) M = (L = M)"
| "pc_owns _ M = False"

fun pc_depth :: "spin_pc \<Rightarrow> nat" where
  "pc_depth Idle = 0"
| "pc_depth (A_check L b) = 2"
| "pc_depth R_panic = 0"
| "pc_depth _ = 1"

definition owns_lock :: "spin_sys \<Rightarrow> nat \<Rightarrow> lockid \<Rightarrow> bool" where
  "owns_lock S i L \<longleftrightarrow> L \<in> sections S i \<or> pc_owns (spc S i) L"

fun owned_by :: "spin_sys \<Rightarrow> lockid \<Rightarrow> nat option \<Rightarrow> bool" where
  "owned_by S L None \<longleftrightarrow> \<not> locked (locks (hw S) L) \<and> lcpu (locks (hw S) L) = None \<and> (\<forall>j. \<not> owns_lock S j L)"
| "owned_by S L (Some i) \<longleftrightarrow> locked (locks (hw S) L) \<and> (\<forall>j. owns_lock S j L \<longleftrightarrow> j = i) \<and>
     lcpu (locks (hw S) L) = (if L \<in> sections S i \<or> spc S i = R_cpu L then Some i else None) \<and>
     \<not> (L \<in> sections S i \<and> pc_owns (spc S i) L)"

definition lock_inv :: "spin_sys \<Rightarrow> bool" where
  "lock_inv S \<longleftrightarrow> (\<forall>L. \<exists>x. owned_by S L x)"

definition depth_inv :: "spin_sys \<Rightarrow> bool" where
  "depth_inv S \<longleftrightarrow> cpus_wf (hw S) \<and> (\<forall>i. finite (sections S i) \<and> cli_ok (cpus (hw S) i) \<and>
     ncli (cpus (hw S) i) = int (card (sections S i) + depth S i + pc_depth (spc S i)))"

lemma spin_start_inv: "spin_start S \<Longrightarrow> lock_inv S" "spin_start S \<Longrightarrow> depth_inv S"
  by (auto simp: spin_start_def lock_inv_def depth_inv_def owns_lock_def cli_ok_def intro!: exI [of _ None])

lemma cpus_wf_switch: "cpus_wf s \<Longrightarrow> i < ncpu s \<Longrightarrow> cpus_wf (s\<lparr>this_cpu := i\<rparr>)"
  by (simp add: cpus_wf_def)

lemma holding_flag_eq: "cpus_wf s \<Longrightarrow> holding_flag L s = Inr (locked (locks s L), pushed s)"
  by (simp add: holding_flag_def pushcli_eq)

lemma mycpu_inside: "cpu_ok s \<Longrightarrow> 0 < ncli (cur s) \<Longrightarrow> mycpu s = Inr (this_cpu s)"
  by (rule mycpu_wf) (simp_all add: cpu_ok_def cli_ok_def)

lemma holding_cpu_eq:
  "cpu_ok s \<Longrightarrow> 0 < ncli (cur s) \<Longrightarrow>
    holding_cpu L b s = Inr (b \<and> lcpu (locks s L) = Some (this_cpu s), popped s)"
  by (simp add: holding_cpu_def mycpu_inside popcli_eq Let_def)

lemma set_lcpu_eq:
  "cpu_ok s \<Longrightarrow> 0 < ncli (cur s) \<Longrightarrow>
    set_lcpu L s = Inr (s\<lparr>locks := (locks s)(L := (locks s L)\<lparr>lcpu := Some (this_cpu s)\<rparr>)\<rparr>)"
  by (simp add: set_lcpu_def mycpu_inside)

lemma depth_inv_cpu:
  assumes "depth_inv S" and "i < ncpu (hw S)"
  shows "cpu_ok (on_cpu i S)" "cpus_wf (on_cpu i S)" "0 < pc_depth (spc S i) + depth S i \<Longrightarrow> 0 < ncli (cpus (hw S) i)"
  using assms by (auto simp: depth_inv_def cpu_ok_def cpus_wf_switch)

text \<open>What a CPU does at each point, in closed form.\<close>

fun pc_result :: "nat \<Rightarrow> spin_sys \<Rightarrow> spin_sys \<Rightarrow> spin_pc \<Rightarrow> bool" where
  "pc_result i S T Idle \<longleftrightarrow>
     (\<exists>L. T = goes i (A_holding L) (pushed (on_cpu i S)) S) \<or>
     (\<exists>L. T = goes i (R_check L (locked (locks (hw S) L))) (pushed (on_cpu i S)) S) \<or>
     T = S\<lparr>hw := pushed (on_cpu i S), depth := (depth S)(i := depth S i + 1)\<rparr> \<or>
     0 < depth S i \<and> T = S\<lparr>hw := popped (on_cpu i S), depth := (depth S)(i := depth S i - 1)\<rparr>"
| "pc_result i S T (A_holding L) \<longleftrightarrow>
     T = goes i (A_check L (locked (locks (hw S) L))) (pushed (on_cpu i S)) S"
| "pc_result i S T (A_check L b) \<longleftrightarrow>
     T = goes i (if b \<and> lcpu (locks (hw S) L) = Some i then A_panic else A_xchg L) (popped (on_cpu i S)) S"
| "pc_result i S T (A_xchg L) \<longleftrightarrow>
     T = goes i (if locked (locks (hw S) L) then A_xchg L else A_cpu L)
       ((on_cpu i S)\<lparr>locks := (locks (hw S))(L := (locks (hw S) L)\<lparr>locked := True\<rparr>)\<rparr>) S"
| "pc_result i S T (A_cpu L) \<longleftrightarrow>
     T = (goes i Idle ((on_cpu i S)\<lparr>locks := (locks (hw S))(L := (locks (hw S) L)\<lparr>lcpu := Some i\<rparr>)\<rparr>) S)
       \<lparr>sections := (sections S)(i := insert L (sections S i))\<rparr>"
| "pc_result i S T (R_check L b) \<longleftrightarrow>
     T = (if b \<and> lcpu (locks (hw S) L) = Some i
       then (goes i (R_cpu L) (popped (on_cpu i S)) S)\<lparr>sections := (sections S)(i := sections S i - {L})\<rparr>
       else goes i R_panic (popped (on_cpu i S)) S)"
| "pc_result i S T (R_cpu L) \<longleftrightarrow> T = goes i (R_locked L) (clear_lcpu L (on_cpu i S)) S"
| "pc_result i S T (R_locked L) \<longleftrightarrow> T = goes i (R_popcli L) (clear_locked L (on_cpu i S)) S"
| "pc_result i S T (R_popcli L) \<longleftrightarrow> T = goes i Idle (popped (on_cpu i S)) S"
| "pc_result i S T _ \<longleftrightarrow> False"

lemma cpu_step_result:
  assumes "cpu_step i S T" and "depth_inv S" and "i < ncpu (hw S)"
  shows "pc_result i S T (spc S i)"
  using assms(1)
proof cases
  case (acquire_check L b h s)
  then show ?thesis using holding_cpu_eq [OF depth_inv_cpu(1) [OF assms(2,3)], of L b] depth_inv_cpu(3) [OF assms(2,3)] by auto
next
  case (acquire_return L s)
  then show ?thesis using set_lcpu_eq [OF depth_inv_cpu(1) [OF assms(2,3)], of L] depth_inv_cpu(3) [OF assms(2,3)] by auto
next
  case (release_check L b s)
  then show ?thesis using holding_cpu_eq [OF depth_inv_cpu(1) [OF assms(2,3)], of L b] depth_inv_cpu(3) [OF assms(2,3)] by auto
next
  case (release_panic L b s)
  then show ?thesis using holding_cpu_eq [OF depth_inv_cpu(1) [OF assms(2,3)], of L b] depth_inv_cpu(3) [OF assms(2,3)] by auto
next
  case (release_return L s)
  then show ?thesis using popcli_eq [OF depth_inv_cpu(1) [OF assms(2,3)]] depth_inv_cpu(3) [OF assms(2,3)] by auto
next
  case (pop s)
  then show ?thesis using popcli_eq [OF depth_inv_cpu(1) [OF assms(2,3)]] depth_inv_cpu(3) [OF assms(2,3)] by auto
qed (auto simp: pushcli_eq holding_flag_eq xchg_locked_def depth_inv_cpu(2) [OF assms(2,3)])

lemma depth_inv_goes:
  assumes "depth_inv S" and "i < ncpu (hw S)" and "s = (upd_cpu i f (on_cpu i S))\<lparr>locks := l\<rparr>"
    and "\<And>c. apicid (f c) = apicid c" and "cli_ok (f (cpus (hw S) i))" and "finite C"
    and "ncli (f (cpus (hw S) i)) = int (card C + d + pc_depth x)"
  shows "depth_inv (S\<lparr>hw := s, spc := (spc S)(i := x), sections := (sections S)(i := C), depth := (depth S)(i := d)\<rparr>)"
  using assms depth_inv_cpu(2) [OF assms(1,2)] by (auto simp: depth_inv_def)

lemma lock_inv_owner:
  assumes "lock_inv S" and "owns_lock S i L"
  shows "owned_by S L (Some i)"
proof -
  obtain x where "owned_by S L x" using assms(1) by (auto simp: lock_inv_def)
  with assms(2) show ?thesis by (cases x) auto
qed

lemma lock_inv_lcpu:
  assumes "lock_inv S" and "lcpu (locks (hw S) L) = Some i" and "spc S i \<noteq> R_cpu L"
  shows "L \<in> sections S i"
proof -
  obtain x where x: "owned_by S L x" using assms(1) by (auto simp: lock_inv_def)
  show ?thesis
  proof (cases x)
    case (Some j)
    with x assms(2,3) show ?thesis by (auto split: if_splits)
  qed (use x assms(2) in simp)
qed

lemma depth_inv_step:
  assumes "depth_inv S" and "i < ncpu (hw S)" and "lock_inv S" and "pc_result i S T (spc S i)"
  shows "depth_inv T"
proof -
  have ok: "cli_ok (cpus (hw S) i)" "finite (sections S i)"
    "ncli (cpus (hw S) i) = int (card (sections S i) + depth S i + pc_depth (spc S i))"
    using assms(1) by (auto simp: depth_inv_def)
  have wf: "cpus_wf (on_cpu i S)" using depth_inv_cpu(2) [OF assms(1,2)] .
  have pos: "0 < pc_depth (spc S i) + depth S i \<Longrightarrow> cli_ok (pop_cpu (cpus (hw S) i))"
    using ok(1) depth_inv_cpu(3) [OF assms(1,2)] by simp
  have card: "L \<in> sections S i \<Longrightarrow> card (sections S i) = Suc (card (sections S i - {L}))" for L
    using ok(2) by (rule card.remove)
  have D: "j \<noteq> i \<Longrightarrow> finite (sections S j) \<and> cli_ok (cpus (hw S) j) \<and>
      ncli (cpus (hw S) j) = int (card (sections S j) + depth S j + pc_depth (spc S j))" for j
    using assms(1) by (auto simp: depth_inv_def)
  note facts = ok wf pos D
  show ?thesis
  proof (cases "spc S i")
    case (A_cpu L)
    then have "L \<notin> sections S i" using lock_inv_owner [OF assms(3), of i L] by (auto simp: owns_lock_def)
    with A_cpu assms(4) facts show ?thesis by (simp add: depth_inv_def)
  next
    case (R_check L b)
    show ?thesis
    proof (cases "b \<and> lcpu (locks (hw S) L) = Some i")
      case True
      with R_check have "L \<in> sections S i" using lock_inv_lcpu [OF assms(3)] by simp
      from card [OF this] True R_check assms(4) facts show ?thesis by (simp add: depth_inv_def)
    qed (use R_check assms(4) facts in \<open>auto simp: depth_inv_def\<close>)
  next
    case Idle
    with assms(4) consider (a) L where "T = goes i (A_holding L) (pushed (on_cpu i S)) S"
      | (r) L where "T = goes i (R_check L (locked (locks (hw S) L))) (pushed (on_cpu i S)) S"
      | (u) "T = S\<lparr>hw := pushed (on_cpu i S), depth := (depth S)(i := depth S i + 1)\<rparr>"
      | (o) "0 < depth S i" "T = S\<lparr>hw := popped (on_cpu i S), depth := (depth S)(i := depth S i - 1)\<rparr>"
      by auto
    then show ?thesis
      by cases (use Idle facts in \<open>simp_all add: depth_inv_def\<close>)
  qed (use assms(4) facts in \<open>simp_all add: depth_inv_def clear_lcpu_def clear_locked_def\<close>)
qed

text \<open>A step concerns one lock at most.\<close>

lemma owned_by_cong:
  assumes "locks (hw T) L = locks (hw S) L" and "\<And>j. L \<in> sections T j \<longleftrightarrow> L \<in> sections S j"
    and "\<And>j. pc_owns (spc T j) L = pc_owns (spc S j) L" and "\<And>j. spc T j = R_cpu L \<longleftrightarrow> spc S j = R_cpu L"
  shows "owned_by T L x = owned_by S L x"
  by (cases x) (simp_all add: owns_lock_def assms)

lemma lock_inv_at:
  assumes "lock_inv S" and "owned_by T L x"
    and "\<And>M. M \<noteq> L \<Longrightarrow> locks (hw T) M = locks (hw S) M \<and> (\<forall>j. (M \<in> sections T j \<longleftrightarrow> M \<in> sections S j) \<and>
      pc_owns (spc T j) M = pc_owns (spc S j) M \<and> (spc T j = R_cpu M \<longleftrightarrow> spc S j = R_cpu M))"
  shows "lock_inv T"
  unfolding lock_inv_def
proof
  fix M
  show "\<exists>x. owned_by T M x"
  proof (cases "M = L")
    case False
    then have "owned_by T M x = owned_by S M x" for x using assms(3) by (intro owned_by_cong) auto
    with assms(1) show ?thesis by (simp add: lock_inv_def)
  qed (use assms(2) in blast)
qed

lemma lock_inv_same:
  assumes "lock_inv S" and "locks (hw T) = locks (hw S)" and "sections T = sections S"
    and "\<And>j L. pc_owns (spc T j) L = pc_owns (spc S j) L" and "\<And>j L. spc T j = R_cpu L \<longleftrightarrow> spc S j = R_cpu L"
  shows "lock_inv T"
  using assms(1) owned_by_cong [of T _ S] by (simp add: lock_inv_def assms(2-5))

lemma lock_inv_step:
  assumes "lock_inv S" and "pc_result i S T (spc S i)"
  shows "lock_inv T"
proof -
  have own: "owned_by S L (Some i)" if "pc_owns (spc S i) L" for L
    using lock_inv_owner [OF assms(1), of i L] that by (simp add: owns_lock_def)
  show ?thesis
  proof (cases "spc S i")
    case (A_xchg L)
    show ?thesis
    proof (cases "locked (locks (hw S) L)")
      case True
      then have "(locks (hw S) L)\<lparr>locked := True\<rparr> = locks (hw S) L" by simp
      with A_xchg True assms(2) have "T = goes i (A_xchg L) (on_cpu i S) S" by (simp del: fun_upd_apply)
      with A_xchg show ?thesis by (intro lock_inv_same [OF assms(1)]) auto
    next
      case False
      obtain x where "owned_by S L x" using assms(1) by (auto simp: lock_inv_def)
      with False have "owned_by S L None" by (cases x) auto
      with False A_xchg assms(2) show ?thesis
        by (intro lock_inv_at [OF assms(1), of _ L "Some i"]) (auto simp: owns_lock_def)
    qed
  next
    case (A_cpu L)
    with assms(2) own [of L] show ?thesis
      by (intro lock_inv_at [OF assms(1), of _ L "Some i"]) (auto simp: owns_lock_def)
  next
    case (R_check L b)
    show ?thesis
    proof (cases "b \<and> lcpu (locks (hw S) L) = Some i")
      case True
      then have "owned_by S L (Some i)"
        using R_check lock_inv_lcpu [OF assms(1)] lock_inv_owner [OF assms(1), of i L] by (simp add: owns_lock_def)
      with True R_check assms(2) show ?thesis
        by (intro lock_inv_at [OF assms(1), of _ L "Some i"]) (auto simp: owns_lock_def)
    next
      case False
      with R_check assms(2) show ?thesis by (intro lock_inv_same [OF assms(1)]) auto
    qed
  next
    case (R_cpu L)
    with assms(2) own [of L] show ?thesis
      by (intro lock_inv_at [OF assms(1), of _ L "Some i"]) (auto simp: owns_lock_def clear_lcpu_def)
  next
    case (R_locked L)
    with assms(2) own [of L] show ?thesis
      by (intro lock_inv_at [OF assms(1), of _ L None]) (auto simp: owns_lock_def clear_locked_def)
  qed (use assms(2) in \<open>auto intro!: lock_inv_same [OF assms(1)] split: if_splits\<close>)
qed

lemma spin_reach_inv: "spin_reach S \<Longrightarrow> lock_inv S \<and> depth_inv S"
proof (induction rule: spin_reach.induct)
  case (start S)
  then show ?case by (simp add: spin_start_inv)
next
  case (step S i T)
  then have "pc_result i S T (spc S i)" by (intro cpu_step_result) simp_all
  with step show ?case using lock_inv_step depth_inv_step by blast
qed

text \<open>
  The calls of \<open>acquire\<close> and \<open>release\<close> as the rest of the kernel sees them are the runs of these
  steps in which no other CPU intervenes.
\<close>

lemma holding_flag_frame: "holding_flag L s = Inr (b, t) \<Longrightarrow> this_cpu t = this_cpu s"
  by (auto simp: holding_flag_def res_iff dest!: pushcli_frame)

lemma holding_cpu_frame: "holding_cpu L b s = Inr (h, t) \<Longrightarrow> this_cpu t = this_cpu s"
  by (auto simp: holding_cpu_def Let_def res_iff dest!: popcli_frame)

lemma same_cpu: "this_cpu s = i \<Longrightarrow> s\<lparr>this_cpu := i\<rparr> = s" for s :: machine
  by auto

lemma acquire_steps:
  assumes "spc S i = Idle" and "acquire L (on_cpu i S) = Inr s"
  shows "(cpu_step i)\<^sup>*\<^sup>* S (S\<lparr>hw := s, sections := (sections S)(i := insert L (sections S i))\<rparr>)"
proof -
  obtain s1 b s2 s3 s4 where s: "pushcli (on_cpu i S) = Inr s1" "holding_flag L s1 = Inr (b, s2)"
      "holding_cpu L b s2 = Inr (False, s3)" "xchg_locked L s3 = (False, s4)" "set_lcpu L s4 = Inr s"
    using assms(2) by (auto simp: acquire_def holding_def res_iff split: prod.splits if_splits)
  have "this_cpu s1 = i" "this_cpu s2 = i" "this_cpu s3 = i" "this_cpu s4 = i"
    using s pushcli_frame [OF s(1)] holding_flag_frame [OF s(2)] holding_cpu_frame [OF s(3)]
    by (auto simp: xchg_locked_def)
  note c = this [THEN same_cpu]
  let ?S1 = "goes i (A_holding L) s1 S" and ?S2 = "goes i (A_check L b) s2 S"
  let ?S3 = "goes i (A_xchg L) s3 S" and ?S4 = "goes i (A_cpu L) s4 S"
  have "cpu_step i S ?S1" by (rule call_acquire [OF assms(1) s(1)])
  moreover have "cpu_step i ?S1 ?S2" using acquire_flag [of ?S1 i L b s2] s(2) c by simp
  moreover have "cpu_step i ?S2 ?S3" using acquire_check [of ?S2 i L b False s3] s(3) c by simp
  moreover have "cpu_step i ?S3 ?S4" using acquire_xchg [of ?S3 i L False s4] s(4) c by simp
  moreover have "cpu_step i ?S4 (S\<lparr>hw := s, sections := (sections S)(i := insert L (sections S i))\<rparr>)"
    using acquire_return [of ?S4 i L s] s(5) c assms(1) by (simp add: fun_upd_idem)
  ultimately show ?thesis by (meson converse_rtranclp_into_rtranclp rtranclp.rtrancl_refl)
qed

lemma sections_first: "goes i x s S\<lparr>sections := X\<rparr> = S\<lparr>sections := X, hw := s, spc := (spc S)(i := x)\<rparr>"
  by (cases S) simp

lemma release_steps:
  assumes "spc S i = Idle" and "release L (on_cpu i S) = Inr s"
  shows "(cpu_step i)\<^sup>*\<^sup>* S (S\<lparr>sections := (sections S)(i := sections S i - {L}), hw := s\<rparr>)"
proof -
  obtain b s1 s2 where s: "holding_flag L (on_cpu i S) = Inr (b, s1)" "holding_cpu L b s1 = Inr (True, s2)"
      "popcli (clear_locked L (clear_lcpu L s2)) = Inr s"
    using assms(2) by (auto simp: release_def holding_def res_iff split: prod.splits if_splits)
  have "this_cpu s1 = i" "this_cpu s2 = i"
    using holding_flag_frame [OF s(1)] holding_cpu_frame [OF s(2)] by simp_all
  note c = this [THEN same_cpu]
  have d: "(clear_lcpu L s2)\<lparr>this_cpu := i\<rparr> = clear_lcpu L s2"
      "(clear_locked L (clear_lcpu L s2))\<lparr>this_cpu := i\<rparr> = clear_locked L (clear_lcpu L s2)"
    using \<open>this_cpu s2 = i\<close> by (auto simp: clear_lcpu_def clear_locked_def)
  let ?sec = "(sections S)(i := sections S i - {L})"
  let ?S1 = "goes i (R_check L b) s1 S" and ?S2 = "goes i (R_cpu L) s2 S\<lparr>sections := ?sec\<rparr>"
  let ?S3 = "goes i (R_locked L) (clear_lcpu L s2) S\<lparr>sections := ?sec\<rparr>"
  let ?S4 = "goes i (R_popcli L) (clear_locked L (clear_lcpu L s2)) S\<lparr>sections := ?sec\<rparr>"
  have "cpu_step i S ?S1" by (rule call_release [OF assms(1) s(1)])
  moreover have "cpu_step i ?S1 ?S2" using release_check [of ?S1 i L b s2] s(2) c by simp
  moreover have "cpu_step i ?S2 ?S3" using release_cpu [of ?S2 i L] c by (simp add: sections_first)
  moreover have "cpu_step i ?S3 ?S4" using release_locked [of ?S3 i L] d by (simp add: sections_first)
  moreover have "cpu_step i ?S4 (S\<lparr>sections := ?sec, hw := s\<rparr>)"
    using release_return [of ?S4 i L s] s(3) d assms(1) by (simp add: fun_upd_idem)
  ultimately show ?thesis by (meson converse_rtranclp_into_rtranclp rtranclp.rtrancl_refl)
qed

text \<open>
  C1: In every state that any interleaving of the CPUs reaches, where the CPUs execute \<open>acquire\<close>
  and \<open>release\<close> one access of the lock words at a time, at most one CPU is between the return of
  \<open>acquire\<close> on a lock and its \<open>release\<close>, and that CPU has interrupts disabled. Any other CPU that
  calls \<open>acquire\<close> on that lock spins, and the CPU itself would panic.
\<close>

theorem spin_mutual_exclusion:
  assumes "spin_reach S" and "L \<in> sections S i" and "L \<in> sections S j"
  shows "i = j \<and> \<not> IF_flag (cpus (hw S) i) \<and>
    (\<forall>k<ncpu (hw S). acquire L (on_cpu k S) = Inl (if k = i then Panic ''acquire'' else Spin))"
proof -
  have inv: "lock_inv S" "depth_inv S" using spin_reach_inv [OF assms(1)] by simp_all
  have own: "owned_by S L (Some i)" using lock_inv_owner [OF inv(1), of i L] assms(2) by (simp add: owns_lock_def)
  then have "i = j" using assms(3) by (auto simp: owns_lock_def)
  moreover have "0 < card (sections S i)" using inv(2) assms(2) by (auto simp: depth_inv_def card_gt_0_iff)
  then have "\<not> IF_flag (cpus (hw S) i)" using inv(2) by (auto simp: depth_inv_def cli_ok_def)
  moreover have "acquire L (on_cpu k S) = Inl (if k = i then Panic ''acquire'' else Spin)" if "k < ncpu (hw S)" for k
    using acquire_cases [OF depth_inv_cpu(1) [OF inv(2) that]] own assms(2) by auto
  ultimately show ?thesis by blast
qed

text \<open>Two CPUs as \<open>mpinit\<close> leaves them; the second one takes \<open>kmem.lock\<close>.\<close>

definition boot_cpu :: "nat \<Rightarrow> cpu" where
  "boot_cpu i = \<lparr>apicid = of_nat i, ts = \<lparr>ts_esp0 = 0, ts_ss0 = 0, ts_iomb = 0\<rparr>,
     ts_addr = 0x80112000 + 0xb0 * of_nat i, gdt = (\<lambda>_. SEG 0 0 0 0), started = False, ncli = 0,
     intena = False, cpu_proc = None, IF_flag = False, cr3 = 0, tr = 0\<rparr>"

definition boot_locks :: "lockid \<Rightarrow> spinlock" where
  "boot_locks = (\<lambda>_. \<lparr>locked = False, lname = [], lcpu = None\<rparr>)"

definition boot_machine :: machine where
  "boot_machine = \<lparr>mem = (\<lambda>_. 0), cpus = boot_cpu, ncpu = 2, this_cpu = 0,
     lapic_id = of_nat, locks = boot_locks\<rparr>"

definition boot_spin :: spin_sys where
  "boot_spin = \<lparr>hw = boot_machine, spc = (\<lambda>_. Idle), sections = (\<lambda>_. {}), depth = (\<lambda>_. 0)\<rparr>"

lemma inj_of_nat_2: "inj_on (of_nat :: nat \<Rightarrow> uchar) {..<2}"
  by (auto simp: inj_on_def less_2_cases_iff)

lemma boot_cpu_simps [simp]:
  "apicid (boot_cpu i) = of_nat i" "ncli (boot_cpu i) = 0" "\<not> IF_flag (boot_cpu i)"
  "cpu_proc (boot_cpu i) = None"
  by (simp_all add: boot_cpu_def)

lemma boot_locks_simps [simp]: "\<not> locked (boot_locks L)" "lcpu (boot_locks L) = None"
  by (simp_all add: boot_locks_def)

lemma boot_spin_start: "spin_start boot_spin"
  using inj_of_nat_2 by (simp add: spin_start_def boot_spin_def boot_machine_def cpus_wf_def)

lemma spin_reach_steps: "(cpu_step i)\<^sup>*\<^sup>* S T \<Longrightarrow> spin_reach S \<Longrightarrow> i < ncpu (hw S) \<Longrightarrow> spin_reach T \<and> i < ncpu (hw T)"
proof (induction rule: rtranclp_induct)
  case (step T U)
  then have T: "spin_reach T" "i < ncpu (hw T)" by simp_all
  then have "pc_result i T U (spc T i)" using step.hyps(2) spin_reach_inv by (intro cpu_step_result) simp_all
  then have "ncpu (hw U) = ncpu (hw T)"
    by (cases "spc T i") (auto simp: clear_lcpu_def clear_locked_def split: if_splits)
  with T step.hyps(2) show ?case by (auto intro: spin_reach.step)
qed simp

theorem spin_mutual_exclusion_witness:
  "\<exists>S. spin_reach S \<and> L_kmem \<in> sections S 1 \<and> \<not> IF_flag (cpus (hw S) 1) \<and>
     acquire L_kmem (on_cpu 0 S) = Inl Spin"
proof -
  let ?s = "boot_machine\<lparr>this_cpu := 1\<rparr>"
  let ?S = "boot_spin\<lparr>hw := acquired L_kmem ?s, sections := (sections boot_spin)(1 := {L_kmem})\<rparr>"
  have "cpu_ok ?s"
    using inj_of_nat_2 by (simp add: cpu_ok_def cpus_wf_def cli_ok_def boot_machine_def)
  then have "acquire L_kmem ?s = Inr (acquired L_kmem ?s)"
    by (rule acquire_eq) (simp add: boot_machine_def)
  then have "(cpu_step 1)\<^sup>*\<^sup>* boot_spin ?S"
    using acquire_steps [of boot_spin 1 L_kmem "acquired L_kmem ?s"] by (simp add: boot_spin_def)
  then have r: "spin_reach ?S"
    using spin_reach_steps [OF _ spin_reach.start [OF boot_spin_start]] by (simp add: boot_spin_def boot_machine_def)
  have "L_kmem \<in> sections ?S 1" "ncpu (hw ?S) = 2" by (simp_all add: boot_machine_def)
  with r spin_mutual_exclusion [OF r, of L_kmem 1 1] show ?thesis by (intro exI [of _ ?S]) simp
qed

end
