(* ===== verification/Console.thy ===== *)
theory Console
  imports Spinlock
begin

text \<open>
  Console output (\<open>console.c\<close>): \<open>printint\<close>, \<open>cprintf\<close>, \<open>consputc\<close> and \<open>cgaputc\<close>. The devices are
  the bytes sent to the serial port and the text memory and cursor of the CGA screen. Arguments
  of \<open>cprintf\<close> are given by value: an integer, or the string a pointer denotes (\<^term>\<open>None\<close> for a
  null pointer).
\<close>

section \<open>Devices\<close>

record condev =
  uart :: bool
  uart_out :: "uchar list"
  crt :: "nat \<Rightarrow> ushort"
  crt_pos :: nat

record console = machine +
  panicked :: bool
  cons_locking :: bool
  con :: condev

abbreviation (input) BACKSPACE :: uint where "BACKSPACE \<equiv> 0x100"

definition uartputc :: "uint \<Rightarrow> condev \<Rightarrow> condev" where
  "uartputc c d = (if \<not> uart d then d else d\<lparr>uart_out := uart_out d @ [ucast c]\<rparr>)"

text \<open>
  The cursor position is read from and written to the controller, 16 bits wide. Scrolling moves
  rows 1 to 23 up and clears from the new position to the end of row 23.
\<close>

definition cga_write :: "uint \<Rightarrow> nat \<Rightarrow> (nat \<Rightarrow> ushort) \<Rightarrow> nat \<times> (nat \<Rightarrow> ushort)" where
  "cga_write c pos t =
     (if c = 10 then (pos + (80 - pos mod 80), t)
      else if c = BACKSPACE then (if pos > 0 then pos - 1 else pos, t)
      else (pos + 1, t(pos := ucast (c AND 0xff) OR 0x0700)))"

definition cga_scroll :: "nat \<Rightarrow> (nat \<Rightarrow> ushort) \<Rightarrow> nat \<times> (nat \<Rightarrow> ushort)" where
  "cga_scroll pos t =
     (if pos div 80 \<ge> 24
      then let t = (\<lambda>i. if i < 23 * 80 then t (i + 80) else t i); pos = pos - 80
           in (pos, \<lambda>i. if pos \<le> i \<and> i < 24 * 80 then 0 else t i)
      else (pos, t))"

definition cgaputc :: "uint \<Rightarrow> condev \<Rightarrow> condev res" where
  "cgaputc c d =
     (let (pos, t) = cga_write c (crt_pos d) (crt d)
      in bnd (panic_if (pos > 25 * 80) ''pos under/overflow'') (\<lambda>_.
         let (pos, t) = cga_scroll pos t
         in Inr (d\<lparr>crt := t(pos := 0x0720), crt_pos := pos mod 2 ^ 16\<rparr>)))"

definition consputc :: "uint \<Rightarrow> 'a console_scheme \<Rightarrow> 'a console_scheme res" where
  "consputc c s =
     (if panicked s then Inl Halt
      else let d = (if c = BACKSPACE then uartputc 8 (uartputc 32 (uartputc 8 (con s)))
                    else uartputc c (con s))
           in bnd (cgaputc c d) (\<lambda>d. Inr (s\<lparr>con := d\<rparr>)))"

fun consputs :: "uchar list \<Rightarrow> 'a console_scheme \<Rightarrow> 'a console_scheme res" where
  "consputs [] s = Inr s"
| "consputs (c # cs) s = bnd (consputc (scast c) s) (consputs cs)"

section \<open>\<open>printint\<close>\<close>

text \<open>
  The digits that the \<open>do ... while\<close> loop stores, least significant first. The negation \<open>x = -xx\<close>
  of the least \<open>int\<close> is undefined in C; \<open>printint_buf\<close> takes the wrap-around that the compiled
  \<open>neg\<close> instruction gives, which leaves its bits as they are.
\<close>

function print_digits :: "nat \<Rightarrow> nat \<Rightarrow> nat list" where
  "print_digits base x =
     x mod base # (if 1 < base \<and> x div base \<noteq> 0 then print_digits base (x div base) else [])"
  by pat_completeness auto
termination
  by (relation "measure (\<lambda>(base, x). x)") (auto intro!: div_less_dividend gr0I)

declare print_digits.simps [simp del]

definition digit_char :: "nat \<Rightarrow> uchar" where
  "digit_char d = (if d < 10 then 48 + of_nat d else 97 + of_nat (d - 10))"

definition printint_buf :: "uint \<Rightarrow> nat \<Rightarrow> bool \<Rightarrow> uchar list" where
  "printint_buf xx base sign =
     (let sign = (sign \<and> sint xx < 0); x = (if sign then - xx else xx)
      in map digit_char (print_digits base (unat x)) @ (if sign then [45] else []))"

definition printint :: "uint \<Rightarrow> nat \<Rightarrow> bool \<Rightarrow> 'a console_scheme \<Rightarrow> 'a console_scheme res" where
  "printint xx base sign s = consputs (rev (printint_buf xx base sign)) s"

section \<open>\<open>cprintf\<close>\<close>

datatype carg = Aint uint | Astr "uchar list option"

definition str :: "string \<Rightarrow> uchar list" where
  "str cs = map of_char cs"

fun cprintf_loop :: "uchar list \<Rightarrow> carg list \<Rightarrow> 'a console_scheme \<Rightarrow> 'a console_scheme res" where
  "cprintf_loop [] args s = Inr s"
| "cprintf_loop [c] args s = (if c \<noteq> 37 then consputc (ucast c) s else Inr s)"
| "cprintf_loop (c # d # fmt) args s =
     (if c \<noteq> 37 then bnd (consputc (ucast c) s) (cprintf_loop (d # fmt) args)
      else if d = 100 then
        (case args of Aint x # as \<Rightarrow> bnd (printint x 10 True s) (cprintf_loop fmt as)
         | _ \<Rightarrow> Inl (Undefined ''cprintf: argument''))
      else if d = 120 \<or> d = 112 then
        (case args of Aint x # as \<Rightarrow> bnd (printint x 16 False s) (cprintf_loop fmt as)
         | _ \<Rightarrow> Inl (Undefined ''cprintf: argument''))
      else if d = 115 then
        (case args of
           Astr p # as \<Rightarrow>
             bnd (consputs (case p of None \<Rightarrow> str ''(null)'' | Some cs \<Rightarrow> cs) s) (cprintf_loop fmt as)
         | _ \<Rightarrow> Inl (Undefined ''cprintf: argument''))
      else if d = 37 then bnd (consputc 37 s) (cprintf_loop fmt args)
      else bnd (consputc 37 s) (\<lambda>s. bnd (consputc (ucast d) s) (cprintf_loop fmt args)))"

definition cprintf :: "string \<Rightarrow> carg list \<Rightarrow> 'a console_scheme \<Rightarrow> 'a console_scheme res" where
  "cprintf fmt args s =
     (let locking = cons_locking s
      in bnd (if locking then acquire L_cons s else Inr s) (\<lambda>s.
         bnd (cprintf_loop (str fmt) args s) (\<lambda>s.
         if locking then release L_cons s else Inr s)))"

section \<open>The console does not fail\<close>

definition condev_ok :: "condev \<Rightarrow> bool" where
  "condev_ok d \<longleftrightarrow> crt_pos d \<le> 24 * 80"

lemma condev_ok_uartputc [simp]: "condev_ok (uartputc c d) = condev_ok d"
  by (simp add: condev_ok_def uartputc_def)

lemma cga_write_pos: "pos \<le> 24 * 80 \<Longrightarrow> fst (cga_write c pos t) \<le> 25 * 80"
proof -
  assume "pos \<le> 24 * 80"
  moreover have "80 * (pos div 80) + pos mod 80 = pos" "pos mod 80 < 80" by simp_all
  moreover have "80 * q + r \<le> 24 * 80 \<Longrightarrow> r < 80 \<Longrightarrow> 80 * q + r + (80 - r) \<le> 25 * 80" for q r :: nat
    by linarith
  ultimately have "pos + (80 - pos mod 80) \<le> 25 * 80" by metis
  with \<open>pos \<le> 24 * 80\<close> show ?thesis by (auto simp: cga_write_def)
qed

lemma cga_scroll_pos: "pos \<le> 25 * 80 \<Longrightarrow> fst (cga_scroll pos t) \<le> 24 * 80"
  by (auto simp: cga_scroll_def Let_def)

lemma cgaputc_ok: "condev_ok d \<Longrightarrow> \<exists>d'. cgaputc c d = Inr d' \<and> condev_ok d'"
proof -
  assume "condev_ok d"
  obtain p t where w: "cga_write c (crt_pos d) (crt d) = (p, t)" by fastforce
  obtain q u where q: "cga_scroll p t = (q, u)" by fastforce
  have p: "p \<le> 25 * 80"
    using \<open>condev_ok d\<close> cga_write_pos [of "crt_pos d" c "crt d"] by (simp add: w condev_ok_def)
  then have "q \<le> 24 * 80" using cga_scroll_pos [of p t] by (simp add: q)
  with p show ?thesis by (simp add: cgaputc_def w q condev_ok_def)
qed

text \<open>A console routine that returns and changes nothing but the devices.\<close>

definition con_step :: "'a console_scheme \<Rightarrow> 'a console_scheme res \<Rightarrow> bool" where
  "con_step s m \<longleftrightarrow> (\<exists>d. m = Inr (s\<lparr>con := d\<rparr>) \<and> condev_ok d)"

lemma con_step_refl: "condev_ok (con s) \<Longrightarrow> con_step s (Inr s)"
  unfolding con_step_def by (intro exI [of _ "con s"]) simp

lemma con_step_bnd:
  assumes "con_step s m" and "\<not> panicked s"
    and "\<And>t. m = Inr t \<Longrightarrow> \<not> panicked t \<Longrightarrow> condev_ok (con t) \<Longrightarrow> con_step t (f t)"
  shows "con_step s (bnd m f)"
proof -
  obtain d where m: "m = Inr (s\<lparr>con := d\<rparr>)" "condev_ok d" using assms(1) by (auto simp: con_step_def)
  then have "con_step (s\<lparr>con := d\<rparr>) (f (s\<lparr>con := d\<rparr>))" using assms(2,3) by simp
  with m show ?thesis by (auto simp: con_step_def)
qed

lemma consputc_ok:
  assumes "\<not> panicked s" and "condev_ok (con s)"
  shows "con_step s (consputc c s)"
proof -
  let ?d = "if c = BACKSPACE then uartputc 8 (uartputc 32 (uartputc 8 (con s)))
    else uartputc c (con s)"
  have "condev_ok ?d" using assms(2) by simp
  then obtain d where "cgaputc c ?d = Inr d" "condev_ok d" using cgaputc_ok by blast
  with assms(1) show ?thesis
    unfolding con_step_def by (intro exI [of _ d]) (simp add: consputc_def Let_def)
qed

lemma consputs_ok: "\<not> panicked s \<Longrightarrow> condev_ok (con s) \<Longrightarrow> con_step s (consputs cs s)"
  by (induction cs arbitrary: s) (auto intro: con_step_refl con_step_bnd consputc_ok)

lemma printint_ok: "\<not> panicked s \<Longrightarrow> condev_ok (con s) \<Longrightarrow> con_step s (printint x b sg s)"
  by (simp add: printint_def consputs_ok)

text \<open>A format and its arguments agree: every conversion finds an argument of its kind.\<close>

fun fmt_ok :: "uchar list \<Rightarrow> carg list \<Rightarrow> bool" where
  "fmt_ok [] args = True"
| "fmt_ok [c] args = True"
| "fmt_ok (c # d # fmt) args =
     (if c \<noteq> 37 then fmt_ok (d # fmt) args
      else if d = 100 \<or> d = 120 \<or> d = 112
        then (case args of Aint x # as \<Rightarrow> fmt_ok fmt as | _ \<Rightarrow> False)
      else if d = 115 then (case args of Astr p # as \<Rightarrow> fmt_ok fmt as | _ \<Rightarrow> False)
      else fmt_ok fmt args)"

lemmas con_intros = con_step_refl con_step_bnd consputc_ok consputs_ok printint_ok

lemma cprintf_loop_ok:
  "\<not> panicked s \<Longrightarrow> condev_ok (con s) \<Longrightarrow> fmt_ok fmt args \<Longrightarrow> con_step s (cprintf_loop fmt args s)"
proof (induction fmt args s rule: cprintf_loop.induct)
  case (1 args s)
  then show ?case by (simp add: con_step_refl)
next
  case (2 c args s)
  then show ?case by (simp add: con_intros)
next
  case (3 c d fmt args s)
  note IH = "3.IH" and prems = "3.prems"
  consider "c \<noteq> 37" | "c = 37" "d = 100" | "c = 37" "d = 120 \<or> d = 112" | "c = 37" "d = 115"
    | "c = 37" "d = 37" | "c = 37" "d \<noteq> 100" "d \<noteq> 120" "d \<noteq> 112" "d \<noteq> 115" "d \<noteq> 37"
    by blast
  then show ?case
  proof cases
    case 1
    with prems IH(1) show ?thesis by (auto intro!: con_step_bnd consputc_ok)
  next
    case 2
    with prems(3) obtain x as where as: "args = Aint x # as" "fmt_ok fmt as"
      by (auto split: list.splits carg.splits)
    with prems 2 have "con_step s (bnd (printint x 10 True s) (cprintf_loop fmt as))"
      by (intro con_step_bnd printint_ok IH(2)) simp_all
    with as 2 show ?thesis by simp
  next
    case 3
    with prems(3) obtain x as where as: "args = Aint x # as" "fmt_ok fmt as"
      by (auto split: list.splits carg.splits)
    with prems 3 have "con_step s (bnd (printint x 16 False s) (cprintf_loop fmt as))"
      by (intro con_step_bnd printint_ok IH(3)) auto
    with as 3 show ?thesis by auto
  next
    case 4
    with prems(3) obtain p as where as: "args = Astr p # as" "fmt_ok fmt as"
      by (auto split: list.splits carg.splits)
    with prems 4 have "con_step s
        (bnd (consputs (case p of None \<Rightarrow> str ''(null)'' | Some cs \<Rightarrow> cs) s) (cprintf_loop fmt as))"
      by (intro con_step_bnd consputs_ok IH(4)) simp_all
    with as 4 show ?thesis by simp
  next
    case 5
    with prems IH(5) show ?thesis by (auto intro!: con_step_bnd consputc_ok)
  next
    case 6
    with prems IH(6) show ?thesis by (auto intro!: con_step_bnd consputc_ok)
  qed
qed

definition con_ok :: "'a console_scheme \<Rightarrow> bool" where
  "con_ok s \<longleftrightarrow> cpu_ok s \<and> \<not> panicked s \<and> condev_ok (con s) \<and>
     (cons_locking s \<longrightarrow> free_lock L_cons s)"

lemma cprintf_ok:
  assumes "con_ok s" and "fmt_ok (str fmt) args"
  shows "\<exists>d C. cprintf fmt args s = Inr (s\<lparr>cpus := C, con := d\<rparr>) \<and> condev_ok d \<and>
    (C = cpus s \<or> C = (cpus s)(this_cpu s := sync_cpu (cur s)))"
proof (cases "cons_locking s")
  case True
  let ?a = "acquired L_cons s"
  have s: "cpu_ok s" "free_lock L_cons s" using assms(1) True by (simp_all add: con_ok_def)
  have "panicked ?a = panicked s" "con ?a = con s"
    by (simp_all add: acquired_def upd_cpu_def)
  then obtain d where d: "cprintf_loop (str fmt) args ?a = Inr (?a\<lparr>con := d\<rparr>)" "condev_ok d"
    using cprintf_loop_ok [of ?a "str fmt" args] assms by (auto simp: con_step_def con_ok_def)
  have "release L_cons (?a\<lparr>con := d\<rparr>) = Inr (?a\<lparr>con := d\<rparr>\<lparr>cpus :=
      (cpus s)(this_cpu s := sync_cpu (cur s)), locks := locks s\<rparr>)"
    by (rule crit_exit [OF s]) simp_all
  also have "?a\<lparr>con := d\<rparr>\<lparr>cpus := (cpus s)(this_cpu s := sync_cpu (cur s)), locks := locks s\<rparr> =
      s\<lparr>cpus := (cpus s)(this_cpu s := sync_cpu (cur s)), con := d\<rparr>"
    by (simp add: acquired_def upd_cpu_def)
  finally have "cprintf fmt args s =
      Inr (s\<lparr>cpus := (cpus s)(this_cpu s := sync_cpu (cur s)), con := d\<rparr>)"
    using d(1) True by (simp add: cprintf_def acquire_eq [OF s])
  with d(2) show ?thesis by blast
next
  case False
  then have "con_step s (cprintf_loop (str fmt) args s)"
    using assms by (intro cprintf_loop_ok) (simp_all add: con_ok_def)
  then obtain d where "cprintf_loop (str fmt) args s = Inr (s\<lparr>con := d\<rparr>)" "condev_ok d"
    by (auto simp: con_step_def)
  with False show ?thesis by (intro exI [of _ d] exI [of _ "cpus s"]) (simp add: cprintf_def)
qed

lemma cprintf_inside:
  assumes "con_ok s" and "fmt_ok (str fmt) args" and "0 < ncli (cur s)"
  shows "con_step s (cprintf fmt args s)"
proof -
  have id: "(cpus s)(this_cpu s := sync_cpu (cur s)) = cpus s"
    using assms(3) by (simp add: sync_cpu_id)
  obtain d C where c: "cprintf fmt args s = Inr (s\<lparr>cpus := C, con := d\<rparr>)" "condev_ok d"
      "C = cpus s"
    using cprintf_ok [OF assms(1,2)] unfolding id by blast
  then have "cprintf fmt args s = Inr (s\<lparr>con := d\<rparr>)" by simp
  with c(2) show ?thesis unfolding con_step_def by blast
qed

section \<open>The digits of \<open>printint\<close>\<close>

definition digits_value :: "nat \<Rightarrow> nat list \<Rightarrow> nat" where
  "digits_value base ds = foldr (\<lambda>d v. d + base * v) ds 0"

lemma print_digits_step:
  "1 < base \<Longrightarrow> print_digits base x =
     (if x < base then [x] else x mod base # print_digits base (x div base))"
  using print_digits.simps [of base x] by (auto simp: div_eq_0_iff)

lemma print_digits_induct [consumes 1, case_names small step]:
  assumes "1 < base"
    and "\<And>x. x < base \<Longrightarrow> print_digits base x = [x] \<Longrightarrow> P x"
    and "\<And>x. base \<le> x \<Longrightarrow> print_digits base x = x mod base # print_digits base (x div base) \<Longrightarrow>
      P (x div base) \<Longrightarrow> P x"
  shows "P x"
proof (induction x rule: less_induct)
  case (less x)
  show ?case
  proof (cases "x < base")
    case True
    with assms(1,2) show ?thesis by (simp add: print_digits_step)
  next
    case False
    with assms(1) have "x div base < x" by (intro div_less_dividend) simp_all
    then have "P (x div base)" by (rule less)
    moreover have "print_digits base x = x mod base # print_digits base (x div base)"
      using False print_digits_step [OF assms(1), of x] by (simp only: if_False)
    moreover have "base \<le> x" using False by simp
    ultimately show ?thesis using assms(3) by blast
  qed
qed

lemma print_digits_value: "1 < base \<Longrightarrow> digits_value base (print_digits base x) = x"
  by (induction x rule: print_digits_induct) (simp_all add: digits_value_def)

lemma print_digits_less:
  assumes "1 < base" and "d \<in> set (print_digits base x)"
  shows "d < base"
  using assms by (induction x rule: print_digits_induct) (use assms(1) in auto)

lemma print_digits_ge:
  assumes "1 < base"
  shows "print_digits base x \<noteq> [] \<and>
     (base \<le> x \<longrightarrow> base ^ (length (print_digits base x) - 1) \<le> x) \<and>
     (x < base \<longrightarrow> length (print_digits base x) = 1)"
  using assms
proof (induction x rule: print_digits_induct)
  case (small x)
  then show ?case by simp
next
  case (step x)
  let ?y = "x div base"
  obtain k where k: "length (print_digits base ?y) = Suc k"
    using step(3) by (cases "print_digits base ?y") auto
  have "1 \<le> ?y" using step(1) assms by (simp add: Suc_le_eq div_greater_zero_iff)
  then have "base ^ k \<le> ?y" using step(3) k by (cases "?y < base") auto
  then have "base * base ^ k \<le> base * ?y" by simp
  also have "base * ?y \<le> x" by simp
  finally show ?case using step(1,2) k by simp
qed

lemma print_digits_length: "8 \<le> base \<Longrightarrow> x < 2 ^ 32 \<Longrightarrow> length (print_digits base x) \<le> 11"
proof (rule ccontr)
  assume b: "8 \<le> base" and x: "x < 2 ^ 32" and "\<not> length (print_digits base x) \<le> 11"
  then have "11 \<le> length (print_digits base x) - 1" "1 < length (print_digits base x)" by simp_all
  have "(8::nat) ^ 11 \<le> base ^ 11" using b by (rule power_mono) simp
  also have "\<dots> \<le> base ^ (length (print_digits base x) - 1)"
    using b \<open>11 \<le> _\<close> by (intro power_increasing) simp_all
  also have "\<dots> \<le> x"
    using b print_digits_ge [of base x] \<open>1 < length _\<close> by (cases "base \<le> x") auto
  finally show False using x by simp
qed

text \<open>
  A decimal numeral is a non-empty sequence of digits, without a leading zero unless it is zero, or
  a minus sign and such a sequence that is not zero. \<open>of_decimal\<close> is the number it denotes.
\<close>

definition digits_numeral :: "uchar list \<Rightarrow> bool" where
  "digits_numeral cs \<longleftrightarrow> cs \<noteq> [] \<and> list_all (\<lambda>c. 48 \<le> c \<and> c \<le> 57) cs \<and> (hd cs = 48 \<longrightarrow> cs = [48])"

definition decimal_numeral :: "uchar list \<Rightarrow> bool" where
  "decimal_numeral cs \<longleftrightarrow>
     (if cs \<noteq> [] \<and> hd cs = 45 then digits_numeral (tl cs) \<and> tl cs \<noteq> [48] else digits_numeral cs)"

definition of_digits :: "uchar list \<Rightarrow> int" where
  "of_digits cs = foldl (\<lambda>v c. 10 * v + (uint c - 48)) 0 cs"

definition of_decimal :: "uchar list \<Rightarrow> int" where
  "of_decimal cs = (if cs \<noteq> [] \<and> hd cs = 45 then - of_digits (tl cs) else of_digits cs)"

lemma digit_char_10: "d < 10 \<Longrightarrow> uint (digit_char d) = 48 + int d \<and> digit_char d \<noteq> 45"
proof -
  assume "d < 10"
  then have "d \<in> {0, 1, 2, 3, 4, 5, 6, 7, 8, 9}" by auto
  then show ?thesis by (auto simp: digit_char_def)
qed

lemma digit_char_range: "d < 10 \<Longrightarrow> 48 \<le> digit_char d \<and> digit_char d \<le> 57 \<and> (digit_char d = 48 \<longleftrightarrow> d = 0)"
proof -
  assume "d < 10"
  then have "d \<in> {0, 1, 2, 3, 4, 5, 6, 7, 8, 9}" by auto
  then show ?thesis by (auto simp: digit_char_def)
qed

lemma print_digits_last:
  assumes b: "1 < base"
  shows "last (print_digits base x) = 0 \<longleftrightarrow> x = 0"
  using b
proof (induction x rule: print_digits_induct)
  case (step x)
  then have "print_digits base (x div base) \<noteq> []" "x div base \<noteq> 0" "x \<noteq> 0"
    using b print_digits_ge [of base "x div base"] by (auto simp: div_eq_0_iff)
  with step(2,3) show ?case by simp
qed simp

lemma print_digits_numeral:
  "digits_numeral (map digit_char (rev (print_digits 10 x)))"
  "map digit_char (rev (print_digits 10 x)) = [48] \<longleftrightarrow> x = 0"
proof -
  let ?d = "print_digits 10 x"
  have d: "d < 10" if "d \<in> set ?d" for d using print_digits_less [of 10 d x] that by simp
  have n: "?d \<noteq> []" using print_digits_ge [of 10 x] by simp
  have 0: "x = 0 \<Longrightarrow> ?d = [0]" by (simp add: print_digits.simps [of 10 0])
  have h: "hd (map digit_char (rev ?d)) = digit_char (last ?d)" using n by (simp add: hd_map hd_rev)
  have l: "digit_char (last ?d) = 48 \<longleftrightarrow> x = 0"
    using digit_char_range [OF d [of "last ?d"]] n print_digits_last [of 10 x] by simp
  show "map digit_char (rev ?d) = [48] \<longleftrightarrow> x = 0"
    using h l 0 by (auto simp: digit_char_def)
  then show "digits_numeral (map digit_char (rev ?d))"
    using n h l d digit_char_range by (auto simp: digits_numeral_def list_all_iff)
qed

lemma of_digits_value:
  "\<forall>d\<in>set ds. d < 10 \<Longrightarrow> of_digits (map digit_char (rev ds)) = int (digits_value 10 ds)"
  by (induction ds) (auto simp: of_digits_def digits_value_def digit_char_10)

lemma uint_neg_sint: "sint (x :: uint) < 0 \<Longrightarrow> uint (- x) = - sint x"
proof -
  assume "sint x < 0"
  moreover have "- 2147483648 \<le> sint x" using sint_greater_eq [of x] by simp
  moreover have "- x = word_of_int (- sint x)" by simp
  ultimately show ?thesis
    by (simp only: uint_word_of_int) (simp add: mod_pos_pos_trivial)
qed

lemma uint_sint_nonneg: "\<not> sint (x :: uint) < 0 \<Longrightarrow> uint x = sint x"
proof -
  assume "\<not> sint x < 0"
  moreover have "sint x < 2147483648" using sint_less [of x] by simp
  moreover have "uint x = uint (word_of_int (sint x) :: uint)" by simp
  then have "uint x = sint x mod 4294967296" by (simp only: uint_word_of_int) simp
  ultimately show ?thesis by (simp add: mod_pos_pos_trivial)
qed

lemma printint_buf_decimal:
  "decimal_numeral (rev (printint_buf xx 10 True)) \<and> of_decimal (rev (printint_buf xx 10 True)) = sint xx"
proof -
  let ?d = "\<lambda>x. print_digits 10 (unat x)"
  have v: "of_digits (map digit_char (rev (?d x))) = int (unat x)" for x :: uint
    using of_digits_value [of "?d x"] print_digits_less [of 10 _ "unat x"]
    by (simp add: print_digits_value)
  have h: "hd (map digit_char (rev (?d x))) \<noteq> 45" for x :: uint
    using print_digits_ge [of 10 "unat x"] print_digits_less [of 10 "last (?d x)" "unat x"]
    by (simp add: hd_map hd_rev digit_char_10)
  show ?thesis
  proof (cases "sint xx < 0")
    case True
    then have "rev (printint_buf xx 10 True) = 45 # map digit_char (rev (?d (- xx)))"
      by (simp add: printint_buf_def Let_def rev_map)
    moreover have "uint (- xx) \<noteq> 0" using True uint_neg_sint [OF True] by simp
    then have "unat (- xx) \<noteq> 0" by (simp add: unsigned_eq_0_iff)
    ultimately show ?thesis using True v [of "- xx"] print_digits_numeral [of "unat (- xx)"]
      by (simp add: of_decimal_def decimal_numeral_def uint_neg_sint)
  next
    case False
    then have "int (unat xx) = sint xx" by (simp add: uint_sint_nonneg)
    moreover have "rev (printint_buf xx 10 True) = map digit_char (rev (?d xx))"
      using False by (simp add: printint_buf_def Let_def rev_map)
    ultimately show ?thesis using v [of xx] h [of xx] print_digits_numeral(1) [of "unat xx"]
      by (simp add: of_decimal_def decimal_numeral_def)
  qed
qed

lemma printint_buf_sign: "hd (rev (printint_buf xx 10 True)) = 45 \<longleftrightarrow> sint xx < 0"
proof (cases "sint xx < 0")
  case False
  then have "rev (printint_buf xx 10 True) = map digit_char (rev (print_digits 10 (unat xx)))"
    by (simp add: printint_buf_def Let_def rev_map)
  moreover have "48 \<le> hd cs" if "digits_numeral cs" for cs
    using that by (cases cs) (auto simp: digits_numeral_def)
  ultimately show ?thesis using False print_digits_numeral(1) [of "unat xx"] by fastforce
qed (simp add: printint_buf_def Let_def)

section \<open>What \<open>printint\<close> sends\<close>

lemma ucast_scast_char [simp]: "(ucast (scast (c :: uchar) :: uint) :: uchar) = c"
  by (rule bit_word_eqI) (auto simp: bit_simps)

lemma scast_not_BACKSPACE: "(scast (c :: uchar) :: uint) \<noteq> BACKSPACE"
proof
  assume a: "(scast c :: uint) = BACKSPACE"
  have "c = ucast (scast c :: uint)" by simp
  also have "\<dots> = 0" by (simp add: a)
  finally have "c = 0" .
  with a show False by simp
qed

lemma cgaputc_uart: "cgaputc c d = Inr e \<Longrightarrow> uart e = uart d \<and> uart_out e = uart_out d"
  by (auto simp: cgaputc_def Let_def panic_if_def split: prod.splits if_splits)

lemma consputs_uart:
  "consputs cs s = Inr t \<Longrightarrow> uart (con s) \<Longrightarrow>
     uart (con t) \<and> uart_out (con t) = uart_out (con s) @ cs"
proof (induction cs arbitrary: s)
  case Nil
  then show ?case by simp
next
  case (Cons c cs)
  then obtain u where u: "consputc (scast c) s = Inr u" "consputs cs u = Inr t"
    by (auto simp: res_iff)
  then have "uart (con u) \<and> uart_out (con u) = uart_out (con s) @ [c]"
    using Cons.prems(2) scast_not_BACKSPACE [of c]
    by (auto simp: consputc_def uartputc_def Let_def res_iff dest!: cgaputc_uart split: if_splits)
  with Cons.IH [OF u(2)] show ?case by simp
qed

text \<open>
  C37: Unless the kernel has panicked, \<open>printint\<close> in base 10 with a sign returns, changes nothing
  but the console devices, and sends the serial port the decimal numeral of its \<open>int\<close> argument
  (the least one included): digits only, at least one, no leading zero, preceded by a minus sign
  exactly when the argument is negative. With its sign it fits the 16 bytes of \<open>buf\<close>.
\<close>

theorem printint_decimal:
  assumes "\<not> panicked s" and "condev_ok (con s)" and "uart (con s)"
  shows "\<exists>d ds. printint xx 10 True s = Inr (s\<lparr>con := d\<rparr>) \<and> condev_ok d \<and>
    uart_out d = uart_out (con s) @ ds \<and> decimal_numeral ds \<and> of_decimal ds = sint xx \<and>
    (hd ds = 45 \<longleftrightarrow> sint xx < 0) \<and> length ds \<le> 12"
proof -
  let ?b = "rev (printint_buf xx 10 True)"
  obtain d where d: "printint xx 10 True s = Inr (s\<lparr>con := d\<rparr>)" "condev_ok d"
    using printint_ok [OF assms(1,2), of xx 10 True] by (auto simp: con_step_def)
  then have "uart_out d = uart_out (con s) @ ?b"
    using consputs_uart [of ?b s "s\<lparr>con := d\<rparr>"] assms(3) by (simp add: printint_def)
  moreover have "length (print_digits 10 (unat x)) \<le> 11" for x :: uint
    using unsigned_less [of x] by (intro print_digits_length) simp_all
  from this [of xx] this [of "- xx"] have "length ?b \<le> 12"
    by (simp add: printint_buf_def Let_def)
  moreover have "hd ?b = 45 \<longleftrightarrow> sint xx < 0" by (rule printint_buf_sign)
  ultimately show ?thesis using d printint_buf_decimal by blast
qed

definition boot_con :: condev where
  "boot_con = \<lparr>uart = True, uart_out = [], crt = (\<lambda>_. 0), crt_pos = 0\<rparr>"

definition boot_console :: console where
  "boot_console = machine.extend boot_machine
     \<lparr>panicked = False, cons_locking = True, con = boot_con\<rparr>"

lemma boot_console_simps [simp]:
  "\<not> panicked boot_console" "cons_locking boot_console" "con boot_console = boot_con"
  by (simp_all add: boot_console_def machine.defs boot_machine_def)

theorem printint_decimal_witness:
  "\<exists>d ds. printint (- 1024) 10 True boot_console = Inr (boot_console\<lparr>con := d\<rparr>) \<and>
    uart_out d = ds \<and> decimal_numeral ds \<and> of_decimal ds = - 1024 \<and> hd ds = 45"
proof -
  have "sint (- 1024 :: uint) = - 1024" by simp
  then show ?thesis
    using printint_decimal [of boot_console "- 1024"]
    by (auto simp: boot_con_def condev_ok_def)
qed

section \<open>What locking and printing may change\<close>

text \<open>
  \<open>quiet s t\<close>: of the whole kernel state only CPUs, locks and console devices differ. Whatever
  the state, the primitives are quiet.
\<close>

definition quiet :: "'a console_scheme \<Rightarrow> 'a console_scheme \<Rightarrow> bool" where
  "quiet s t \<longleftrightarrow> t = s\<lparr>cpus := cpus t, locks := locks t, con := con t\<rparr>"

named_theorems quiet_intros \<open>routines that change CPUs, locks and devices only\<close>

lemma quietI: "t = s\<lparr>cpus := C, locks := K, con := d\<rparr> \<Longrightarrow> quiet s t"
  by (simp add: quiet_def)

lemma quietE: "quiet s t \<Longrightarrow> (\<And>C K d. t = s\<lparr>cpus := C, locks := K, con := d\<rparr> \<Longrightarrow> P) \<Longrightarrow> P"
  by (auto simp: quiet_def)

lemma quiet_refl [quiet_intros]: "quiet s s"
  by (simp add: quiet_def)

lemma quiet_trans: "quiet s t \<Longrightarrow> quiet t u \<Longrightarrow> quiet s u"
  by (elim quietE, rule quietI) simp

lemma quiet_upd_cpu [quiet_intros]: "quiet s (upd_cpu i f s)"
  by (simp add: quiet_def upd_cpu_def)

lemma quiet_con [quiet_intros]: "quiet s (s\<lparr>con := d\<rparr>)"
  by (simp add: quiet_def)

lemma quiet_pushcli [quiet_intros]: "pushcli s = Inr t \<Longrightarrow> quiet s t"
  by (drule pushcli_frame) (auto simp: quiet_def)

lemma quiet_popcli [quiet_intros]: "popcli s = Inr t \<Longrightarrow> quiet s t"
  by (drule popcli_frame) (auto simp: quiet_def)

lemma quiet_holding [quiet_intros]: "holding L s = Inr (h, t) \<Longrightarrow> quiet s t"
  by (drule holding_frame) (auto simp: quiet_def)

lemma quiet_locks: "t = s\<lparr>cpus := cpus t, locks := locks t\<rparr> \<Longrightarrow> quiet s t"
  by (cases s, cases t) (simp add: quiet_def)

lemma quiet_acquire [quiet_intros]: "acquire L s = Inr t \<Longrightarrow> quiet s t"
  by (rule quiet_locks) (rule acquire_frame)

lemma quiet_release [quiet_intros]: "release L s = Inr t \<Longrightarrow> quiet s t"
  by (rule quiet_locks) (rule release_frame)

lemma quiet_consputc [quiet_intros]: "consputc c s = Inr t \<Longrightarrow> quiet s t"
  by (auto simp: consputc_def Let_def res_iff quiet_con split: if_splits)

text \<open>The same for results, so that a routine is quiet when its parts are.\<close>

definition quiets :: "'a console_scheme \<Rightarrow> 'a console_scheme res \<Rightarrow> bool" where
  "quiets s m \<longleftrightarrow> (\<forall>t. m = Inr t \<longrightarrow> quiet s t)"

lemma quiets_Inl [simp]: "quiets s (Inl e)"
  by (simp add: quiets_def)

lemma quiets_Inr [simp]: "quiets s (Inr t) = quiet s t"
  by (simp add: quiets_def)

lemma quiets_bnd: "quiets s m \<Longrightarrow> (\<And>t. m = Inr t \<Longrightarrow> quiets t (f t)) \<Longrightarrow> quiets s (bnd m f)"
  by (cases m) (auto simp: quiets_def intro: quiet_trans)

lemma quietsD: "quiets s m \<Longrightarrow> m = Inr t \<Longrightarrow> quiet s t"
  by (simp add: quiets_def)

lemma quiets_consputc: "quiets s (consputc c s)"
  by (simp add: quiets_def quiet_consputc)

lemma quiets_consputs: "quiets s (consputs cs s)"
  by (induction cs arbitrary: s) (auto intro!: quiets_bnd quiets_consputc simp: quiet_refl)

lemma quiets_printint: "quiets s (printint x b sg s)"
  by (simp add: printint_def quiets_consputs)

lemmas quiets_put = quiets_bnd quiets_consputc quiets_consputs quiets_printint

lemma quiets_cprintf_loop: "quiets s (cprintf_loop fmt args s)"
proof (induction fmt args s rule: cprintf_loop.induct)
  case (1 args s)
  then show ?case by (simp add: quiet_refl)
next
  case (2 c args s)
  then show ?case by (simp add: quiet_refl quiets_consputc)
next
  case (3 c d fmt args s)
  consider "c \<noteq> 37" | "c = 37" "d = 100" | "c = 37" "d = 120 \<or> d = 112" | "c = 37" "d = 115"
    | "c = 37" "d = 37" | "c = 37" "d \<noteq> 100" "d \<noteq> 120" "d \<noteq> 112" "d \<noteq> 115" "d \<noteq> 37"
    by blast
  then show ?case
  proof cases
    case 1
    then show ?thesis by (simp add: quiets_put "3.IH"(1))
  next
    case 2
    then show ?thesis by (simp add: quiets_put "3.IH"(2) split: list.split carg.split)
  next
    case 3
    then have "d \<noteq> 100" by auto
    with 3 show ?thesis by (simp add: quiets_put "3.IH"(3) split: list.split carg.split)
  next
    case 4
    then show ?thesis by (simp add: quiets_put "3.IH"(4) split: list.split carg.split)
  next
    case 5
    then show ?thesis by (simp add: quiets_put "3.IH"(5))
  next
    case 6
    then show ?thesis by (simp add: quiets_put "3.IH"(6))
  qed
qed

lemma quiets_acquire: "quiets s (acquire L s)"
  by (simp add: quiets_def quiet_acquire)

lemma quiets_release: "quiets s (release L s)"
  by (simp add: quiets_def quiet_release)

lemma quiets_cprintf: "quiets s (cprintf fmt args s)"
  by (auto simp: cprintf_def Let_def quiet_refl
      intro!: quiets_bnd quiets_acquire quiets_release quiets_cprintf_loop)

lemma quiet_cprintf [quiet_intros]: "cprintf fmt args s = Inr t \<Longrightarrow> quiet s t"
  by (rule quietsD [OF quiets_cprintf])

lemma quiet_mem: "quiet s t \<Longrightarrow> mem t = mem s"
  by (auto elim: quietE)

lemma quiet_this_cpu: "quiet s t \<Longrightarrow> this_cpu t = this_cpu s"
  by (auto elim: quietE)

end
