(* ===== verification/Kalloc.thy ===== *)
theory Kalloc
  imports Console
begin

text \<open>
  The physical page allocator \<open>kalloc.c\<close>. The free list is threaded through the free pages
  themselves, so it is a linked list in byte memory. \<open>kend\<close> is the linker symbol \<open>end\<close>. The
  allocator refines a list of free pages: the locale \<open>page_allocator\<close> is the contract its
  clients use.
\<close>

section \<open>The code\<close>

record kmem = console +
  kmem_use_lock :: bool
  kmem_freelist :: uint
  kend :: uint

definition kmem_lock :: "'a kmem_scheme \<Rightarrow> 'a kmem_scheme res" where
  "kmem_lock s = (if kmem_use_lock s then acquire L_kmem s else Inr s)"

definition kmem_unlock :: "'a kmem_scheme \<Rightarrow> 'a kmem_scheme res" where
  "kmem_unlock s = (if kmem_use_lock s then release L_kmem s else Inr s)"

definition kfree :: "uint \<Rightarrow> 'a kmem_scheme \<Rightarrow> 'a kmem_scheme res" where
  "kfree v s =
     bnd (panic_if (v mod PGSIZE \<noteq> 0 \<or> v < kend s \<or> V2P v \<ge> PHYSTOP) ''kfree'') (\<lambda>_.
       let s = s\<lparr>mem := memset v 1 PGSIZE (mem s)\<rparr>
       in bnd (kmem_lock s) (\<lambda>s.
            let s = s\<lparr>mem := store32 (mem s) v (kmem_freelist s)\<rparr>; s = s\<lparr>kmem_freelist := v\<rparr>
            in kmem_unlock s))"

definition kalloc :: "'a kmem_scheme \<Rightarrow> (uint \<times> 'a kmem_scheme) res" where
  "kalloc s =
     bnd (kmem_lock s) (\<lambda>s.
       let r = kmem_freelist s;
           s = (if r \<noteq> 0 then s\<lparr>kmem_freelist := load32 (mem s) r\<rparr> else s)
       in bnd (kmem_unlock s) (\<lambda>s. Inr (r, s)))"

lemma kfree_guard: "kfree v s = Inr t \<Longrightarrow> V2P v < PHYSTOP"
  by (auto simp: kfree_def res_iff)

lemma page_no_wrap: "V2P v < PHYSTOP \<Longrightarrow> unat (v + PGSIZE) = unat v + 4096"
  by (simp add: V2P_def word_less_nat_alt unat_sub_if' unat_word_ariths split: if_splits)

function freerange_loop :: "uint \<Rightarrow> uint \<Rightarrow> 'a kmem_scheme \<Rightarrow> 'a kmem_scheme res" where
  "freerange_loop p vend s =
     (if p + PGSIZE \<le> vend then bnd (kfree p s) (\<lambda>s. freerange_loop (p + PGSIZE) vend s)
      else Inr s)"
  by pat_completeness auto
termination
proof (relation "measure (\<lambda>(p, vend, s). 2 ^ 32 - unat p)")
  fix p vend :: uint and s t :: "'a kmem_scheme"
  assume "kfree p s = Inr t"
  then have "unat (p + PGSIZE) = unat p + 4096" by (simp add: kfree_guard page_no_wrap)
  moreover have "unat (p + PGSIZE) < 2 ^ 32" using unsigned_less [of "p + PGSIZE"] by simp
  ultimately show "((p + PGSIZE, vend, t), p, vend, s) \<in> measure (\<lambda>(p, vend, s). 2 ^ 32 - unat p)"
    by simp
qed simp

declare freerange_loop.simps [simp del]

definition freerange :: "uint \<Rightarrow> uint \<Rightarrow> 'a kmem_scheme \<Rightarrow> 'a kmem_scheme res" where
  "freerange vstart vend s = freerange_loop (PGROUNDUP vstart) vend s"

definition kinit1 :: "uint \<Rightarrow> uint \<Rightarrow> 'a kmem_scheme \<Rightarrow> 'a kmem_scheme res" where
  "kinit1 vstart vend s = freerange vstart vend ((initlock L_kmem ''kmem'' s)\<lparr>kmem_use_lock := False\<rparr>)"

definition kinit2 :: "uint \<Rightarrow> uint \<Rightarrow> 'a kmem_scheme \<Rightarrow> 'a kmem_scheme res" where
  "kinit2 vstart vend s = bnd (freerange vstart vend s) (\<lambda>s. Inr (s\<lparr>kmem_use_lock := True\<rparr>))"

section \<open>Closed forms\<close>

text \<open>The state after a balanced use of the allocator's lock, if it uses one.\<close>

definition kmem_ready :: "'a kmem_scheme \<Rightarrow> bool" where
  "kmem_ready s \<longleftrightarrow> (kmem_use_lock s \<longrightarrow> cpu_ok s \<and> free_lock L_kmem s)"

definition ksync :: "'a kmem_scheme \<Rightarrow> 'a kmem_scheme" where
  "ksync s = (if kmem_use_lock s then synced s else s)"

lemma kmem_upd_cpu [simp]:
  "panicked (upd_cpu i f s) = panicked s" "cons_locking (upd_cpu i f s) = cons_locking s"
  "con (upd_cpu i f s) = con s"
  "kmem_use_lock (upd_cpu i f t) = kmem_use_lock t"
  "kmem_freelist (upd_cpu i f t) = kmem_freelist t" "kend (upd_cpu i f t) = kend t"
  by (simp_all add: upd_cpu_def)

lemma kmem_acquired [simp]:
  "panicked (acquired L s) = panicked s" "cons_locking (acquired L s) = cons_locking s"
  "con (acquired L s) = con s"
  "kmem_use_lock (acquired L t) = kmem_use_lock t"
  "kmem_freelist (acquired L t) = kmem_freelist t" "kend (acquired L t) = kend t"
  by (simp_all add: acquired_def)

lemma ksync_simps [simp]:
  "mem (ksync s) = mem s" "kmem_use_lock (ksync s) = kmem_use_lock s"
  "kmem_freelist (ksync s) = kmem_freelist s" "kend (ksync s) = kend s" "locks (ksync s) = locks s"
  "this_cpu (ksync s) = this_cpu s" "ncpu (ksync s) = ncpu s" "lapic_id (ksync s) = lapic_id s"
  by (simp_all add: ksync_def)

lemma cpu_ok_ksync [simp]: "cpu_ok (ksync s) = cpu_ok s"
  by (simp add: ksync_def)

lemma kmem_section:
  assumes "kmem_ready s"
    and "\<And>t. f t = t\<lparr>mem := g (mem t) (kmem_freelist t), kmem_freelist := h (mem t) (kmem_freelist t)\<rparr>"
  shows "bnd (kmem_lock s) (\<lambda>s. kmem_unlock (f s)) =
    Inr ((ksync s)\<lparr>mem := g (mem s) (kmem_freelist s), kmem_freelist := h (mem s) (kmem_freelist s)\<rparr>)"
proof (cases "kmem_use_lock s")
  case True
  with assms(1) have s: "cpu_ok s" "free_lock L_kmem s" by (simp_all add: kmem_ready_def)
  have "release L_kmem (f (acquired L_kmem s)) = Inr ((f (acquired L_kmem s))
      \<lparr>cpus := (cpus s)(this_cpu s := sync_cpu (cur s)), locks := locks s\<rparr>)"
    by (rule crit_exit [OF s]) (simp_all add: assms(2))
  with True show ?thesis
    by (simp add: kmem_lock_def kmem_unlock_def acquire_eq [OF s] assms(2) ksync_def)
      (simp add: acquired_def upd_cpu_def)
next
  case False
  then show ?thesis by (simp add: kmem_lock_def kmem_unlock_def ksync_def assms(2))
qed

definition page_aligned :: "uint \<Rightarrow> bool" where
  "page_aligned a \<longleftrightarrow> a mod PGSIZE = 0"

lemma page_aligned_iff: "page_aligned a \<longleftrightarrow> unat a mod 4096 = 0"
proof -
  have "page_aligned a \<longleftrightarrow> unat (a mod PGSIZE) = 0"
    by (simp only: page_aligned_def word_unat_eq_iff unat_0)
  then show ?thesis by (simp add: unat_mod)
qed

definition page_ok :: "uint \<Rightarrow> uint \<Rightarrow> bool" where
  "page_ok e v \<longleftrightarrow> page_aligned v \<and> e \<le> v \<and> V2P v < PHYSTOP"

lemma kfree_bad: "\<not> page_ok (kend s) v \<Longrightarrow> kfree v s = Inl (Panic ''kfree'')"
  by (auto simp: kfree_def page_ok_def page_aligned_def not_le not_less)

lemma kfree_eq:
  assumes "kmem_ready s" and "page_ok (kend s) v"
  shows "kfree v s =
    Inr ((ksync s)\<lparr>mem := store32 (memset v 1 PGSIZE (mem s)) v (kmem_freelist s), kmem_freelist := v\<rparr>)"
proof -
  let ?s = "s\<lparr>mem := memset v 1 PGSIZE (mem s)\<rparr>"
  have "kmem_ready ?s"
    using assms(1) cpu_ok_cong [of ?s s] by (simp add: kmem_ready_def)
  from kmem_section [OF this, where g = "\<lambda>m r. store32 m v r" and h = "\<lambda>m r. v"
      and f = "\<lambda>s. s\<lparr>mem := store32 (mem s) v (kmem_freelist s), kmem_freelist := v\<rparr>"]
  have "bnd (kmem_lock ?s) (\<lambda>s. kmem_unlock (s\<lparr>mem := store32 (mem s) v (kmem_freelist s), kmem_freelist := v\<rparr>)) =
      Inr ((ksync ?s)\<lparr>mem := store32 (memset v 1 PGSIZE (mem s)) v (kmem_freelist s), kmem_freelist := v\<rparr>)"
    by simp
  moreover have "(v mod PGSIZE \<noteq> 0 \<or> v < kend s \<or> V2P v \<ge> PHYSTOP) = False"
    using assms(2) by (auto simp: page_ok_def page_aligned_def)
  ultimately show ?thesis
    by (simp only: kfree_def panic_if_simps bnd.simps Let_def) (simp add: ksync_def upd_cpu_def)
qed

lemma kalloc_eq:
  assumes "kmem_ready s"
  shows "kalloc s = Inr (kmem_freelist s, (ksync s)\<lparr>kmem_freelist :=
    (if kmem_freelist s \<noteq> 0 then load32 (mem s) (kmem_freelist s) else kmem_freelist s)\<rparr>)"
proof -
  let ?f = "\<lambda>s. if kmem_freelist s \<noteq> 0 then s\<lparr>kmem_freelist := load32 (mem s) (kmem_freelist s)\<rparr> else s"
  have id: "t\<lparr>mem := mem s\<rparr> = t" if "mem t = mem s" for t :: "'a kmem_scheme"
    using that by simp
  have "bnd (kmem_lock s) (\<lambda>s. kmem_unlock (?f s)) = Inr ((ksync s)\<lparr>kmem_freelist :=
      (if kmem_freelist s \<noteq> 0 then load32 (mem s) (kmem_freelist s) else kmem_freelist s)\<rparr>)"
    using kmem_section [OF assms, where f = ?f and g = "\<lambda>m r. m"
        and h = "\<lambda>m r. if r \<noteq> 0 then load32 m r else r"]
    by (simp add: id)
  then obtain t where t: "kmem_lock s = Inr t"
      "kmem_unlock (?f t) = Inr ((ksync s)\<lparr>kmem_freelist :=
      (if kmem_freelist s \<noteq> 0 then load32 (mem s) (kmem_freelist s) else kmem_freelist s)\<rparr>)"
    by (auto simp: res_iff)
  from t(1) assms have "kmem_freelist t = kmem_freelist s"
    by (auto simp: kmem_lock_def kmem_ready_def acquire_eq split: if_splits)
  with t show ?thesis by (simp add: kalloc_def Let_def)
qed

section \<open>The free list as a list of pages\<close>

fun free_list :: "mem \<Rightarrow> uint \<Rightarrow> uint list \<Rightarrow> bool" where
  "free_list m p [] = (p = 0)"
| "free_list m p (x # xs) = (p = x \<and> x \<noteq> 0 \<and> free_list m (load32 m x) xs)"

definition free_pages :: "'a kmem_scheme \<Rightarrow> uint list \<Rightarrow> bool" where
  "free_pages s ps \<longleftrightarrow> kmem_ready s \<and> free_list (mem s) (kmem_freelist s) ps \<and> distinct ps \<and>
     (\<forall>p\<in>set ps. page_ok (kend s) p)"

text \<open>The bytes of the page at \<open>p\<close>.\<close>

definition page_bytes :: "uint \<Rightarrow> uint set" where
  "page_bytes p = {a. unat (a - p) < 4096}"

lemma page_ok_nonzero: "page_ok e p \<Longrightarrow> p \<noteq> 0"
  by (auto simp: page_ok_def V2P_def)

lemma unat_page: "page_aligned p \<Longrightarrow> \<exists>i. unat p = 4096 * i \<and> i < 2 ^ 20"
proof -
  assume "page_aligned p"
  then obtain i where "unat p = 4096 * i" by (auto simp: page_aligned_iff)
  moreover have "unat p < 2 ^ 32" using unsigned_less [of p] by simp
  ultimately show ?thesis by auto
qed

lemma pages_apart:
  assumes "page_aligned p" and "page_aligned q" and "p \<noteq> q" and "unat k < 4096"
  shows "4096 \<le> unat (q + k - p)"
proof -
  obtain i j where ij: "unat p = 4096 * i" "unat q = 4096 * j" "i < 2 ^ 20" "j < 2 ^ 20"
    using unat_page assms(1,2) by meson
  have qk: "unat (q + k) = 4096 * j + unat k" using ij assms(4) by (simp add: unat_word_ariths)
  have "i \<noteq> j" using ij assms(3) by (auto simp: word_unat_eq_iff)
  then consider "i < j" | "j < i" by linarith
  then show ?thesis
    by cases (use ij qk assms(4) in \<open>simp_all add: unat_sub_if'\<close>)
qed

lemma free_list_frame:
  "free_list m p xs \<Longrightarrow> (\<And>x k. x \<in> set xs \<Longrightarrow> unat k < 4 \<Longrightarrow> m' (x + k) = m (x + k)) \<Longrightarrow>
   free_list m' p xs"
proof (induction xs arbitrary: p)
  case Nil
  then show ?case by simp
next
  case (Cons x xs)
  then have "load32 m' x = load32 m x" by (intro load32_cong) simp
  with Cons show ?case by simp
qed

lemma kfree_mem:
  assumes "page_aligned v" and "a \<notin> page_bytes v"
  shows "store32 (memset v 1 PGSIZE m) v r a = m a"
  using assms(2) by (simp add: page_bytes_def store32_outside memset_apply)

lemma page_bytes_apart:
  "page_aligned p \<Longrightarrow> page_aligned q \<Longrightarrow> p \<noteq> q \<Longrightarrow> unat k < 4096 \<Longrightarrow> q + k \<notin> page_bytes p"
  using pages_apart [of p q k] by (simp add: page_bytes_def)

lemma kmem_ready_ksync:
  "kmem_ready s \<Longrightarrow> kmem_ready ((ksync s)\<lparr>mem := m, kmem_freelist := r\<rparr>)"
  using cpu_ok_cong [of "(ksync s)\<lparr>mem := m, kmem_freelist := r\<rparr>" "ksync s"]
  by (simp add: kmem_ready_def)

lemma kmem_ready_ksync': "kmem_ready s \<Longrightarrow> kmem_ready ((ksync s)\<lparr>kmem_freelist := r\<rparr>)"
  using cpu_ok_cong [of "(ksync s)\<lparr>kmem_freelist := r\<rparr>" "ksync s"]
  by (simp add: kmem_ready_def)

lemma kalloc_pages:
  assumes "free_pages s ps"
  shows "\<exists>r. kalloc s = Inr (case ps of [] \<Rightarrow> 0 | p # _ \<Rightarrow> p, (ksync s)\<lparr>kmem_freelist := r\<rparr>) \<and>
    free_pages ((ksync s)\<lparr>kmem_freelist := r\<rparr>) (tl ps)"
  using assms
  by (cases ps) (auto simp: free_pages_def kalloc_eq kmem_ready_ksync')

lemma kfree_pages:
  assumes "free_pages s ps" and "page_ok (kend s) p" and "p \<notin> set ps"
  shows "\<exists>m. kfree p s = Inr ((ksync s)\<lparr>mem := m, kmem_freelist := p\<rparr>) \<and>
    free_pages ((ksync s)\<lparr>mem := m, kmem_freelist := p\<rparr>) (p # ps) \<and>
    (\<forall>a. a \<notin> page_bytes p \<longrightarrow> m a = mem s a)"
proof (intro exI conjI allI impI)
  let ?m = "store32 (memset p 1 PGSIZE (mem s)) p (kmem_freelist s)"
  have s: "kmem_ready s" "free_list (mem s) (kmem_freelist s) ps" "distinct ps"
      "\<forall>q\<in>set ps. page_ok (kend s) q"
    using assms(1) by (simp_all add: free_pages_def)
  show "kfree p s = Inr ((ksync s)\<lparr>mem := ?m, kmem_freelist := p\<rparr>)"
    by (rule kfree_eq [OF s(1) assms(2)])
  show out: "?m a = mem s a" if "a \<notin> page_bytes p" for a
    using that assms(2) by (intro kfree_mem) (simp_all add: page_ok_def)
  have "free_list ?m (kmem_freelist s) ps"
    using s(2)
  proof (rule free_list_frame)
    fix x and k :: uint assume "x \<in> set ps" "unat k < 4"
    with s(4) assms(2,3) have "x + k \<notin> page_bytes p"
      by (intro page_bytes_apart) (auto simp: page_ok_def)
    then show "?m (x + k) = mem s (x + k)" by (rule out)
  qed
  with s assms page_ok_nonzero [OF assms(2)]
  show "free_pages ((ksync s)\<lparr>mem := ?m, kmem_freelist := p\<rparr>) (p # ps)"
    by (simp add: free_pages_def kmem_ready_ksync)
qed

text \<open>
  The contract of the allocator for its clients: a stack of pages, none of them twice, from which
  an allocation takes the top and onto which freeing puts a page.
\<close>

locale page_allocator =
  fixes alloc :: "'s \<Rightarrow> (uint \<times> 's) res" and free :: "uint \<Rightarrow> 's \<Rightarrow> 's res"
    and pages :: "'s \<Rightarrow> uint list \<Rightarrow> bool" and page :: "'s \<Rightarrow> uint \<Rightarrow> bool"
  assumes alloc_law: "pages s ps \<Longrightarrow>
      \<exists>t. alloc s = Inr (case ps of [] \<Rightarrow> 0 | p # _ \<Rightarrow> p, t) \<and> pages t (tl ps) \<and> page t = page s"
    and free_law: "pages s ps \<Longrightarrow> page s p \<Longrightarrow> p \<notin> set ps \<Longrightarrow>
      \<exists>t. free p s = Inr t \<and> pages t (p # ps) \<and> page t = page s"
    and pages_law: "pages s ps \<Longrightarrow> distinct ps \<and> (\<forall>p\<in>set ps. page s p \<and> p \<noteq> 0)"
begin

text \<open>The pages a client owns are those it was given and has not freed.\<close>

definition owns :: "'s \<Rightarrow> uint set \<Rightarrow> bool" where
  "owns s out \<longleftrightarrow> (\<exists>ps. pages s ps \<and> set ps \<inter> out = {} \<and> (\<forall>p\<in>out. page s p))"

lemma owns_alloc:
  assumes "owns s out"
  shows "\<exists>p t. alloc s = Inr (p, t) \<and> p \<notin> out - {0} \<and> owns t (if p = 0 then out else insert p out)"
proof -
  obtain ps where ps: "pages s ps" "set ps \<inter> out = {}" "\<forall>p\<in>out. page s p"
    using assms by (auto simp: owns_def)
  note law = alloc_law [OF ps(1)] and dist = pages_law [OF ps(1)]
  show ?thesis
  proof (cases ps)
    case Nil
    with law obtain t where "alloc s = Inr (0, t)" "pages t []" "page t = page s" by auto
    with ps Nil show ?thesis by (auto simp: owns_def)
  next
    case (Cons p qs)
    with law obtain t where t: "alloc s = Inr (p, t)" "pages t qs" "page t = page s" by auto
    have "owns t (insert p out)"
      unfolding owns_def using ps dist Cons t by (intro exI [of _ qs]) auto
    with t(1) ps(2) dist Cons show ?thesis by auto
  qed
qed

lemma owns_free:
  assumes "owns s out" and "p \<in> out"
  shows "\<exists>t. free p s = Inr t \<and> owns t (out - {p})"
proof -
  obtain ps where ps: "pages s ps" "set ps \<inter> out = {}" "\<forall>p\<in>out. page s p"
    using assms(1) by (auto simp: owns_def)
  then obtain t where "free p s = Inr t" "pages t (p # ps)" "page t = page s"
    using free_law [of s ps p] assms(2) by auto
  with ps show ?thesis by (auto simp: owns_def intro!: exI [of _ "p # ps"])
qed

end

interpretation pg: page_allocator kalloc kfree free_pages "\<lambda>s. page_ok (kend s)"
proof
  fix s :: "'a kmem_scheme" and ps
  assume s: "free_pages s ps"
  show "\<exists>t. kalloc s = Inr (case ps of [] \<Rightarrow> 0 | p # _ \<Rightarrow> p, t) \<and> free_pages t (tl ps) \<and>
      page_ok (kend t) = page_ok (kend s)"
    using kalloc_pages [OF s] by auto
  show "distinct ps \<and> (\<forall>p\<in>set ps. page_ok (kend s) p \<and> p \<noteq> 0)"
    using s by (auto simp: free_pages_def dest: page_ok_nonzero)
next
  fix s :: "'a kmem_scheme" and ps p
  assume "free_pages s ps" "page_ok (kend s) p" "p \<notin> set ps"
  from kfree_pages [OF this] show "\<exists>t. kfree p s = Inr t \<and> free_pages t (p # ps) \<and>
      page_ok (kend t) = page_ok (kend s)"
    by auto
qed

section \<open>Histories of the allocator\<close>

text \<open>
  The states that any sequence of \<open>kalloc\<close> and of \<open>kfree\<close> of a page handed out reaches, with
  the set of pages handed out. Callers may write to the pages they own.
\<close>

inductive kmem_hist :: "'a kmem_scheme \<Rightarrow> uint set \<Rightarrow> bool" where
  start: "free_pages s ps \<Longrightarrow> kmem_hist s {}"
| alloc: "kmem_hist s out \<Longrightarrow> kalloc s = Inr (p, t) \<Longrightarrow> p \<noteq> 0 \<Longrightarrow> kmem_hist t (insert p out)"
| free: "kmem_hist s out \<Longrightarrow> p \<in> out \<Longrightarrow> kfree p s = Inr t \<Longrightarrow> kmem_hist t (out - {p})"
| use: "kmem_hist s out \<Longrightarrow> \<forall>a. m a \<noteq> mem s a \<longrightarrow> (\<exists>p\<in>out. a \<in> page_bytes p) \<Longrightarrow>
    kmem_hist (s\<lparr>mem := m\<rparr>) out"

lemma free_pages_use:
  assumes "free_pages s ps" and "set ps \<inter> out = {}" and "\<forall>p\<in>out. page_ok (kend s) p"
    and "\<forall>a. m a \<noteq> mem s a \<longrightarrow> (\<exists>p\<in>out. a \<in> page_bytes p)"
  shows "free_pages (s\<lparr>mem := m\<rparr>) ps"
proof -
  have s: "kmem_ready s" "free_list (mem s) (kmem_freelist s) ps" "distinct ps"
      "\<forall>q\<in>set ps. page_ok (kend s) q"
    using assms(1) by (simp_all add: free_pages_def)
  have "free_list m (kmem_freelist s) ps"
    using s(2)
  proof (rule free_list_frame)
    fix x and k :: uint assume xk: "x \<in> set ps" "unat k < 4"
    have "x + k \<notin> page_bytes p" if "p \<in> out" for p
      using that xk s(4) assms(2,3) by (intro page_bytes_apart) (auto simp: page_ok_def)
    then show "m (x + k) = mem s (x + k)" using assms(4) by blast
  qed
  moreover have "kmem_ready (s\<lparr>mem := m\<rparr>)"
    using s(1) cpu_ok_cong [of "s\<lparr>mem := m\<rparr>" s] by (simp add: kmem_ready_def)
  ultimately show ?thesis using s by (simp add: free_pages_def)
qed

lemma kmem_hist_owns: "kmem_hist s out \<Longrightarrow> pg.owns s out"
proof (induction rule: kmem_hist.induct)
  case (start s ps)
  then show ?case by (auto simp: pg.owns_def)
next
  case (alloc s out p t)
  with pg.owns_alloc [OF alloc.IH] show ?case by auto
next
  case (free s out p t)
  with pg.owns_free [OF free.IH free.hyps(2)] show ?case by auto
next
  case (use s out m)
  then obtain ps where ps: "free_pages s ps" "set ps \<inter> out = {}" "\<forall>p\<in>out. page_ok (kend s) p"
    by (auto simp: pg.owns_def)
  from free_pages_use [OF this use.hyps(2)] ps show ?case by (auto simp: pg.owns_def)
qed

text \<open>
  C9: In every history of allocations, frees of pages handed out, and writes of the owners to
  their pages, \<open>kalloc\<close> returns; it never hands out a page that is still out (a null pointer
  means that no page is left), and freeing a page that is out returns without a panic.
\<close>

theorem kalloc_fresh:
  assumes "kmem_hist s out"
  shows "(\<exists>p t. kalloc s = Inr (p, t) \<and> (p \<noteq> 0 \<longrightarrow> p \<notin> out \<and> page_ok (kend s) p)) \<and>
    (\<forall>p\<in>out. \<exists>t. kfree p s = Inr t)"
proof -
  have o: "pg.owns s out" using assms by (rule kmem_hist_owns)
  then obtain ps where ps: "free_pages s ps" "set ps \<inter> out = {}" by (auto simp: pg.owns_def)
  from kalloc_pages [OF ps(1)]
  obtain r where "kalloc s = Inr (case ps of [] \<Rightarrow> 0 | p # _ \<Rightarrow> p, (ksync s)\<lparr>kmem_freelist := r\<rparr>)"
    by blast
  then have "\<exists>p t. kalloc s = Inr (p, t) \<and> (p \<noteq> 0 \<longrightarrow> p \<notin> out \<and> page_ok (kend s) p)"
    using ps pg.pages_law [OF ps(1)] by (cases ps) auto
  moreover have "\<forall>p\<in>out. \<exists>t. kfree p s = Inr t" using pg.owns_free [OF o] by blast
  ultimately show ?thesis by blast
qed

section \<open>Initialisation\<close>

text \<open>The pages of \<open>[p, p + n * PGSIZE)\<close>.\<close>

definition page_run :: "uint \<Rightarrow> nat \<Rightarrow> uint list" where
  "page_run p n = map (\<lambda>i. p + of_nat i * PGSIZE) [0..<n]"

lemma page_run_Suc: "page_run p (Suc n) = p # page_run (p + PGSIZE) n"
  by (simp add: page_run_def map_upt_Suc algebra_simps del: upt_Suc)

lemma page_run_0 [simp]: "page_run p 0 = []"
  by (simp add: page_run_def)

lemma page_run_distinct_head:
  assumes "n < 2 ^ 20"
  shows "p \<notin> set (page_run (p + PGSIZE) n)"
proof
  assume "p \<in> set (page_run (p + PGSIZE) n)"
  then obtain i where "i < n" "p = p + PGSIZE + of_nat i * PGSIZE" by (auto simp: page_run_def)
  then have "(4096 * of_nat (Suc i) :: uint) = 0" by (simp add: algebra_simps)
  then have "unat (of_nat (4096 * Suc i) :: uint) = 0" by simp
  with \<open>i < n\<close> assms show False by (simp only: unat_of_nat) simp
qed

lemma page_next:
  assumes "unat p \<le> 0x8F000000"
  shows "unat (p + PGSIZE) = unat p + 4096"
  using assms by (simp add: unat_word_ariths)

lemma page_aligned_next:
  assumes "page_aligned p" and "unat p \<le> 0x8F000000"
  shows "page_aligned (p + PGSIZE)"
proof -
  obtain i where "unat p = 4096 * i" using unat_page [OF assms(1)] by blast
  then show ?thesis by (simp add: page_aligned_iff page_next [OF assms(2)])
qed

lemma freerange_loop_pages:
  assumes "free_pages s ps" and "page_aligned p" and "kend s \<le> p" and "0x80000000 \<le> unat p"
    and "unat p \<le> 0x8F000000" and "unat vend \<le> 0x8E000000"
    and "n = (unat vend - unat p) div 4096" and "set (page_run p n) \<inter> set ps = {}"
  shows "\<exists>t. freerange_loop p vend s = Inr t \<and> free_pages t (rev (page_run p n) @ ps) \<and>
    (\<not> kmem_use_lock s \<longrightarrow> (\<exists>m r. t = s\<lparr>mem := m, kmem_freelist := r\<rparr>))"
  using assms
proof (induction n arbitrary: p s ps)
  case 0
  then have "\<not> p + PGSIZE \<le> vend"
    by (auto simp: word_le_nat_alt page_next div_eq_0_iff)
  moreover have "\<exists>m r. s = s\<lparr>mem := m, kmem_freelist := r\<rparr>"
    by (intro exI [of _ "mem s"] exI [of _ "kmem_freelist s"]) simp
  ultimately show ?case using "0.prems"(1) by (subst freerange_loop.simps) simp
next
  case (Suc n)
  have "4096 \<le> unat vend - unat p" using Suc.prems(7) by (metis div_less not_less_iff_gr_or_eq nat.simps(3) not_le)
  then have le: "unat p + 4096 \<le> unat vend" by simp
  have nx: "unat (p + PGSIZE) = unat p + 4096" using Suc.prems(5) by (rule page_next)
  have n: "n = (unat vend - unat (p + PGSIZE)) div 4096"
    using Suc.prems(7) le by (simp add: nx diff_diff_left [symmetric] le_div_geq del: diff_diff_left)
  have "n < 2 ^ 20" using n Suc.prems(6) by simp
  then have fresh: "p \<notin> set (page_run (p + PGSIZE) n)" by (rule page_run_distinct_head)
  have ok: "page_ok (kend s) p"
    using Suc.prems le by (simp add: page_ok_def V2P_def word_less_nat_alt unat_sub_if')
  obtain m where m: "kfree p s = Inr ((ksync s)\<lparr>mem := m, kmem_freelist := p\<rparr>)"
      "free_pages ((ksync s)\<lparr>mem := m, kmem_freelist := p\<rparr>) (p # ps)"
    using kfree_pages [OF Suc.prems(1) ok] Suc.prems(8) by (auto simp: page_run_Suc)
  let ?s = "(ksync s)\<lparr>mem := m, kmem_freelist := p\<rparr>"
  have "\<exists>t. freerange_loop (p + PGSIZE) vend ?s = Inr t \<and>
      free_pages t (rev (page_run (p + PGSIZE) n) @ p # ps) \<and>
      (\<not> kmem_use_lock ?s \<longrightarrow> (\<exists>m r. t = ?s\<lparr>mem := m, kmem_freelist := r\<rparr>))"
  proof (rule Suc.IH)
    show "kend ?s \<le> p + PGSIZE" using Suc.prems(3) by (simp add: word_le_nat_alt nx)
    show "set (page_run (p + PGSIZE) n) \<inter> set (p # ps) = {}"
      using Suc.prems(8) fresh by (auto simp: page_run_Suc)
  qed (use Suc.prems m le n nx in \<open>simp_all add: page_aligned_next\<close>)
  then obtain t where t: "freerange_loop (p + PGSIZE) vend ?s = Inr t"
      "free_pages t (rev (page_run p (Suc n)) @ ps)"
      "\<not> kmem_use_lock ?s \<longrightarrow> (\<exists>m r. t = ?s\<lparr>mem := m, kmem_freelist := r\<rparr>)"
    by (auto simp: page_run_Suc)
  have "\<exists>m r. t = s\<lparr>mem := m, kmem_freelist := r\<rparr>" if "\<not> kmem_use_lock s"
  proof -
    obtain m' r where "t = ?s\<lparr>mem := m', kmem_freelist := r\<rparr>" using t(3) \<open>\<not> kmem_use_lock s\<close> by auto
    then have "t = s\<lparr>mem := m', kmem_freelist := r\<rparr>" using that by (simp add: ksync_def)
    then show ?thesis by blast
  qed
  note t = t(1,2) this
  have "p + PGSIZE \<le> vend" using le by (simp add: word_le_nat_alt nx)
  then have "freerange_loop p vend s = Inr t"
    by (subst freerange_loop.simps) (simp add: m(1) t(1))
  with t show ?case by blast
qed

lemma page_run_mem:
  assumes "unat p + 4096 * n \<le> 0x8F000000" and "page_aligned p"
  shows "q \<in> set (page_run p n) \<longleftrightarrow>
    page_aligned q \<and> unat p \<le> unat q \<and> unat q < unat p + 4096 * n"
proof -
  obtain j where j: "unat p = 4096 * j" using unat_page [OF assms(2)] by blast
  have run: "unat (p + of_nat i * PGSIZE) = 4096 * (j + i)" if "i < n" for i
    using that assms(1) j by (simp add: unat_word_ariths unat_of_nat)
  show ?thesis
  proof
    assume "q \<in> set (page_run p n)"
    then obtain i where i: "i < n" "q = p + of_nat i * PGSIZE" by (auto simp: page_run_def)
    with run j show "page_aligned q \<and> unat p \<le> unat q \<and> unat q < unat p + 4096 * n"
      by (simp add: page_aligned_iff)
  next
    assume q: "page_aligned q \<and> unat p \<le> unat q \<and> unat q < unat p + 4096 * n"
    then obtain k where k: "unat q = 4096 * k" using unat_page [OF conjunct1 [OF q]] by blast
    with q j have "4096 * k < 4096 * (j + n)" "j \<le> k" by simp_all
    then have "k - j < n" "j \<le> k" by simp_all
    then have "q = p + of_nat (k - j) * PGSIZE"
      using k run [of "k - j"] by (simp add: word_unat_eq_iff)
    with \<open>k - j < n\<close> show "q \<in> set (page_run p n)" by (auto simp: page_run_def)
  qed
qed

text \<open>Both phases of the initialisation, on a range between \<open>end\<close> and the top of memory.\<close>

lemma freerange_pages:
  assumes "free_pages s ps" and "kend s \<le> v" and "0x80000000 \<le> unat v" and "unat v \<le> 0x8E000000"
    and "unat w \<le> 0x8E000000" and "\<forall>p\<in>set ps. unat p < unat v" and "4096 dvd unat w"
  shows "\<exists>t qs. freerange v w s = Inr t \<and> free_pages t (qs @ ps) \<and>
    set qs = {q. page_aligned q \<and> unat v \<le> unat q \<and> unat q < unat w} \<and>
    (\<not> kmem_use_lock s \<longrightarrow> (\<exists>m r. t = s\<lparr>mem := m, kmem_freelist := r\<rparr>))"
proof -
  let ?p = "PGROUNDUP v" and ?n = "(unat w - unat (PGROUNDUP v)) div 4096"
  have p: "unat ?p = 4096 * ((unat v + 4095) div 4096)"
    using assms(4) by (intro unat_PGROUNDUP) simp
  have ge: "unat v \<le> unat ?p" unfolding p by linarith
  have le: "unat ?p \<le> 0x8E000000"
    unfolding p using assms(4) div_le_mono [of "unat v + 4095" "0x8E000000 + 4095" 4096] by simp
  have al: "page_aligned ?p" by (simp add: page_aligned_iff p)
  have bound: "unat ?p + 4096 * ?n \<le> 0x8F000000" using le assms(5) by simp
  have eq: "unat ?p + 4096 * ?n = max (unat ?p) (unat w)" using assms(7) p by auto
  have up: "unat v \<le> unat q \<longleftrightarrow> unat ?p \<le> unat q" if "page_aligned q" for q
  proof -
    obtain i where i: "unat q = 4096 * i" using unat_page [OF \<open>page_aligned q\<close>] by blast
    have "(unat v + 4095) div 4096 < Suc i \<longleftrightarrow> unat v + 4095 < Suc i * 4096"
      by (rule div_less_iff_less_mult) simp
    then show ?thesis unfolding p i by auto
  qed
  have set: "set (page_run ?p ?n) = {q. page_aligned q \<and> unat v \<le> unat q \<and> unat q < unat w}"
  proof (rule set_eqI, unfold mem_Collect_eq)
    fix q show "q \<in> set (page_run ?p ?n) \<longleftrightarrow> page_aligned q \<and> unat v \<le> unat q \<and> unat q < unat w"
      unfolding page_run_mem [OF bound al] eq less_max_iff_disj using up [of q] by (metis not_le)
  qed
  have "\<exists>t. freerange_loop ?p w s = Inr t \<and> free_pages t (rev (page_run ?p ?n) @ ps) \<and>
      (\<not> kmem_use_lock s \<longrightarrow> (\<exists>m r. t = s\<lparr>mem := m, kmem_freelist := r\<rparr>))"
  proof (rule freerange_loop_pages [OF assms(1) al])
    show "kend s \<le> ?p" using assms(2) ge by (simp add: word_le_nat_alt)
    show "set (page_run ?p ?n) \<inter> set ps = {}" using assms(6) by (auto simp: set)
  qed (use assms ge le in simp_all)
  then obtain t where "freerange v w s = Inr t" "free_pages t (rev (page_run ?p ?n) @ ps)"
      "\<not> kmem_use_lock s \<longrightarrow> (\<exists>m r. t = s\<lparr>mem := m, kmem_freelist := r\<rparr>)"
    unfolding freerange_def by blast
  moreover have "set (rev (page_run ?p ?n)) =
      {q. page_aligned q \<and> unat v \<le> unat q \<and> unat q < unat w}"
    using set by (simp only: set_rev)
  ultimately show ?thesis by blast
qed

lemma page_ok_range:
  "unat e \<ge> 0x80000000 \<Longrightarrow> page_ok e q \<longleftrightarrow> page_aligned q \<and> unat e \<le> unat q \<and> unat q < 0x8E000000"
  unfolding page_ok_def V2P_def word_less_nat_alt word_le_nat_alt unat_sub_if' by auto

text \<open>
  C38: After \<open>kinit1(end, P2V(4*1024*1024))\<close> and \<open>kinit2(P2V(4*1024*1024), P2V(PHYSTOP))\<close>, as
  \<open>main\<close> calls them, the free list holds exactly the pages between \<open>end\<close> and the top of physical
  memory, each once, and the allocator locks from then on.
\<close>

theorem kinit_pages:
  assumes "cpu_ok s" and "kmem_freelist s = 0"
    and "0x80000000 \<le> unat (kend s)" and "unat (kend s) \<le> 0x80400000"
  shows "\<exists>t u ps. kinit1 (kend s) (P2V 0x400000) s = Inr t \<and>
    kinit2 (P2V 0x400000) (P2V PHYSTOP) t = Inr u \<and> kmem_use_lock u \<and>
    free_pages u ps \<and> distinct ps \<and> set ps = {p. page_ok (kend s) p}"
proof -
  let ?s = "(initlock L_kmem ''kmem'' s)\<lparr>kmem_use_lock := False\<rparr>"
  have "kend ?s = kend s" "kmem_freelist ?s = 0" using assms(2) by (simp_all add: initlock_def)
  moreover have "free_pages ?s []"
    using assms(2) by (simp add: free_pages_def kmem_ready_def initlock_def)
  ultimately obtain t qs where t: "freerange (kend s) (P2V 0x400000) ?s = Inr t" "free_pages t qs"
      "set qs = {q. page_aligned q \<and> unat (kend s) \<le> unat q \<and> unat q < 0x80400000}"
      "\<exists>m r. t = ?s\<lparr>mem := m, kmem_freelist := r\<rparr>"
    using freerange_pages [of ?s "[]" "kend s" "P2V 0x400000"] assms(3,4) by (auto simp: P2V_def)
  then obtain m r where m: "t = ?s\<lparr>mem := m, kmem_freelist := r\<rparr>" by blast
  then have "kend t = kend s" "\<not> kmem_use_lock t" by (simp_all add: initlock_def)
  then obtain u rs where u: "freerange (P2V 0x400000) (P2V PHYSTOP) t = Inr u" "free_pages u (rs @ qs)"
      "set rs = {q. page_aligned q \<and> 0x80400000 \<le> unat q \<and> unat q < 0x8E000000}"
      "\<exists>m r. u = t\<lparr>mem := m, kmem_freelist := r\<rparr>"
    using freerange_pages [of t qs "P2V 0x400000" "P2V PHYSTOP"] assms(4) t(2,3)
    by (auto simp: P2V_def word_le_nat_alt)
  then obtain m' r' where "u = t\<lparr>mem := m', kmem_freelist := r'\<rparr>" by blast
  then have eq: "u = (initlock L_kmem ''kmem'' s)\<lparr>kmem_use_lock := False, mem := m', kmem_freelist := r'\<rparr>"
    by (simp add: m)
  let ?u = "u\<lparr>kmem_use_lock := True\<rparr>"
  have "cpu_ok ?u" using assms(1) cpu_ok_cong [of ?u s] by (simp add: eq initlock_def)
  then have "free_pages ?u (rs @ qs)"
    using u(2) by (simp add: free_pages_def kmem_ready_def eq initlock_def)
  moreover have "set (rs @ qs) = {p. page_ok (kend s) p}"
    using assms(4) by (auto simp: page_ok_range [OF assms(3)] t(3) u(3))
  moreover have "kinit1 (kend s) (P2V 0x400000) s = Inr t" using t(1) by (simp add: kinit1_def)
  moreover have "kinit2 (P2V 0x400000) (P2V PHYSTOP) t = Inr ?u" using u(1) by (simp add: kinit2_def)
  moreover have "distinct (rs @ qs)" using u(2) by (simp only: free_pages_def)
  ultimately show ?thesis by (intro exI [of _ t] exI [of _ ?u] exI [of _ "rs @ qs"]) simp
qed

text \<open>A kernel image that ends at \<open>0x801154a8\<close>, before and after the initialisation.\<close>

definition boot_kmem :: kmem where
  "boot_kmem = console.extend boot_console
     \<lparr>kmem_use_lock = False, kmem_freelist = 0, kend = 0x801154a8\<rparr>"

lemma boot_kmem_simps [simp]:
  "kmem_freelist boot_kmem = 0" "kend boot_kmem = 0x801154a8" "\<not> kmem_use_lock boot_kmem"
  "cpus boot_kmem = boot_cpu" "locks boot_kmem = boot_locks" "ncpu boot_kmem = 2"
  "this_cpu boot_kmem = 0" "lapic_id boot_kmem = of_nat"
  by (simp_all add: boot_kmem_def boot_console_def boot_machine_def machine.defs console.defs)

lemma boot_kmem_cpu_ok [simp]: "cpu_ok boot_kmem"
  using inj_of_nat_2 by (simp add: cpu_ok_def cpus_wf_def cli_ok_def)

theorem kinit_pages_witness:
  "\<exists>t u ps. kinit1 0x801154a8 0x80400000 boot_kmem = Inr t \<and> kinit2 0x80400000 0x8E000000 t = Inr u \<and>
     free_pages u ps \<and> 0x80116000 \<in> set ps \<and> 0x80115000 \<notin> set ps \<and> 0x8DFFF000 \<in> set ps"
proof -
  from kinit_pages [of boot_kmem] obtain t u ps
    where "kinit1 0x801154a8 0x80400000 boot_kmem = Inr t" "kinit2 0x80400000 0x8E000000 t = Inr u"
      "free_pages u ps" "set ps = {p. page_ok 0x801154a8 p}" by (auto simp: P2V_def)
  moreover have "page_ok 0x801154a8 0x80116000" "\<not> page_ok 0x801154a8 0x80115000"
      "page_ok 0x801154a8 0x8DFFF000"
    by (simp_all add: page_ok_def page_aligned_def V2P_def)
  ultimately show ?thesis by blast
qed

theorem kalloc_fresh_witness:
  "\<exists>(s :: kmem) p t. kmem_hist s {} \<and> kalloc s = Inr (p, t) \<and> p = 0x80116000 \<and> kmem_hist t {p} \<and>
     (\<exists>q u. kalloc t = Inr (q, u) \<and> (q \<noteq> 0 \<longrightarrow> q \<noteq> p)) \<and> (\<exists>u. kfree p t = Inr u)"
proof -
  let ?s = "boot_kmem\<lparr>kmem_freelist := 0x80116000\<rparr>"
  let ?t = "?s\<lparr>kmem_freelist := load32 (mem ?s) 0x80116000\<rparr>"
  have m: "mem ?s = (\<lambda>_. 0)"
    by (simp add: boot_kmem_def boot_console_def boot_machine_def machine.defs console.defs)
  have s: "free_pages ?s [0x80116000]"
    unfolding free_pages_def m by (simp add: kmem_ready_def page_ok_def page_aligned_def V2P_def load32_def)
  then have h: "kmem_hist ?s {}" by (rule kmem_hist.start)
  have a: "kalloc ?s = Inr (0x80116000, ?t)"
    using s by (simp add: free_pages_def kalloc_eq ksync_def)
  have h': "kmem_hist ?t {0x80116000}" using kmem_hist.alloc [OF h a] by simp
  from kalloc_fresh [OF h'] obtain q u v where "kalloc ?t = Inr (q, u)" "q \<noteq> 0 \<longrightarrow> q \<noteq> 0x80116000"
      "kfree 0x80116000 ?t = Inr v" by auto
  with h a h' show ?thesis
    by (intro exI [of _ ?s] exI [of _ "0x80116000"] exI [of _ ?t]) auto
qed

end
