(* ===== verification/Vm.thy ===== *)
theory Vm
  imports Kalloc
begin

text \<open>
  Page tables, \<open>vm.c\<close>. A page directory and its page tables are pages of byte memory, addressed
  by their kernel virtual addresses; an entry is a 32-bit word. The routine \<open>loaduvm\<close>, which
  reads a file, and \<open>switchuvm\<close>, which takes a process, are in the theories of the file system
  and of processes. \<open>kdata\<close> is the linker symbol \<open>data\<close>.
\<close>

section \<open>Entries and addresses\<close>

definition PDX :: "uint \<Rightarrow> uint" where "PDX va = drop_bit 22 va AND 0x3FF"
definition PTX :: "uint \<Rightarrow> uint" where "PTX va = drop_bit 12 va AND 0x3FF"

definition PGADDR :: "uint \<Rightarrow> uint \<Rightarrow> uint \<Rightarrow> uint" where
  "PGADDR d t off = push_bit 22 d OR push_bit 12 t OR off"

abbreviation (input) PTE_P :: uint where "PTE_P \<equiv> 0x001"
abbreviation (input) PTE_W :: uint where "PTE_W \<equiv> 0x002"
abbreviation (input) PTE_U :: uint where "PTE_U \<equiv> 0x004"

definition PTE_ADDR :: "uint \<Rightarrow> uint" where "PTE_ADDR pte = pte AND NOT 0xFFF"
definition PTE_FLAGS :: "uint \<Rightarrow> uint" where "PTE_FLAGS pte = pte AND 0xFFF"

definition present :: "uint \<Rightarrow> bool" where "present e \<longleftrightarrow> e AND PTE_P \<noteq> 0"

section \<open>The code\<close>

record vm = kmem +
  kpgdir :: uint
  kdata :: uint

abbreviation store :: "uint \<Rightarrow> uint \<Rightarrow> 'a machine_scheme \<Rightarrow> 'a machine_scheme" where
  "store a w s \<equiv> s\<lparr>mem := store32 (mem s) a w\<rparr>"

text \<open>\<open>seginit\<close>: the segments of a CPU.\<close>

definition seginit :: "'a machine_scheme \<Rightarrow> 'a machine_scheme res" where
  "seginit s =
     bnd (cpuid s) (\<lambda>c.
       Inr (upd_cpu c (\<lambda>x. x\<lparr>gdt := (gdt x)
         (SEG_KCODE := SEG 0xA 0 0xffffffff 0,
          SEG_KDATA := SEG 0x2 0 0xffffffff 0,
          SEG_UCODE := SEG 0xA 0 0xffffffff 3,
          SEG_UDATA := SEG 0x2 0 0xffffffff 3)\<rparr>) s))"

definition walkpgdir :: "uint \<Rightarrow> uint \<Rightarrow> bool \<Rightarrow> 'a vm_scheme \<Rightarrow> (uint \<times> 'a vm_scheme) res" where
  "walkpgdir pgdir va alloc s =
     (let pde = pgdir + 4 * PDX va
      in if present (load32 (mem s) pde)
         then Inr (P2V (PTE_ADDR (load32 (mem s) pde)) + 4 * PTX va, s)
         else if \<not> alloc then Inr (0, s)
         else bnd (kalloc s) (\<lambda>(pgtab, s).
           if pgtab = 0 then Inr (0, s)
           else let s = s\<lparr>mem := memset pgtab 0 PGSIZE (mem s)\<rparr>;
                    s = store pde (V2P pgtab OR PTE_P OR PTE_W OR PTE_U) s
                in Inr (pgtab + 4 * PTX va, s)))"

text \<open>
  \<open>mappages\<close>: \<open>a\<close> and \<open>last\<close> are multiples of the page size, so \<open>a\<close> reaches \<open>last\<close> after
  \<open>n = (last - a) / PGSIZE\<close> more rounds. The result is the return value of the C function.
\<close>

fun mappages_loop ::
  "nat \<Rightarrow> uint \<Rightarrow> uint \<Rightarrow> uint \<Rightarrow> uint \<Rightarrow> 'a vm_scheme \<Rightarrow> (int \<times> 'a vm_scheme) res" where
  "mappages_loop n pgdir a pa perm s =
     bnd (walkpgdir pgdir a True s) (\<lambda>(pte, s).
       if pte = 0 then Inr (- 1, s)
       else if present (load32 (mem s) pte) then Inl (Panic ''remap'')
       else let s = store pte (pa OR perm OR PTE_P) s
            in case n of 0 \<Rightarrow> Inr (0, s)
               | Suc n \<Rightarrow> mappages_loop n pgdir (a + PGSIZE) (pa + PGSIZE) perm s)"

declare mappages_loop.simps [simp del]

definition mappages ::
  "uint \<Rightarrow> uint \<Rightarrow> uint \<Rightarrow> uint \<Rightarrow> uint \<Rightarrow> 'a vm_scheme \<Rightarrow> (int \<times> 'a vm_scheme) res" where
  "mappages pgdir va sz pa perm s =
     (let a = PGROUNDDOWN va; last = PGROUNDDOWN (va + sz - 1)
      in mappages_loop (unat (last - a) div 4096) pgdir a pa perm s)"

definition kmap :: "uint \<Rightarrow> (uint \<times> uint \<times> uint \<times> uint) list" where
  "kmap data =
     [(KERNBASE, 0, EXTMEM, PTE_W),
      (KERNBASE + EXTMEM, V2P (KERNBASE + EXTMEM), V2P data, 0),
      (data, V2P data, PHYSTOP, PTE_W),
      (DEVSPACE, DEVSPACE, 0, PTE_W)]"

text \<open>
  The loop of \<open>deallocuvm\<close>. When \<open>a\<close> wraps around past the end of the address space (which the
  callers exclude: no size exceeds \<open>KERNBASE\<close>) the loop starts over; the model stops there.
\<close>

definition dealloc_next :: "uint \<Rightarrow> uint \<Rightarrow> uint" where
  "dealloc_next pte a = (if pte = 0 then PGADDR (PDX a + 1) 0 0 - PGSIZE else a) + PGSIZE"

function deallocuvm_loop :: "uint \<Rightarrow> uint \<Rightarrow> uint \<Rightarrow> 'a vm_scheme \<Rightarrow> 'a vm_scheme res" where
  "deallocuvm_loop pgdir oldsz a s =
     (if a < oldsz
      then bnd (walkpgdir pgdir a False s) (\<lambda>(pte, s).
           bnd (if pte \<noteq> 0 \<and> present (load32 (mem s) pte)
                then let pa = PTE_ADDR (load32 (mem s) pte)
                     in bnd (panic_if (pa = 0) ''kfree'') (\<lambda>_.
                        bnd (kfree (P2V pa) s) (\<lambda>s. Inr (store pte 0 s)))
                else Inr s) (\<lambda>s.
           if a < dealloc_next pte a then deallocuvm_loop pgdir oldsz (dealloc_next pte a) s
           else Inl Halt))
      else Inr s)"
  by pat_completeness auto
termination
  by (relation "measure (\<lambda>(pgdir, oldsz, a, s). 2 ^ 32 - unat a)")
    (auto simp: word_less_nat_alt intro!: diff_less_mono2)

declare deallocuvm_loop.simps [simp del]

definition deallocuvm :: "uint \<Rightarrow> uint \<Rightarrow> uint \<Rightarrow> 'a vm_scheme \<Rightarrow> (uint \<times> 'a vm_scheme) res" where
  "deallocuvm pgdir oldsz newsz s =
     (if newsz \<ge> oldsz then Inr (oldsz, s)
      else bnd (deallocuvm_loop pgdir oldsz (PGROUNDUP newsz) s) (\<lambda>s. Inr (newsz, s)))"

definition freevm_entry :: "uint \<Rightarrow> nat \<Rightarrow> 'a vm_scheme \<Rightarrow> 'a vm_scheme res" where
  "freevm_entry pgdir i s =
     (let e = load32 (mem s) (pgdir + 4 * of_nat i)
      in if present e then kfree (P2V (PTE_ADDR e)) s else Inr s)"

definition freevm :: "uint \<Rightarrow> 'a vm_scheme \<Rightarrow> 'a vm_scheme res" where
  "freevm pgdir s =
     bnd (panic_if (pgdir = 0) ''freevm: no pgdir'') (\<lambda>_.
     bnd (deallocuvm pgdir KERNBASE 0 s) (\<lambda>(_, s).
     bnd (foldM (freevm_entry pgdir) [0..<1024] s) (\<lambda>s.
     kfree pgdir s)))"

text \<open>\<open>setupkvm\<close> and its loop over \<open>kmap\<close>; a null result means that memory ran out.\<close>

fun setupkvm_loop ::
  "(uint \<times> uint \<times> uint \<times> uint) list \<Rightarrow> uint \<Rightarrow> 'a vm_scheme \<Rightarrow> (uint \<times> 'a vm_scheme) res" where
  "setupkvm_loop [] pgdir s = Inr (pgdir, s)"
| "setupkvm_loop ((virt, phys_start, phys_end, perm) # ks) pgdir s =
     bnd (mappages pgdir virt (phys_end - phys_start) phys_start perm s) (\<lambda>(r, s).
       if r < 0 then bnd (freevm pgdir s) (\<lambda>s. Inr (0, s)) else setupkvm_loop ks pgdir s)"

definition setupkvm :: "'a vm_scheme \<Rightarrow> (uint \<times> 'a vm_scheme) res" where
  "setupkvm s =
     bnd (kalloc s) (\<lambda>(pgdir, s).
       if pgdir = 0 then Inr (0, s)
       else let s = s\<lparr>mem := memset pgdir 0 PGSIZE (mem s)\<rparr>
            in bnd (panic_if (P2V PHYSTOP > DEVSPACE) ''PHYSTOP too high'') (\<lambda>_.
               setupkvm_loop (kmap (kdata s)) pgdir s))"

definition switchkvm :: "'a vm_scheme \<Rightarrow> 'a vm_scheme" where
  "switchkvm s = upd_cpu (this_cpu s) (\<lambda>c. c\<lparr>cr3 := V2P (kpgdir s)\<rparr>) s"

definition kvmalloc :: "'a vm_scheme \<Rightarrow> 'a vm_scheme res" where
  "kvmalloc s = bnd (setupkvm s) (\<lambda>(pgdir, s). Inr (switchkvm (s\<lparr>kpgdir := pgdir\<rparr>)))"

text \<open>\<open>inituvm\<close> uses the page without testing it: a null pointer is an undefined access.\<close>

definition inituvm :: "uint \<Rightarrow> uint \<Rightarrow> uint \<Rightarrow> 'a vm_scheme \<Rightarrow> 'a vm_scheme res" where
  "inituvm pgdir init sz s =
     bnd (panic_if (sz \<ge> PGSIZE) ''inituvm: more than a page'') (\<lambda>_.
     bnd (kalloc s) (\<lambda>(p, s).
       if p = 0 then Inl (Undefined ''inituvm: null page'')
       else let s = s\<lparr>mem := memset p 0 PGSIZE (mem s)\<rparr>
            in bnd (mappages pgdir 0 PGSIZE (V2P p) (PTE_W OR PTE_U) s) (\<lambda>(_, s).
               Inr (s\<lparr>mem := memmove p init sz (mem s)\<rparr>))))"

text \<open>\<open>allocuvm\<close>: \<open>n\<close> bounds the number of rounds, see \<open>allocuvm\<close>.\<close>

fun allocuvm_loop ::
  "nat \<Rightarrow> uint \<Rightarrow> uint \<Rightarrow> uint \<Rightarrow> uint \<Rightarrow> 'a vm_scheme \<Rightarrow> (uint \<times> 'a vm_scheme) res" where
  "allocuvm_loop 0 pgdir oldsz newsz a s = Inr (newsz, s)"
| "allocuvm_loop (Suc n) pgdir oldsz newsz a s =
     (if a < newsz
      then bnd (kalloc s) (\<lambda>(p, s).
        if p = 0
        then bnd (cprintf (''allocuvm out of memory'' @ [CHR 0x0A]) [] s) (\<lambda>s.
             bnd (deallocuvm pgdir newsz oldsz s) (\<lambda>(_, s). Inr (0, s)))
        else let s = s\<lparr>mem := memset p 0 PGSIZE (mem s)\<rparr>
             in bnd (mappages pgdir a PGSIZE (V2P p) (PTE_W OR PTE_U) s) (\<lambda>(r, s).
                if r < 0
                then bnd (cprintf (''allocuvm out of memory (2)'' @ [CHR 0x0A]) [] s) (\<lambda>s.
                     bnd (deallocuvm pgdir newsz oldsz s) (\<lambda>(_, s).
                     bnd (kfree p s) (\<lambda>s. Inr (0, s))))
                else allocuvm_loop n pgdir oldsz newsz (a + PGSIZE) s))
      else Inr (newsz, s))"

definition allocuvm :: "uint \<Rightarrow> uint \<Rightarrow> uint \<Rightarrow> 'a vm_scheme \<Rightarrow> (uint \<times> 'a vm_scheme) res" where
  "allocuvm pgdir oldsz newsz s =
     (if newsz \<ge> KERNBASE then Inr (0, s)
      else if newsz < oldsz then Inr (oldsz, s)
      else let a = PGROUNDUP oldsz
           in allocuvm_loop ((unat newsz - unat a + 4095) div 4096) pgdir oldsz newsz a s)"

definition clearpteu :: "uint \<Rightarrow> uint \<Rightarrow> 'a vm_scheme \<Rightarrow> 'a vm_scheme res" where
  "clearpteu pgdir uva s =
     bnd (walkpgdir pgdir uva False s) (\<lambda>(pte, s).
     bnd (panic_if (pte = 0) ''clearpteu'') (\<lambda>_.
     Inr (store pte (load32 (mem s) pte AND NOT PTE_U) s)))"

fun copyuvm_loop ::
  "nat \<Rightarrow> uint \<Rightarrow> uint \<Rightarrow> uint \<Rightarrow> 'a vm_scheme \<Rightarrow> (uint \<times> 'a vm_scheme) res" where
  "copyuvm_loop 0 pgdir d i s = Inr (d, s)"
| "copyuvm_loop (Suc n) pgdir d i s =
     bnd (walkpgdir pgdir i False s) (\<lambda>(pte, s).
     bnd (panic_if (pte = 0) ''copyuvm: pte should exist'') (\<lambda>_.
     bnd (panic_if (\<not> present (load32 (mem s) pte)) ''copyuvm: page not present'') (\<lambda>_.
       let pa = PTE_ADDR (load32 (mem s) pte); flags = PTE_FLAGS (load32 (mem s) pte)
       in bnd (kalloc s) (\<lambda>(p, s).
          if p = 0 then bnd (freevm d s) (\<lambda>s. Inr (0, s))
          else let s = s\<lparr>mem := memmove p (P2V pa) PGSIZE (mem s)\<rparr>
               in bnd (mappages d i PGSIZE (V2P p) flags s) (\<lambda>(r, s).
                  if r < 0
                  then bnd (kfree p s) (\<lambda>s. bnd (freevm d s) (\<lambda>s. Inr (0, s)))
                  else copyuvm_loop n pgdir d (i + PGSIZE) s)))))"

text \<open>\<open>copyuvm\<close> runs once for each page below \<open>sz\<close>.\<close>

definition copyuvm :: "uint \<Rightarrow> uint \<Rightarrow> 'a vm_scheme \<Rightarrow> (uint \<times> 'a vm_scheme) res" where
  "copyuvm pgdir sz s =
     bnd (setupkvm s) (\<lambda>(d, s).
       if d = 0 then Inr (0, s) else copyuvm_loop ((unat sz + 4095) div 4096) pgdir d 0 s)"

text \<open>\<open>uva2ka\<close> does not test the result of \<open>walkpgdir\<close>: a null pointer is dereferenced.\<close>

definition uva2ka :: "uint \<Rightarrow> uint \<Rightarrow> 'a vm_scheme \<Rightarrow> uint res" where
  "uva2ka pgdir uva s =
     bnd (walkpgdir pgdir uva False s) (\<lambda>(pte, s).
       if pte = 0 then Inl (Undefined ''uva2ka: null pte'')
       else let e = load32 (mem s) pte
            in if \<not> present e then Inr 0
               else if e AND PTE_U = 0 then Inr 0
               else Inr (P2V (PTE_ADDR e)))"

lemma page_offset: "unat (va - PGROUNDDOWN va) = unat va mod 4096"
  using unat_PGROUNDDOWN [of va] by (simp add: unat_sub_if' minus_mult_div_eq_mod)

fun put_bytes :: "uint \<Rightarrow> uchar list \<Rightarrow> mem \<Rightarrow> mem" where
  "put_bytes a [] m = m"
| "put_bytes a (b # bs) m = put_bytes (a + 1) bs (m(a := b))"

function copyout_loop :: "uint \<Rightarrow> uint \<Rightarrow> uchar list \<Rightarrow> 'a vm_scheme \<Rightarrow> (int \<times> 'a vm_scheme) res" where
  "copyout_loop pgdir va bs s =
     (if bs \<noteq> []
      then let va0 = PGROUNDDOWN va
           in bnd (uva2ka pgdir va0 s) (\<lambda>pa0.
              if pa0 = 0 then Inr (- 1, s)
              else let n = min (unat (PGSIZE - (va - va0))) (length bs)
                   in copyout_loop pgdir (va0 + PGSIZE) (drop n bs)
                        (s\<lparr>mem := put_bytes (pa0 + (va - va0)) (take n bs) (mem s)\<rparr>))
      else Inr (0, s))"
  by pat_completeness auto
termination
proof (relation "measure (\<lambda>(pgdir, va, bs, s). length bs)")
  fix pgdir va va0 pa0 :: uint and n :: nat and bs :: "uchar list" and s :: "'a vm_scheme"
  assume "bs \<noteq> []" and va0: "va0 = PGROUNDDOWN va" and n: "n = min (unat (PGSIZE - (va - va0))) (length bs)"
  have "unat (va - va0) < 4096" unfolding va0 page_offset by simp
  then have "PGSIZE - (va - va0) \<noteq> 0" by auto
  then have "0 < n" using \<open>bs \<noteq> []\<close> by (simp add: n unat_gt_0)
  then show "((pgdir, va0 + PGSIZE, drop n bs,
      s\<lparr>mem := put_bytes (pa0 + (va - va0)) (take n bs) (mem s)\<rparr>), pgdir, va, bs, s)
    \<in> measure (\<lambda>(pgdir, va, bs, s). length bs)" using \<open>bs \<noteq> []\<close> by simp
qed simp

declare copyout_loop.simps [simp del]

text \<open>\<open>copyout\<close>, where the buffer is given by its bytes.\<close>

definition copyout :: "uint \<Rightarrow> uint \<Rightarrow> uchar list \<Rightarrow> 'a vm_scheme \<Rightarrow> (int \<times> 'a vm_scheme) res" where
  "copyout pgdir va bs s = copyout_loop pgdir va bs s"

section \<open>The address translation of the hardware\<close>

text \<open>
  What the CPU does with a virtual address below \<open>KERNBASE\<close> under the page directory at \<open>pgdir\<close>;
  \<open>w\<close> asks for write access. A fault in kernel mode ends in \<open>panic("trap")\<close>. Kernel addresses
  are those of byte memory.
\<close>

definition writable_entry :: "uint \<Rightarrow> bool" where "writable_entry e \<longleftrightarrow> e AND PTE_W \<noteq> 0"

definition mmu :: "bool \<Rightarrow> uint \<Rightarrow> uint \<Rightarrow> mem \<Rightarrow> uint option" where
  "mmu w pgdir va m =
     (if va \<ge> KERNBASE then Some va
      else let pde = load32 m (pgdir + 4 * PDX va);
               pte = load32 m (P2V (PTE_ADDR pde) + 4 * PTX va)
           in if present pde \<and> present pte \<and> (w \<longrightarrow> writable_entry pde \<and> writable_entry pte)
              then Some (P2V (PTE_ADDR pte) + (va AND 0xFFF)) else None)"

definition uload :: "uint \<Rightarrow> 'a machine_scheme \<Rightarrow> uchar res" where
  "uload va s =
     (case mmu False (P2V (cr3 (cur s))) va (mem s) of
        Some a \<Rightarrow> Inr (mem s a) | None \<Rightarrow> Inl (Panic ''trap''))"

definition ustore :: "uint \<Rightarrow> uchar \<Rightarrow> 'a machine_scheme \<Rightarrow> 'a machine_scheme res" where
  "ustore va b s =
     (case mmu True (P2V (cr3 (cur s))) va (mem s) of
        Some a \<Rightarrow> Inr (s\<lparr>mem := (mem s)(a := b)\<rparr>) | None \<Rightarrow> Inl (Panic ''trap''))"

fun uloads :: "uint \<Rightarrow> nat \<Rightarrow> 'a machine_scheme \<Rightarrow> uchar list res" where
  "uloads va 0 s = Inr []"
| "uloads va (Suc n) s = bnd (uload va s) (\<lambda>b. bnd (uloads (va + 1) n s) (\<lambda>bs. Inr (b # bs)))"

fun ustores :: "uint \<Rightarrow> uchar list \<Rightarrow> 'a machine_scheme \<Rightarrow> 'a machine_scheme res" where
  "ustores va [] s = Inr s"
| "ustores va (b # bs) s = bnd (ustore va b s) (ustores (va + 1) bs)"

text \<open>The same on memory alone; \<^term>\<open>None\<close> is the fault.\<close>

fun mstores :: "uint \<Rightarrow> uint \<Rightarrow> uchar list \<Rightarrow> mem \<Rightarrow> mem option" where
  "mstores pgdir va [] m = Some m"
| "mstores pgdir va (b # bs) m =
     (case mmu True pgdir va m of Some a \<Rightarrow> mstores pgdir (va + 1) bs (m(a := b)) | None \<Rightarrow> None)"

lemma ustores_mstores:
  "ustores va bs s = (case mstores (P2V (cr3 (cur s))) va bs (mem s) of
     Some m \<Rightarrow> Inr (s\<lparr>mem := m\<rparr>) | None \<Rightarrow> Inl (Panic ''trap''))"
  by (induction bs arbitrary: va s) (auto simp: ustore_def split: option.split)

lemma uload_cong: "mem t = mem s \<Longrightarrow> cr3 (cur t) = cr3 (cur s) \<Longrightarrow> uload va t = uload va s"
  by (simp add: uload_def split: option.split)

lemma uloads_cong: "mem t = mem s \<Longrightarrow> cr3 (cur t) = cr3 (cur s) \<Longrightarrow> uloads va n t = uloads va n s"
  by (induction n arbitrary: va) (simp_all add: uload_cong [of t s])

lemma uloads_length: "uloads va n s = Inr bs \<Longrightarrow> length bs = n"
  by (induction n arbitrary: va bs) (auto simp: res_iff)

lemma uloads_nth: "uloads va n s = Inr bs \<Longrightarrow> i < n \<Longrightarrow> uload (va + of_nat i) s = Inr (bs ! i)"
proof (induction n arbitrary: va bs i)
  case 0
  then show ?case by simp
next
  case (Suc n)
  then obtain b cs where b: "uload va s = Inr b" "uloads (va + 1) n s = Inr cs" "bs = b # cs"
    by (auto simp: res_iff)
  show ?case
  proof (cases i)
    case 0
    with b show ?thesis by simp
  next
    case (Suc j)
    with Suc.IH [OF b(2), of j] Suc.prems(2) b(3) show ?thesis by (simp add: add.assoc)
  qed
qed

end
