(* ===== verification/Proc.thy ===== *)
theory Proc
  imports Vm
begin

text \<open>
  Processes: the process table of \<open>proc.c\<close> and the operations on it that do not need the file
  system. A \<open>struct proc *\<close> is an index into \<open>ptable.proc\<close> (\<^term>\<open>None\<close> is the null pointer), a
  sleep channel is the object whose address the code passes. The scheduling queues of the MLFQ
  policy are kept for every policy, as in the code.

  A routine that gives up the CPU (\<open>sched\<close>, \<open>yield\<close>, \<open>sleep\<close>) takes a schedule: for each time
  the thread of control is switched out, the function that the rest of the system applies to the
  state until the thread is resumed. When the schedule is used up the thread is still switched
  out, result \<^term>\<open>Asleep\<close>. Statements about these routines hold for all schedules that respect
  a stated condition.
\<close>

section \<open>Data\<close>

datatype procstate = UNUSED | EMBRYO | SLEEPING | RUNNABLE | RUNNING | ZOMBIE

datatype channel =
    Ch_proc nat | Ch_ticks | Ch_input | Ch_log | Ch_buf nat | Ch_buf_lock nat | Ch_inode_lock nat
  | Ch_nread uint | Ch_nwrite uint

record proc_stat =
  stat_pid :: uint
  stat_runtime :: uint
  stat_num_run :: uint
  stat_current_queue :: uint
  stat_ticks :: "nat \<Rightarrow> uint"

record proc =
  p_sz :: uint
  p_pgdir :: uint
  p_kstack :: uint
  p_state :: procstate
  p_pid :: uint
  p_parent :: "nat option"
  p_tf :: uint
  p_context :: uint
  p_chan :: "channel option"
  p_killed :: bool
  p_ofile :: "nat \<Rightarrow> nat option"
  p_cwd :: "nat option"
  p_name :: "uchar list"
  p_ctime :: uint
  p_rtime :: uint
  p_etime :: uint
  p_iotime :: uint
  p_priority :: uint
  p_qno :: nat
  p_aging_time :: uint
  p_rrtime :: "nat \<Rightarrow> uint"
  p_stat :: proc_stat

text \<open>
  The scheduling policy the kernel is compiled for, and the globals of \<open>proc.c\<close> with \<open>ticks\<close>.
  \<open>mlfq k\<close> is the array \<open>q\<^sub>k\<close>; \<open>trapret\<close> and \<open>forkret\<close> are code addresses.
\<close>

datatype policy = DEFAULT | FCFS | PBS | MLFQ

record ptable = vm +
  procs :: "nat \<Rightarrow> proc"
  initproc :: "nat option"
  nextpid :: uint
  ticks :: uint
  mlfq :: "nat \<Rightarrow> nat \<Rightarrow> nat option"
  cnt :: "nat \<Rightarrow> int"
  qbeg :: "nat \<Rightarrow> int"
  qend :: "nat \<Rightarrow> int"
  gstore :: "nat \<Rightarrow> nat \<Rightarrow> uint \<times> nat"
  trapret :: uint
  forkret_addr :: uint

abbreviation (input) QSIZE :: nat where "QSIZE \<equiv> 1000"
abbreviation (input) time_age :: int where "time_age \<equiv> 50"

definition upd_proc :: "nat \<Rightarrow> (proc \<Rightarrow> proc) \<Rightarrow> 'a ptable_scheme \<Rightarrow> 'a ptable_scheme" where
  "upd_proc p f s = s\<lparr>procs := (procs s)(p := f (procs s p))\<rparr>"

abbreviation set_state :: "nat \<Rightarrow> procstate \<Rightarrow> 'a ptable_scheme \<Rightarrow> 'a ptable_scheme" where
  "set_state p st s \<equiv> upd_proc p (\<lambda>x. x\<lparr>p_state := st\<rparr>) s"

text \<open>Following a process pointer; the null pointer is an undefined access.\<close>

definition deref :: "nat option \<Rightarrow> nat res" where
  "deref p = (case p of Some i \<Rightarrow> Inr i | None \<Rightarrow> Inl (Undefined ''null pointer''))"

text \<open>Elements of the queue arrays, within their bounds.\<close>

definition qget :: "nat \<Rightarrow> int \<Rightarrow> 'a ptable_scheme \<Rightarrow> (nat option) res" where
  "qget k i s = (if 0 \<le> i \<and> i < int QSIZE then Inr (mlfq s k (nat i)) else Inl (Undefined ''queue index''))"

definition qset :: "nat \<Rightarrow> int \<Rightarrow> nat option \<Rightarrow> 'a ptable_scheme \<Rightarrow> 'a ptable_scheme res" where
  "qset k i p s =
     (if 0 \<le> i \<and> i < int QSIZE then Inr (s\<lparr>mlfq := (mlfq s)(k := (mlfq s k)(nat i := p))\<rparr>)
      else Inl (Undefined ''queue index''))"

definition add_cnt :: "nat \<Rightarrow> int \<Rightarrow> 'a ptable_scheme \<Rightarrow> 'a ptable_scheme" where
  "add_cnt k d s = s\<lparr>cnt := (cnt s)(k := cnt s k + d)\<rparr>"

definition inc_end :: "nat \<Rightarrow> 'a ptable_scheme \<Rightarrow> 'a ptable_scheme" where
  "inc_end k s = s\<lparr>qend := (qend s)(k := qend s k + 1)\<rparr>"

section \<open>The current process\<close>

definition pinit :: "'a ptable_scheme \<Rightarrow> 'a ptable_scheme" where
  "pinit s = initlock L_ptable ''ptable'' s"

definition myproc :: "'a machine_scheme \<Rightarrow> (nat option \<times> 'a machine_scheme) res" where
  "myproc s =
     bnd (pushcli s) (\<lambda>s.
     bnd (mycpu s) (\<lambda>c.
       let p = cpu_proc (cpus s c)
       in bnd (popcli s) (\<lambda>s. Inr (p, s))))"

text \<open>\<open>myproc()\<close> followed by a use of the pointer.\<close>

definition curproc :: "'a machine_scheme \<Rightarrow> (nat \<times> 'a machine_scheme) res" where
  "curproc s = bnd (myproc s) (\<lambda>(p, s). bnd (deref p) (\<lambda>p. Inr (p, s)))"

section \<open>Address space of a process\<close>

definition uvm_cpu :: "proc \<Rightarrow> cpu \<Rightarrow> cpu" where
  "uvm_cpu p c =
     c\<lparr>gdt := (gdt c)(SEG_TSS := (SEG16 9 (ts_addr c) (104 - 1) 0)\<lparr>seg_s := False\<rparr>),
       ts := \<lparr>ts_esp0 = p_kstack p + KSTACKSIZE, ts_ss0 = of_nat SEG_KDATA * 8, ts_iomb = 0xFFFF\<rparr>,
       tr := of_nat SEG_TSS * 8, cr3 := V2P (p_pgdir p)\<rparr>"

definition switchuvm :: "nat option \<Rightarrow> 'a ptable_scheme \<Rightarrow> 'a ptable_scheme res" where
  "switchuvm po s =
     (case po of
        None \<Rightarrow> Inl (Panic ''switchuvm: no process'')
      | Some i \<Rightarrow>
          let p = procs s i
          in bnd (panic_if (p_kstack p = 0) ''switchuvm: no kstack'') (\<lambda>_.
             bnd (panic_if (p_pgdir p = 0) ''switchuvm: no pgdir'') (\<lambda>_.
             bnd (pushcli s) (\<lambda>s.
             bnd (mycpu s) (\<lambda>c.
             popcli (upd_cpu c (uvm_cpu p) s))))))"

section \<open>Allocating a table entry\<close>

text \<open>\<open>sizeof(struct trapframe)\<close> is 76 and \<open>sizeof(struct context)\<close> is 20, with \<open>eip\<close> last.\<close>

definition alloc_fields :: "uint \<Rightarrow> proc \<Rightarrow> proc" where
  "alloc_fields newpid p =
     p\<lparr>p_state := EMBRYO, p_priority := 60, p_pid := newpid, p_qno := 0,
       p_stat := \<lparr>stat_pid = newpid, stat_runtime = 0, stat_num_run = 0, stat_current_queue = 0,
                  stat_ticks = (\<lambda>j. if j < 5 then 0 else stat_ticks (p_stat p) j)\<rparr>,
       p_rrtime := (\<lambda>j. if j < 5 then 0 else p_rrtime p j)\<rparr>"

definition allocproc :: "'a ptable_scheme \<Rightarrow> (nat option \<times> 'a ptable_scheme) res" where
  "allocproc s =
     bnd (acquire L_ptable s) (\<lambda>s.
     case find (\<lambda>p. p_state (procs s p) = UNUSED) [0..<NPROC] of
       None \<Rightarrow> bnd (release L_ptable s) (\<lambda>s. Inr (None, s))
     | Some p \<Rightarrow>
         let s = upd_proc p (alloc_fields (nextpid s)) s;
             s = s\<lparr>nextpid := nextpid s + 1\<rparr>
         in bnd (qset 0 (cnt s 0) (Some p) s) (\<lambda>s.
            let s = add_cnt 0 1 (inc_end 0 s)
            in bnd (release L_ptable s) (\<lambda>s.
               bnd (kalloc s) (\<lambda>(k, s).
               let s = upd_proc p (\<lambda>x. x\<lparr>p_kstack := k\<rparr>) s
               in if k = 0 then Inr (None, set_state p UNUSED s)
                  else let sp = k + KSTACKSIZE - 76;
                           s = upd_proc p (\<lambda>x. x\<lparr>p_tf := sp\<rparr>) s;
                           s = store (sp - 4) (trapret s) s;
                           ctx = sp - 4 - 20;
                           s = upd_proc p (\<lambda>x. x\<lparr>p_context := ctx\<rparr>) s;
                           s = s\<lparr>mem := memset ctx 0 20 (mem s)\<rparr>;
                           s = store (ctx + 16) (forkret_addr s) s;
                           s = upd_proc p (\<lambda>x. x\<lparr>p_ctime := ticks s, p_rtime := 0, p_etime := 0,
                                                p_iotime := 0, p_aging_time := 0\<rparr>) s
                       in Inr (Some p, s)))))"

section \<open>Giving up the CPU\<close>

type_synonym 's sched = "('s \<Rightarrow> 's) list"

definition swtch :: "'s \<Rightarrow> 's sched \<Rightarrow> ('s \<times> 's sched) res" where
  "swtch s es = (case es of [] \<Rightarrow> Inl Asleep | e # es \<Rightarrow> Inr (e s, es))"

text \<open>\<open>sched\<close> up to the switch: its tests, and the saved \<open>intena\<close>.\<close>

definition sched_enter :: "'a ptable_scheme \<Rightarrow> (bool \<times> 'a ptable_scheme) res" where
  "sched_enter s =
     bnd (myproc s) (\<lambda>(po, s).
     bnd (holding L_ptable s) (\<lambda>(h, s).
     bnd (panic_if (\<not> h) ''sched ptable.lock'') (\<lambda>_.
     bnd (mycpu s) (\<lambda>c.
     bnd (panic_if (ncli (cpus s c) \<noteq> 1) ''sched locks'') (\<lambda>_.
     bnd (deref po) (\<lambda>p.
     bnd (panic_if (p_state (procs s p) = RUNNING) ''sched running'') (\<lambda>_.
     bnd (panic_if (IF_flag (cur s)) ''sched interruptible'') (\<lambda>_.
     Inr (intena (cpus s c), s)))))))))"

definition sched_leave :: "bool \<Rightarrow> 'a ptable_scheme \<Rightarrow> 'a ptable_scheme res" where
  "sched_leave ie s = bnd (mycpu s) (\<lambda>c. Inr (upd_cpu c (\<lambda>x. x\<lparr>intena := ie\<rparr>) s))"

definition sched :: "'a ptable_scheme \<Rightarrow> 'a ptable_scheme sched \<Rightarrow>
    ('a ptable_scheme \<times> 'a ptable_scheme sched) res" where
  "sched s es =
     bnd (sched_enter s) (\<lambda>(ie, s).
     bnd (swtch s es) (\<lambda>(s, es).
     bnd (sched_leave ie s) (\<lambda>s. Inr (s, es))))"

definition yield :: "'a ptable_scheme \<Rightarrow> 'a ptable_scheme sched \<Rightarrow>
    ('a ptable_scheme \<times> 'a ptable_scheme sched) res" where
  "yield s es =
     bnd (acquire L_ptable s) (\<lambda>s.
     bnd (curproc s) (\<lambda>(p, s).
     bnd (sched (set_state p RUNNABLE s) es) (\<lambda>(s, es).
     bnd (release L_ptable s) (\<lambda>s. Inr (s, es)))))"

text \<open>\<open>sleep\<close> up to the call of \<open>sched\<close>, and the part after it; \<open>lk\<close> is the caller's lock.\<close>

definition sleep_enter ::
  "channel \<Rightarrow> lockid option \<Rightarrow> 'a ptable_scheme \<Rightarrow> (nat \<times> lockid \<times> 'a ptable_scheme) res" where
  "sleep_enter ch lk s =
     bnd (myproc s) (\<lambda>(po, s).
     case po of
       None \<Rightarrow> Inl (Panic ''sleep'')
     | Some p \<Rightarrow>
        (case lk of
           None \<Rightarrow> Inl (Panic ''sleep without lk'')
         | Some L \<Rightarrow>
             bnd (if L \<noteq> L_ptable then bnd (acquire L_ptable s) (release L) else Inr s) (\<lambda>s.
             Inr (p, L, upd_proc p (\<lambda>x. x\<lparr>p_chan := Some ch, p_state := SLEEPING\<rparr>) s))))"

definition sleep_leave :: "nat \<Rightarrow> lockid \<Rightarrow> 'a ptable_scheme \<Rightarrow> 'a ptable_scheme res" where
  "sleep_leave p L s =
     (let s = upd_proc p (\<lambda>x. x\<lparr>p_chan := None\<rparr>) s
      in if L \<noteq> L_ptable then bnd (release L_ptable s) (acquire L) else Inr s)"

definition sleep :: "channel \<Rightarrow> lockid option \<Rightarrow> 'a ptable_scheme \<Rightarrow> 'a ptable_scheme sched \<Rightarrow>
    ('a ptable_scheme \<times> 'a ptable_scheme sched) res" where
  "sleep ch lk s es =
     bnd (sleep_enter ch lk s) (\<lambda>(p, L, s).
     bnd (sched s es) (\<lambda>(s, es).
     bnd (sleep_leave p L s) (\<lambda>s. Inr (s, es))))"

section \<open>Waking and killing\<close>

definition wakeup1 :: "channel option \<Rightarrow> 'a ptable_scheme \<Rightarrow> 'a ptable_scheme" where
  "wakeup1 ch s =
     fold (\<lambda>p s. if p_state (procs s p) = SLEEPING \<and> p_chan (procs s p) = ch
                 then set_state p RUNNABLE s else s) [0..<NPROC] s"

definition wakeup :: "channel \<Rightarrow> 'a ptable_scheme \<Rightarrow> 'a ptable_scheme res" where
  "wakeup ch s = bnd (acquire L_ptable s) (\<lambda>s. release L_ptable (wakeup1 (Some ch) s))"

definition kill_proc :: "proc \<Rightarrow> proc" where
  "kill_proc p =
     (let p = p\<lparr>p_killed := True\<rparr>
      in if p_state p = SLEEPING then p\<lparr>p_state := RUNNABLE\<rparr> else p)"

definition kill :: "uint \<Rightarrow> 'a ptable_scheme \<Rightarrow> (int \<times> 'a ptable_scheme) res" where
  "kill pd s =
     bnd (acquire L_ptable s) (\<lambda>s.
     case find (\<lambda>p. p_pid (procs s p) = pd) [0..<NPROC] of
       Some p \<Rightarrow> bnd (release L_ptable (upd_proc p kill_proc s)) (\<lambda>s. Inr (0, s))
     | None \<Rightarrow> bnd (release L_ptable s) (\<lambda>s. Inr (- 1, s)))"

section \<open>Priorities and statistics\<close>

abbreviation nl :: string where "nl \<equiv> [CHR 0x0A]"

definition set_priority :: "uint \<Rightarrow> uint \<Rightarrow> 'a ptable_scheme \<Rightarrow> (uint \<times> 'a ptable_scheme) res" where
  "set_priority pd prio s =
     bnd (acquire L_ptable s) (\<lambda>s.
     case find (\<lambda>p. p_pid (procs s p) = pd) [0..<NPROC] of
       Some p \<Rightarrow>
         let val = p_priority (procs s p);
             s = upd_proc p (\<lambda>x. x\<lparr>p_priority := prio\<rparr>) s
         in bnd (cprintf (''set priority of %d to %d'' @ nl)
                   [Aint (p_pid (procs s p)), Aint (p_priority (procs s p))] s) (\<lambda>s.
            bnd (release L_ptable s) (\<lambda>s. Inr (val, s)))
     | None \<Rightarrow> bnd (release L_ptable s) (\<lambda>s. Inr (- 1, s)))"

definition check_priority :: "uint \<Rightarrow> 'a ptable_scheme \<Rightarrow> (int \<times> 'a ptable_scheme) res" where
  "check_priority prt s =
     bnd (acquire L_ptable s) (\<lambda>s.
     case find (\<lambda>p. p_state (procs s p) = RUNNABLE \<and> sint (p_priority (procs s p)) \<le> sint prt)
            [0..<NPROC] of
       Some p \<Rightarrow> bnd (release L_ptable s) (\<lambda>s. Inr (1, s))
     | None \<Rightarrow> bnd (release L_ptable s) (\<lambda>s. Inr (0, s)))"

text \<open>\<open>getpinfo\<close>; the record is what it stores through its argument (nothing when it returns 0).\<close>

definition getpinfo ::
  "uint \<Rightarrow> 'a ptable_scheme \<Rightarrow> (int \<times> proc_stat option \<times> 'a ptable_scheme) res" where
  "getpinfo pd s =
     bnd (acquire L_ptable s) (\<lambda>s.
     case find (\<lambda>q. p_state (procs s q) = RUNNABLE \<and> p_pid (procs s q) = pd) [0..<NPROC] of
       Some q \<Rightarrow>
         let st = p_stat (procs s q);
             p = \<lparr>stat_pid = p_pid (procs s q), stat_runtime = stat_runtime st,
                  stat_num_run = stat_num_run st, stat_current_queue = of_nat (p_qno (procs s q)),
                  stat_ticks = stat_ticks st\<rparr>
         in bnd (cprintf (''pid : %d'' @ nl) [Aint (stat_pid p)] s) (\<lambda>s.
            bnd (cprintf (''current queue : %d'' @ nl) [Aint (stat_current_queue p)] s) (\<lambda>s.
            bnd (cprintf (''num_run : %d'' @ nl) [Aint (stat_num_run p)] s) (\<lambda>s.
            bnd (cprintf (''runtime : %d'' @ nl) [Aint (stat_runtime p)] s) (\<lambda>s.
            bnd (cprintf (''ticks : %d %d %d %d %d'' @ nl)
                   (map (\<lambda>j. Aint (stat_ticks p j)) [0..<5]) s) (\<lambda>s.
            bnd (release L_ptable s) (\<lambda>s. Inr (1, Some p, s)))))))
     | None \<Rightarrow> bnd (release L_ptable s) (\<lambda>s. Inr (0, None, s)))"

text \<open>\<open>graph\<close> records the queue of the processes 0, 1, 2, 3, 6 and 7 at the present tick.\<close>

definition graph_row :: "uint \<Rightarrow> nat option" where
  "graph_row pd =
     (if pd = 0 then Some 0 else if pd = 1 then Some 1 else if pd = 2 then Some 2
      else if pd = 3 then Some 3 else if pd = 6 then Some 4 else if pd = 7 then Some 5 else None)"

definition graph :: "'a ptable_scheme \<Rightarrow> (int \<times> 'a ptable_scheme) res" where
  "graph s =
     (if ticks s > 800 then Inr (0, s)
      else bnd (acquire L_ptable s) (\<lambda>s.
           let s = fold (\<lambda>p s.
                 case graph_row (p_pid (procs s p)) of
                   Some r \<Rightarrow> s\<lparr>gstore := (gstore s)(r := (gstore s r)
                                (unat (ticks s) := (ticks s, p_qno (procs s p))))\<rparr>
                 | None \<Rightarrow> s) [0..<NPROC] s
           in bnd (release L_ptable s) (\<lambda>s. Inr (0, s))))"

text \<open>\<open>procdump\<close>: the process listing, with the call stack of sleeping processes, and the queues.\<close>

fun state_name :: "procstate \<Rightarrow> string" where
  "state_name UNUSED = ''unused''"
| "state_name EMBRYO = ''embryo''"
| "state_name SLEEPING = ''sleep ''"
| "state_name RUNNABLE = ''runble''"
| "state_name RUNNING = ''run   ''"
| "state_name ZOMBIE = ''zombie''"

definition procdump_row :: "nat \<Rightarrow> 'a ptable_scheme \<Rightarrow> 'a ptable_scheme res" where
  "procdump_row p s =
     (let x = procs s p
      in if p_state x = UNUSED then Inr s
         else bnd (cprintf ''%d %s %s'' [Aint (p_pid x), Astr (Some (str (state_name (p_state x)))), Astr (Some (p_name x))] s) (\<lambda>s.
              bnd (if p_state x = SLEEPING
                   then let pc = getcallerpcs (load32 (mem s) (p_context x + 12) + 8) (mem s)
                        in foldM (\<lambda>v. cprintf '' %p'' [Aint v]) (takeWhile (\<lambda>v. v \<noteq> 0) pc) s
                   else Inr s) (\<lambda>s.
              cprintf ('' - queue %d'' @ nl) [Aint (of_nat (p_qno x))] s)))"

definition procdump_queue :: "nat \<Rightarrow> 'a ptable_scheme \<Rightarrow> 'a ptable_scheme res" where
  "procdump_queue i s =
     bnd (cprintf (nl @ ''Q %d : %d'') [Aint (of_nat i), Aint (of_int (cnt s i))] s) (\<lambda>s.
     foldM (\<lambda>j s. bnd (qget i (int j) s) (\<lambda>po. bnd (deref po) (\<lambda>p.
       cprintf (nl @ '' %d'') [Aint (p_pid (procs s p))] s))) [0..<nat (cnt s i)] s)"

definition procdump :: "'a ptable_scheme \<Rightarrow> 'a ptable_scheme res" where
  "procdump s =
     bnd (foldM procdump_row [0..<NPROC] s) (\<lambda>s.
     bnd (foldM procdump_queue [0..<5] s) (\<lambda>s.
     cprintf nl [] s))"

section \<open>Basic facts\<close>

lemma upd_proc_simps [simp]:
  "procs (upd_proc p f s) = (procs s)(p := f (procs s p))"
  "mem (upd_proc p f s) = mem s" "cpus (upd_proc p f s) = cpus s"
  "ncpu (upd_proc p f s) = ncpu s" "this_cpu (upd_proc p f s) = this_cpu s"
  "lapic_id (upd_proc p f s) = lapic_id s" "locks (upd_proc p f s) = locks s"
  "panicked (upd_proc p f s) = panicked s" "cons_locking (upd_proc p f s) = cons_locking s"
  "con (upd_proc p f s) = con s" "kmem_use_lock (upd_proc p f s) = kmem_use_lock s"
  "kmem_freelist (upd_proc p f s) = kmem_freelist s" "kend (upd_proc p f s) = kend s"
  "kpgdir (upd_proc p f s) = kpgdir s" "ticks (upd_proc p f s) = ticks s"
  "mlfq (upd_proc p f s) = mlfq s" "cnt (upd_proc p f s) = cnt s"
  "nextpid (upd_proc p f s) = nextpid s" "initproc (upd_proc p f s) = initproc s"
  by (simp_all add: upd_proc_def)

lemma ptable_upd_cpu [simp]:
  "procs (upd_cpu i f s) = procs s" "ticks (upd_cpu i f s) = ticks s"
  "mlfq (upd_cpu i f s) = mlfq s" "cnt (upd_cpu i f s) = cnt s"
  "nextpid (upd_cpu i f s) = nextpid s" "initproc (upd_cpu i f s) = initproc s"
  "kpgdir (upd_cpu i f t) = kpgdir t"
  by (simp_all add: upd_cpu_def)

lemma ptable_acquired [simp]:
  "procs (acquired L s) = procs s" "ticks (acquired L s) = ticks s"
  "mlfq (acquired L s) = mlfq s" "cnt (acquired L s) = cnt s"
  "nextpid (acquired L s) = nextpid s" "initproc (acquired L s) = initproc s"
  by (simp_all add: acquired_def)

lemma ptable_released [simp]:
  "procs (released L s) = procs s" "ticks (released L s) = ticks s"
  "mlfq (released L s) = mlfq s" "cnt (released L s) = cnt s"
  "nextpid (released L s) = nextpid s" "initproc (released L s) = initproc s"
  by (simp_all add: released_def)

lemma quiet_ptable:
  "quiet s t \<Longrightarrow> procs t = procs s" "quiet s t \<Longrightarrow> ticks t = ticks s"
  "quiet s t \<Longrightarrow> mlfq t = mlfq s" "quiet s t \<Longrightarrow> cnt t = cnt s"
  "quiet s t \<Longrightarrow> nextpid t = nextpid s" "quiet s t \<Longrightarrow> initproc t = initproc s"
  by (auto elim: quietE)

lemma cpu_ok_upd_proc [simp]: "cpu_ok (upd_proc p f s) = cpu_ok s"
  by (rule cpu_ok_cong) simp_all

text \<open>A loop that changes each entry of the table by itself.\<close>

lemma fold_upd_proc:
  assumes "distinct ps"
  shows "fold (\<lambda>p s. if P (procs s p) then upd_proc p f s else s) ps s =
    s\<lparr>procs := (\<lambda>p. if p \<in> set ps \<and> P (procs s p) then f (procs s p) else procs s p)\<rparr>"
  using assms
proof (induction ps arbitrary: s)
  case Nil
  then show ?case by simp
next
  case (Cons q ps)
  let ?s = "if P (procs s q) then upd_proc q f s else s"
  have "fold (\<lambda>p s. if P (procs s p) then upd_proc p f s else s) (q # ps) s =
      ?s\<lparr>procs := (\<lambda>p. if p \<in> set ps \<and> P (procs ?s p) then f (procs ?s p) else procs ?s p)\<rparr>"
    using Cons by simp
  also have "\<dots> = s\<lparr>procs := (\<lambda>p. if p \<in> set ps \<and> P (procs ?s p) then f (procs ?s p) else procs ?s p)\<rparr>"
    by (simp add: upd_proc_def)
  also have "(\<lambda>p. if p \<in> set ps \<and> P (procs ?s p) then f (procs ?s p) else procs ?s p) =
      (\<lambda>p. if p \<in> set (q # ps) \<and> P (procs s p) then f (procs s p) else procs s p)"
    using Cons.prems by (auto simp: fun_eq_iff)
  finally show ?case .
qed

lemma wakeup1_eq:
  "wakeup1 ch s = s\<lparr>procs := (\<lambda>p. if p < NPROC \<and> p_state (procs s p) = SLEEPING \<and> p_chan (procs s p) = ch
     then (procs s p)\<lparr>p_state := RUNNABLE\<rparr> else procs s p)\<rparr>"
  unfolding wakeup1_def
  using fold_upd_proc [of "[0..<NPROC]" "\<lambda>x. p_state x = SLEEPING \<and> p_chan x = ch"
      "\<lambda>x. x\<lparr>p_state := RUNNABLE\<rparr>" s]
  by simp

lemma myproc_eq: "cpu_ok s \<Longrightarrow> myproc s = Inr (cpu_proc (cur s), synced s)"
proof -
  assume ok: "cpu_ok s"
  then have wf: "cpus_wf s" and c: "cli_ok (cur s)" by (simp_all add: cpu_ok_def)
  have "cpu_ok (pushed s)" using wf c by (simp add: cpu_ok_def)
  moreover have "0 < ncli (cur (pushed s))" using cpu_ok_ncli [OF ok] by simp
  ultimately have "popcli (pushed s) = Inr (synced s)"
    using c by (subst popcli_eq) (auto intro!: upd_cpu_cong pop_push_cpu)
  moreover have "mycpu (pushed s) = Inr (this_cpu s)" using wf by (subst mycpu_wf) simp_all
  ultimately show ?thesis by (simp add: myproc_def pushcli_eq [OF wf])
qed

lemma myproc_inside: "cpu_ok s \<Longrightarrow> 0 < ncli (cur s) \<Longrightarrow> myproc s = Inr (cpu_proc (cur s), s)"
  by (simp add: myproc_eq upd_cpu_id sync_cpu_id)

lemma curproc_inside:
  "cpu_ok s \<Longrightarrow> 0 < ncli (cur s) \<Longrightarrow> cpu_proc (cur s) = Some p \<Longrightarrow> curproc s = Inr (p, s)"
  by (simp add: curproc_def myproc_inside deref_def)

lemma quiet_myproc [quiet_intros]: "myproc s = Inr (p, t) \<Longrightarrow> quiet s t"
  by (auto simp: myproc_def Let_def res_iff dest!: quiet_pushcli quiet_popcli intro: quiet_trans)

lemma uvm_cpu_simps [simp]:
  "ncli (uvm_cpu p c) = ncli c" "IF_flag (uvm_cpu p c) = IF_flag c" "intena (uvm_cpu p c) = intena c"
  "apicid (uvm_cpu p c) = apicid c" "cpu_proc (uvm_cpu p c) = cpu_proc c"
  by (simp_all add: uvm_cpu_def)

lemma switchuvm_eq:
  assumes "cpu_ok s" and "0 < ncli (cur s)" and "p_kstack (procs s i) \<noteq> 0" and "p_pgdir (procs s i) \<noteq> 0"
  shows "switchuvm (Some i) s = Inr (upd_cpu (this_cpu s) (uvm_cpu (procs s i)) s)"
proof -
  let ?p = "procs s i" and ?t = "upd_cpu (this_cpu s) (uvm_cpu (procs s i)) (pushed s)"
  have wf: "cpus_wf s" and c: "cli_ok (cur s)" using assms(1) by (simp_all add: cpu_ok_def)
  have "mycpu (pushed s) = Inr (this_cpu s)" using wf by (subst mycpu_wf) simp_all
  moreover have "cpu_ok ?t" using wf c by (simp add: cpu_ok_def cli_ok_def)
  then have "popcli ?t = Inr (popped ?t)" by (rule popcli_eq) (use assms(2) in simp)
  moreover have "pop_cpu (uvm_cpu ?p (push_cpu (cur s))) = uvm_cpu ?p (cur s)"
    using assms(2) c by (simp add: pop_cpu_def push_cpu_def uvm_cpu_def cli_ok_def)
  then have "popped ?t = upd_cpu (this_cpu s) (uvm_cpu ?p) s"
    by (simp add: upd_cpu_def)
  ultimately show ?thesis
    using assms(3,4) by (simp add: switchuvm_def Let_def pushcli_eq [OF wf])
qed

lemma quiet_switchuvm [quiet_intros]: "switchuvm p s = Inr t \<Longrightarrow> quiet s t"
  by (auto simp: switchuvm_def Let_def res_iff split: option.splits
      dest!: quiet_pushcli quiet_popcli intro: quiet_trans [OF _ quiet_trans [OF quiet_upd_cpu]])

lemma sched_enter_eq:
  assumes "cpu_ok s" and "0 < ncli (cur s)"
  shows "sched_enter s =
    (if \<not> holds L_ptable s then Inl (Panic ''sched ptable.lock'')
     else if ncli (cur s) \<noteq> 1 then Inl (Panic ''sched locks'')
     else case cpu_proc (cur s) of
        None \<Rightarrow> Inl (Undefined ''null pointer'')
      | Some p \<Rightarrow> if p_state (procs s p) = RUNNING then Inl (Panic ''sched running'')
                  else Inr (intena (cur s), s))"
proof -
  have "mycpu s = Inr (this_cpu s)" "\<not> IF_flag (cur s)"
    using assms by (auto simp: mycpu_wf cpu_ok_def cli_ok_def)
  then show ?thesis
    by (simp add: sched_enter_def myproc_inside [OF assms] holding_inside [OF assms] deref_def
        split: option.split)
qed

end
