(* ===== verification/Scheduler.thy ===== *)
theory Scheduler
  imports Proc
begin

text \<open>
  The per-CPU scheduler of \<open>proc.c\<close> under its four policies: \<open>DEFAULT\<close> (round robin), \<open>FCFS\<close>,
  \<open>PBS\<close> (priorities) and \<open>MLFQ\<close>. The scheduler takes a schedule: the function at its head is what
  happens in the next window, either while interrupts are enabled at the top of the loop or
  between the switch to a process and the switch back. An observation ends when the schedule is
  used up: the scheduler is at the top of its loop (\<open>Window\<close>) or has switched to a process
  (\<open>Running\<close>). Since a schedule may be cut at any point, a statement about all observations that
  end in \<open>Running p\<close> is one about every dispatch of every run.
\<close>

section \<open>The code\<close>

datatype 's obs = Window 's | Running nat 's

text \<open>The outcome of part of the loop: it goes on, or the observation has ended.\<close>

datatype 's part = Next 's "'s sched" | Stop "'s obs"

definition pbnd :: "'s part res \<Rightarrow> ('s \<Rightarrow> 's sched \<Rightarrow> 's part res) \<Rightarrow> 's part res" where
  "pbnd m f = bnd m (\<lambda>r. case r of Next s es \<Rightarrow> f s es | Stop ob \<Rightarrow> Inr (Stop ob))"

definition set_proc :: "nat \<Rightarrow> nat option \<Rightarrow> 'a machine_scheme \<Rightarrow> 'a machine_scheme" where
  "set_proc c p s = upd_cpu c (\<lambda>x. x\<lparr>cpu_proc := p\<rparr>) s"

text \<open>The messages the policies print when they dispatch a process.\<close>

definition dispatch_msg :: "policy \<Rightarrow> nat \<Rightarrow> 'a ptable_scheme \<Rightarrow> 'a ptable_scheme res" where
  "dispatch_msg pol p s =
     (let x = procs s p; name = Astr (Some (p_name x)); pd = Aint (p_pid x)
      in case pol of
        DEFAULT \<Rightarrow> cprintf (''Round Robin: Process %s with pid %d scheduled to run'' @ nl) [name, pd] s
      | FCFS \<Rightarrow> cprintf (''FCFS: Process %s with pid %d scheduled to run'' @ nl) [name, pd] s
      | PBS \<Rightarrow> cprintf (''PBS: Process %s with pid %d and priority %d scheduled to run'' @ nl)
                 [name, pd, Aint (p_priority x)] s
      | MLFQ \<Rightarrow> cprintf (''%d : MLFQ: Process %s with pid %d scheduled to run in queue %d rtime %d wtime %d'' @ nl)
                 [Aint (ticks s), name, pd, Aint (of_nat (p_qno x)), Aint (p_rtime x),
                  Aint (ticks s - p_rtime x - p_ctime x - p_aging_time x)] s)"

text \<open>From the choice of a process to the switch; MLFQ counts the dispatch.\<close>

definition dispatch :: "policy \<Rightarrow> nat \<Rightarrow> nat \<Rightarrow> 'a ptable_scheme \<Rightarrow> 'a ptable_scheme res" where
  "dispatch pol c p s =
     bnd (switchuvm (Some p) (set_proc c (Some p) s)) (\<lambda>s.
       let s = (if pol = MLFQ
                then upd_proc p (\<lambda>x. x\<lparr>p_stat := (p_stat x)\<lparr>stat_num_run := stat_num_run (p_stat x) + 1\<rparr>\<rparr>) s
                else s)
       in dispatch_msg pol p (set_state p RUNNING s))"

text \<open>\<open>swtch\<close> to the process and, when it switches back, \<open>switchkvm\<close>.\<close>

definition run_proc :: "policy \<Rightarrow> nat \<Rightarrow> nat \<Rightarrow> 'a ptable_scheme \<Rightarrow> 'a ptable_scheme sched \<Rightarrow>
    'a ptable_scheme part res" where
  "run_proc pol c p s es =
     bnd (dispatch pol c p s) (\<lambda>s.
       case es of [] \<Rightarrow> Inr (Stop (Running p s)) | e # es \<Rightarrow> Inr (Next (switchkvm (e s)) es))"

abbreviation runnable :: "'a ptable_scheme \<Rightarrow> nat \<Rightarrow> bool" where
  "runnable s p \<equiv> p_state (procs s p) = RUNNABLE"

subsection \<open>Round robin\<close>

fun default_loop :: "nat \<Rightarrow> nat list \<Rightarrow> 'a ptable_scheme \<Rightarrow> 'a ptable_scheme sched \<Rightarrow>
    'a ptable_scheme part res" where
  "default_loop c [] s es = Inr (Next s es)"
| "default_loop c (p # ps) s es =
     (if \<not> runnable s p then default_loop c ps s es
      else pbnd (run_proc DEFAULT c p s es) (\<lambda>s es. default_loop c ps (set_proc c None s) es))"

subsection \<open>First come first served\<close>

text \<open>The loop keeps the chosen process and its creation time, if there is one.\<close>

fun fcfs_pick :: "nat list \<Rightarrow> (nat \<times> uint) option \<Rightarrow> 'a ptable_scheme \<Rightarrow> (nat \<times> uint) option" where
  "fcfs_pick [] best s = best"
| "fcfs_pick (p # ps) best s =
     (if \<not> runnable s p then fcfs_pick ps best s
      else let t = p_ctime (procs s p)
           in case best of
                None \<Rightarrow> fcfs_pick ps (Some (p, t)) s
              | Some (q, mintm) \<Rightarrow>
                  if sint t < sint mintm then fcfs_pick ps (Some (p, t)) s
                  else fcfs_pick ps best s)"

definition fcfs_round :: "nat \<Rightarrow> 'a ptable_scheme \<Rightarrow> 'a ptable_scheme sched \<Rightarrow>
    'a ptable_scheme part res" where
  "fcfs_round c s es =
     (case fcfs_pick [0..<NPROC] None s of
        None \<Rightarrow> Inr (Next s es)
      | Some (q, _) \<Rightarrow> pbnd (run_proc FCFS c q s es) (\<lambda>s es. Inr (Next (set_proc c None s) es)))"

subsection \<open>Priorities\<close>

text \<open>The smallest priority of a runnable process, starting from a bound.\<close>

fun pbs_min :: "nat list \<Rightarrow> int \<Rightarrow> 'a ptable_scheme \<Rightarrow> int" where
  "pbs_min [] m s = m"
| "pbs_min (p # ps) m s =
     (if runnable s p \<and> sint (p_priority (procs s p)) < m
      then pbs_min ps (sint (p_priority (procs s p))) s else pbs_min ps m s)"

text \<open>
  The \<open>break\<close> after a process that found a more urgent one leaves \<open>c->proc\<close> as it is.
\<close>

fun pbs_loop :: "nat \<Rightarrow> nat list \<Rightarrow> int \<Rightarrow> 'a ptable_scheme \<Rightarrow> 'a ptable_scheme sched \<Rightarrow>
    'a ptable_scheme part res" where
  "pbs_loop c [] mxprt s es = Inr (Next s es)"
| "pbs_loop c (p # ps) mxprt s es =
     (if runnable s p \<and> mxprt = sint (p_priority (procs s p))
      then pbnd (run_proc PBS c p s es) (\<lambda>s es.
             if pbs_min [0..<NPROC] 101 s < mxprt then Inr (Next s es)
             else pbs_loop c ps mxprt (set_proc c None s) es)
      else pbs_loop c ps mxprt s es)"

definition pbs_round :: "nat \<Rightarrow> 'a ptable_scheme \<Rightarrow> 'a ptable_scheme sched \<Rightarrow>
    'a ptable_scheme part res" where
  "pbs_round c s es = pbs_loop c [0..<NPROC] (pbs_min [0..<NPROC] 200 s) s es"

subsection \<open>Multi-level feedback queue\<close>

text \<open>The first runnable process of queue \<open>k\<close>, from position \<open>i\<close>, among \<open>n\<close> entries.\<close>

fun mlfq_find :: "nat \<Rightarrow> nat \<Rightarrow> nat \<Rightarrow> 'a ptable_scheme \<Rightarrow> ((nat \<times> nat) option) res" where
  "mlfq_find k i 0 s = Inr None"
| "mlfq_find k i (Suc n) s =
     bnd (qget k (int i) s) (\<lambda>po. bnd (deref po) (\<lambda>p.
       if \<not> runnable s p then mlfq_find k (Suc i) n s else Inr (Some (i, p))))"

fun mlfq_loop :: "nat \<Rightarrow> nat list \<Rightarrow> 'a ptable_scheme \<Rightarrow> 'a ptable_scheme sched \<Rightarrow>
    'a ptable_scheme part res" where
  "mlfq_loop c [] s es = Inr (Next s es)"
| "mlfq_loop c (k # ks) s es =
     bnd (mlfq_find k 0 (nat (cnt s k)) s) (\<lambda>r. case r of
         None \<Rightarrow> mlfq_loop c ks s es
       | Some (i, p) \<Rightarrow>
           pbnd (run_proc MLFQ c p (s\<lparr>qbeg := (qbeg s)(k := int i)\<rparr>) es) (\<lambda>s es.
           Inr (Next (set_proc c None s) es)))"

subsection \<open>The scheduler\<close>

definition sched_body :: "policy \<Rightarrow> nat \<Rightarrow> 'a ptable_scheme \<Rightarrow> 'a ptable_scheme sched \<Rightarrow>
    'a ptable_scheme part res" where
  "sched_body pol c s es =
     (case pol of
        DEFAULT \<Rightarrow> default_loop c [0..<NPROC] s es
      | FCFS \<Rightarrow> fcfs_round c s es
      | PBS \<Rightarrow> pbs_round c s es
      | MLFQ \<Rightarrow> mlfq_loop c [0, 1, 2, 3, 4] s es)"

text \<open>One round of \<open>for(;;)\<close>: the window after \<open>sti\<close>, the lock, the policy, the release.\<close>

definition sched_round :: "policy \<Rightarrow> nat \<Rightarrow> 'a ptable_scheme \<Rightarrow> 'a ptable_scheme sched \<Rightarrow>
    'a ptable_scheme part res" where
  "sched_round pol c s es =
     (case es of
        [] \<Rightarrow> Inr (Stop (Window (sti s)))
      | e # es \<Rightarrow>
          bnd (acquire L_ptable (e (sti s))) (\<lambda>s.
          pbnd (sched_body pol c s es) (\<lambda>s es.
          bnd (release L_ptable s) (\<lambda>s. Inr (Next s es)))))"

section \<open>Runs of the scheduler\<close>

lemma pbnd_Next_iff [res_iff]:
  "pbnd m f = Inr (Next t es) \<longleftrightarrow> (\<exists>s fs. m = Inr (Next s fs) \<and> f s fs = Inr (Next t es))"
  by (cases m) (auto simp: pbnd_def split: part.split)

lemma pbnd_Stop_iff [res_iff]:
  "pbnd m f = Inr (Stop ob) \<longleftrightarrow>
     m = Inr (Stop ob) \<or> (\<exists>s fs. m = Inr (Next s fs) \<and> f s fs = Inr (Stop ob))"
  by (cases m) (auto simp: pbnd_def split: part.split)

lemma run_proc_Stop_iff [res_iff]:
  "run_proc pol c p s es = Inr (Stop ob) \<longleftrightarrow>
     es = [] \<and> (\<exists>t. dispatch pol c p s = Inr t \<and> ob = Running p t)"
  by (cases es) (auto simp: run_proc_def bnd_Inr_iff)

lemma run_proc_Next_iff [res_iff]:
  "run_proc pol c p s es = Inr (Next t fs) \<longleftrightarrow>
     (\<exists>e u. es = e # fs \<and> dispatch pol c p s = Inr u \<and> t = switchkvm (e u))"
  by (cases es) (auto simp: run_proc_def bnd_Inr_iff)

lemma default_loop_length:
  "default_loop c ps s es = Inr (Next t fs) \<Longrightarrow> length fs \<le> length es"
proof (induction ps arbitrary: s es)
  case Nil
  then show ?case by simp
next
  case (Cons p ps)
  show ?case
  proof (cases "runnable s p")
    case True
    with Cons.prems obtain e es' u where "es = e # es'" "default_loop c ps u es' = Inr (Next t fs)"
      by (auto simp: res_iff)
    with Cons.IH show ?thesis by fastforce
  next
    case False
    with Cons show ?thesis by simp
  qed
qed

lemma pbs_loop_length:
  "pbs_loop c ps m s es = Inr (Next t fs) \<Longrightarrow> length fs \<le> length es"
proof (induction ps arbitrary: s es)
  case Nil
  then show ?case by simp
next
  case (Cons p ps)
  show ?case
  proof (cases "runnable s p \<and> m = sint (p_priority (procs s p))")
    case True
    with Cons.prems obtain e es' u where "es = e # es'"
        "es' = fs \<or> pbs_loop c ps m u es' = Inr (Next t fs)"
      by (auto simp: res_iff split: if_splits)
    with Cons.IH show ?thesis by fastforce
  next
    case False
    with Cons show ?thesis by auto
  qed
qed

lemma mlfq_loop_length:
  "mlfq_loop c ks s es = Inr (Next t fs) \<Longrightarrow> length fs \<le> length es"
proof (induction ks)
  case Nil
  then show ?case by simp
next
  case (Cons k ks)
  then obtain r where r: "mlfq_find k 0 (nat (cnt s k)) s = Inr r" by (auto simp: bnd_Inr_iff)
  with Cons show ?case by (cases r) (auto simp: res_iff)
qed

lemma sched_body_length:
  "sched_body pol c s es = Inr (Next t fs) \<Longrightarrow> length fs \<le> length es"
  by (cases pol)
    (auto simp: sched_body_def fcfs_round_def pbs_round_def res_iff
      dest: default_loop_length pbs_loop_length mlfq_loop_length split: option.splits prod.splits)

lemma sched_round_length:
  "sched_round pol c s es = Inr (Next t fs) \<Longrightarrow> length fs < length es"
  by (cases es) (auto simp: sched_round_def res_iff dest: sched_body_length)

function scheduler_loop :: "policy \<Rightarrow> nat \<Rightarrow> 'a ptable_scheme \<Rightarrow> 'a ptable_scheme sched \<Rightarrow>
    'a ptable_scheme obs res" where
  "scheduler_loop pol c s es =
     bnd (sched_round pol c s es) (\<lambda>r. case r of
       Stop ob \<Rightarrow> Inr ob | Next s fs \<Rightarrow> scheduler_loop pol c s fs)"
  by pat_completeness auto
termination
  by (relation "measure (\<lambda>(pol, c, s, es). length es)") (auto dest: sched_round_length)

declare scheduler_loop.simps [simp del]

definition scheduler :: "policy \<Rightarrow> 'a ptable_scheme \<Rightarrow> 'a ptable_scheme sched \<Rightarrow>
    'a ptable_scheme obs res" where
  "scheduler pol s es = bnd (mycpu s) (\<lambda>c. scheduler_loop pol c (set_proc c None s) es)"

section \<open>What a dispatch does\<close>

definition dispatched :: "policy \<Rightarrow> proc \<Rightarrow> proc" where
  "dispatched pol x =
     (if pol = MLFQ then x\<lparr>p_stat := (p_stat x)\<lparr>stat_num_run := stat_num_run (p_stat x) + 1\<rparr>\<rparr> else x)
     \<lparr>p_state := RUNNING\<rparr>"

lemma dispatched_simps [simp]:
  "p_state (dispatched pol x) = RUNNING" "p_ctime (dispatched pol x) = p_ctime x"
  "p_priority (dispatched pol x) = p_priority x" "p_qno (dispatched pol x) = p_qno x"
  "p_kstack (dispatched pol x) = p_kstack x" "p_pgdir (dispatched pol x) = p_pgdir x"
  by (simp_all add: dispatched_def)

lemma quiet_set_proc [quiet_intros]: "quiet s (set_proc c p s)"
  by (simp add: set_proc_def quiet_upd_cpu)

lemma quiet_dispatch_msg [quiet_intros]: "dispatch_msg pol p s = Inr t \<Longrightarrow> quiet s t"
  by (cases pol) (auto simp: dispatch_msg_def Let_def intro: quiet_cprintf)

lemma dispatch_effect:
  assumes "dispatch pol c p s = Inr t"
  shows "procs t = (procs s)(p := dispatched pol (procs s p))" "mlfq t = mlfq s" "cnt t = cnt s"
proof -
  obtain u where u: "switchuvm (Some p) (set_proc c (Some p) s) = Inr u"
      "dispatch_msg pol p (set_state p RUNNING (if pol = MLFQ
        then upd_proc p (\<lambda>x. x\<lparr>p_stat := (p_stat x)\<lparr>stat_num_run := stat_num_run (p_stat x) + 1\<rparr>\<rparr>) u
        else u)) = Inr t"
    using assms by (auto simp: dispatch_def Let_def res_iff)
  note q = quiet_trans [OF quiet_set_proc quiet_switchuvm [OF u(1)]] quiet_dispatch_msg [OF u(2)]
  show "procs t = (procs s)(p := dispatched pol (procs s p))" "mlfq t = mlfq s" "cnt t = cnt s"
    using quiet_ptable [OF q(1)] quiet_ptable [OF q(2)]
    by (auto simp: dispatched_def fun_eq_iff)
qed

section \<open>The contract of a scheduling policy\<close>

text \<open>
  A policy promises that whatever it dispatches is, at the switch, the right choice; then so is
  everything the scheduler of a CPU ever dispatches, whatever happens in between.
\<close>

locale policy_contract =
  fixes pol :: policy and right :: "'a ptable_scheme \<Rightarrow> nat \<Rightarrow> bool"
  assumes body_right: "sched_body pol c s es = Inr (Stop ob) \<Longrightarrow> \<exists>p t. ob = Running p t \<and> right t p"
begin

lemma round_right: "sched_round pol c s es = Inr (Stop (Running p t)) \<Longrightarrow> right t p"
  by (cases es) (auto simp: sched_round_def res_iff dest: body_right)

lemma loop_right: "scheduler_loop pol c s es = Inr (Running p t) \<Longrightarrow> right t p"
proof (induction es arbitrary: s rule: length_induct)
  case (1 es)
  obtain r where r: "sched_round pol c s es = Inr r"
    using 1 by (subst (asm) scheduler_loop.simps) (auto simp: bnd_Inr_iff)
  show ?case
  proof (cases r)
    case (Next u fs)
    with 1 r have "scheduler_loop pol c u fs = Inr (Running p t)"
      by (subst (asm) scheduler_loop.simps) simp
    with 1 sched_round_length [of pol c s es u fs] r Next show ?thesis by blast
  next
    case (Stop ob)
    with 1 r have "ob = Running p t" by (subst (asm) scheduler_loop.simps) simp
    with r Stop round_right show ?thesis by blast
  qed
qed

lemma scheduler_right: "scheduler pol s es = Inr (Running p t) \<Longrightarrow> right t p"
  by (auto simp: scheduler_def bnd_Inr_iff dest: loop_right)

end

subsection \<open>Round robin\<close>

definition rr_right :: "'a ptable_scheme \<Rightarrow> nat \<Rightarrow> bool" where
  "rr_right t p \<longleftrightarrow> p < NPROC \<and> p_state (procs t p) = RUNNING"

lemma default_loop_right:
  "default_loop c ps s es = Inr (Stop ob) \<Longrightarrow> set ps \<subseteq> {..<NPROC} \<Longrightarrow>
     \<exists>p t. ob = Running p t \<and> rr_right t p"
proof (induction ps arbitrary: s es)
  case Nil
  then show ?case by simp
next
  case (Cons p ps)
  show ?case
  proof (cases "runnable s p")
    case True
    with Cons.prems(1) consider
        u where "dispatch DEFAULT c p s = Inr u" "ob = Running p u"
      | u es' where "default_loop c ps u es' = Inr (Stop ob)"
      by (auto simp: res_iff)
    then show ?thesis
      by cases (use Cons in \<open>auto simp: rr_right_def dispatch_effect(1)\<close>)
  next
    case False
    with Cons show ?thesis by simp
  qed
qed

subsection \<open>First come first served\<close>

text \<open>The chosen process is older than every runnable one, the first in the table among equals.\<close>

definition fcfs_right :: "'a ptable_scheme \<Rightarrow> nat \<Rightarrow> bool" where
  "fcfs_right t p \<longleftrightarrow> p < NPROC \<and> p_state (procs t p) = RUNNING \<and>
     (\<forall>q<NPROC. runnable t q \<longrightarrow>
        sint (p_ctime (procs t p)) < sint (p_ctime (procs t q)) \<or>
        p_ctime (procs t p) = p_ctime (procs t q) \<and> p < q)"

definition older :: "'a ptable_scheme \<Rightarrow> nat \<Rightarrow> nat \<Rightarrow> bool" where
  "older s p q \<longleftrightarrow> sint (p_ctime (procs s p)) < sint (p_ctime (procs s q)) \<or>
     p_ctime (procs s p) = p_ctime (procs s q) \<and> p \<le> q"

lemma older_trans: "older s p q \<Longrightarrow> older s q r \<Longrightarrow> older s p r"
  by (auto simp: older_def)

lemma older_refl: "older s p p"
  by (simp add: older_def)

lemma not_younger: "\<not> sint (p_ctime (procs s q)) < sint (p_ctime (procs s p)) \<Longrightarrow> p < q \<Longrightarrow> older s p q"
  by (cases "sint (p_ctime (procs s p)) = sint (p_ctime (procs s q))")
    (auto simp: older_def signed_word_eqI)

lemma fcfs_pick_best:
  assumes "fcfs_pick ps best s = Some (p, m)" and "sorted_wrt (<) ps"
    and "\<And>q n. best = Some (q, n) \<Longrightarrow> n = p_ctime (procs s q) \<and> runnable s q \<and> (\<forall>x\<in>set ps. q < x)"
  shows "runnable s p \<and> m = p_ctime (procs s p) \<and> (p \<in> set ps \<or> best = Some (p, m)) \<and>
    (\<forall>q\<in>set ps. runnable s q \<longrightarrow> older s p q) \<and> (\<forall>q n. best = Some (q, n) \<longrightarrow> older s p q)"
  using assms
proof (induction ps arbitrary: best)
  case Nil
  then show ?case by (simp add: older_def)
next
  case (Cons x ps)
  let ?t = "p_ctime (procs s x)"
  show ?case
  proof (cases "runnable s x")
    case False
    with Cons show ?thesis by auto
  next
    case True
    consider (new) "best = None \<or> (\<exists>q n. best = Some (q, n) \<and> sint ?t < sint n)"
      | (old) q n where "best = Some (q, n)" "\<not> sint ?t < sint n"
      by (cases best) auto
    then show ?thesis
    proof cases
      case new
      then have "fcfs_pick ps (Some (x, ?t)) s = Some (p, m)" using True Cons.prems(1) by auto
      then have "runnable s p \<and> m = p_ctime (procs s p) \<and> (p \<in> set ps \<or> Some (x, ?t) = Some (p, m)) \<and>
          (\<forall>q\<in>set ps. runnable s q \<longrightarrow> older s p q) \<and>
          (\<forall>q n. Some (x, ?t) = Some (q, n) \<longrightarrow> older s p q)"
        by (rule Cons.IH) (use Cons.prems(2) True in simp_all)
      then have p: "runnable s p" "m = p_ctime (procs s p)" "p \<in> set ps \<or> p = x"
          "\<forall>q\<in>set ps. runnable s q \<longrightarrow> older s p q" "older s p x"
        by blast+
      have "older s p q" if "best = Some (q, n)" for q n
      proof -
        have "older s x q" using new that Cons.prems(3) [OF that] by (simp add: older_def)
        with p(5) show ?thesis by (rule older_trans)
      qed
      with p show ?thesis by auto
    next
      case old
      then have "fcfs_pick ps best s = Some (p, m)" using True Cons.prems(1) by auto
      then have "runnable s p \<and> m = p_ctime (procs s p) \<and> (p \<in> set ps \<or> best = Some (p, m)) \<and>
          (\<forall>q\<in>set ps. runnable s q \<longrightarrow> older s p q) \<and> (\<forall>q n. best = Some (q, n) \<longrightarrow> older s p q)"
        by (rule Cons.IH) (use Cons.prems(2,3) in auto)
      then have p: "runnable s p" "m = p_ctime (procs s p)" "p \<in> set ps \<or> best = Some (p, m)"
          "\<forall>q\<in>set ps. runnable s q \<longrightarrow> older s p q" "\<forall>q n. best = Some (q, n) \<longrightarrow> older s p q"
        by blast+
      have "older s q x" using old Cons.prems(3) [OF old(1)] by (intro not_younger) auto
      with p old(1) have "older s p x" using older_trans by blast
      with p show ?thesis by auto
    qed
  qed
qed

lemma fcfs_round_right:
  assumes "fcfs_round c s es = Inr (Stop ob)"
  shows "\<exists>p t. ob = Running p t \<and> fcfs_right t p"
proof -
  obtain p m t where p: "fcfs_pick [0..<NPROC] None s = Some (p, m)" "ob = Running p t"
      "dispatch FCFS c p s = Inr t"
    using assms by (auto simp: fcfs_round_def res_iff split: option.splits prod.splits)
  have "runnable s p \<and> m = p_ctime (procs s p) \<and> (p \<in> set [0..<NPROC] \<or> (None :: (nat \<times> uint) option) = Some (p, m)) \<and>
      (\<forall>q\<in>set [0..<NPROC]. runnable s q \<longrightarrow> older s p q) \<and>
      (\<forall>q n. (None :: (nat \<times> uint) option) = Some (q, n) \<longrightarrow> older s p q)"
    by (rule fcfs_pick_best [OF p(1)]) simp_all
  then have "fcfs_right t p"
    by (auto simp: fcfs_right_def older_def dispatch_effect(1) [OF p(3)] order_le_less)
  with p(2) show ?thesis by blast
qed

subsection \<open>Priorities\<close>

text \<open>No runnable process is more urgent; the policy serves priorities up to 200.\<close>

definition pbs_right :: "'a ptable_scheme \<Rightarrow> nat \<Rightarrow> bool" where
  "pbs_right t p \<longleftrightarrow> p < NPROC \<and> p_state (procs t p) = RUNNING \<and> sint (p_priority (procs t p)) \<le> 200 \<and>
     (\<forall>q<NPROC. runnable t q \<longrightarrow> sint (p_priority (procs t p)) \<le> sint (p_priority (procs t q)))"

lemma pbs_min_le:
  "pbs_min ps m s \<le> m \<and> (\<forall>q\<in>set ps. runnable s q \<longrightarrow> pbs_min ps m s \<le> sint (p_priority (procs s q)))"
proof (induction ps arbitrary: m)
  case Nil
  then show ?case by simp
next
  case (Cons p ps)
  show ?case
    using Cons [of m] Cons [of "sint (p_priority (procs s p))"]
    by (auto simp: not_less intro: order_trans less_imp_le)
qed

lemma pbs_loop_right:
  "pbs_loop c ps m s es = Inr (Stop ob) \<Longrightarrow> set ps \<subseteq> {..<NPROC} \<Longrightarrow> m \<le> 200 \<Longrightarrow>
     (\<forall>q<NPROC. runnable s q \<longrightarrow> m \<le> sint (p_priority (procs s q))) \<Longrightarrow>
     \<exists>p t. ob = Running p t \<and> pbs_right t p"
proof (induction ps arbitrary: s es)
  case Nil
  then show ?case by simp
next
  case (Cons p ps)
  show ?case
  proof (cases "runnable s p \<and> m = sint (p_priority (procs s p))")
    case True
    with Cons.prems(1) consider
        u where "dispatch PBS c p s = Inr u" "ob = Running p u"
      | u es' where "pbs_loop c ps m (set_proc c None u) es' = Inr (Stop ob)"
          "\<not> pbs_min [0..<NPROC] 101 u < m"
      by (auto simp: res_iff split: if_splits)
    then show ?thesis
    proof cases
      case 1
      with True Cons.prems show ?thesis by (auto simp: pbs_right_def dispatch_effect(1))
    next
      case 2
      have "\<forall>q<NPROC. runnable u q \<longrightarrow> m \<le> sint (p_priority (procs u q))"
        using pbs_min_le [of "[0..<NPROC]" 101 u] 2(2) by force
      with Cons.IH [OF 2(1)] Cons.prems show ?thesis by (simp add: set_proc_def)
    qed
  next
    case False
    then have "pbs_loop c ps m s es = Inr (Stop ob)" using Cons.prems(1) by auto
    with Cons.IH Cons.prems show ?thesis by simp
  qed
qed

lemma pbs_round_right:
  "pbs_round c s es = Inr (Stop ob) \<Longrightarrow> \<exists>p t. ob = Running p t \<and> pbs_right t p"
  unfolding pbs_round_def using pbs_min_le [of "[0..<NPROC]" 200 s]
  by (elim pbs_loop_right) auto

subsection \<open>Multi-level feedback queue\<close>

text \<open>No runnable process stands in a higher queue, nor before the chosen one in its own.\<close>

abbreviation waiting_at :: "'a ptable_scheme \<Rightarrow> nat \<Rightarrow> nat \<Rightarrow> bool" where
  "waiting_at s k i \<equiv> \<exists>q. mlfq s k i = Some q \<and> runnable s q"

definition mlfq_right :: "'a ptable_scheme \<Rightarrow> nat \<Rightarrow> bool" where
  "mlfq_right t p \<longleftrightarrow> p_state (procs t p) = RUNNING \<and>
     (\<exists>k<5. \<exists>i<nat (cnt t k). mlfq t k i = Some p \<and> (\<forall>j<i. \<not> waiting_at t k j) \<and>
        (\<forall>h<k. \<forall>j<nat (cnt t h). \<not> waiting_at t h j))"

lemma mlfq_find_Suc:
  "mlfq_find k i (Suc n) s = Inr r \<longleftrightarrow> i < QSIZE \<and> (\<exists>p. mlfq s k i = Some p \<and>
     (if runnable s p then r = Some (i, p) else mlfq_find k (Suc i) n s = Inr r))"
  by (cases "mlfq s k i") (auto simp: qget_def deref_def)

lemma mlfq_find_None:
  "mlfq_find k i n s = Inr None \<Longrightarrow> i \<le> j \<Longrightarrow> j < i + n \<Longrightarrow> \<not> waiting_at s k j"
proof (induction n arbitrary: i)
  case 0
  then show ?case by simp
next
  case (Suc n)
  then obtain p where "mlfq s k i = Some p" "\<not> runnable s p" "mlfq_find k (Suc i) n s = Inr None"
    unfolding mlfq_find_Suc by (auto split: if_splits)
  with Suc.IH [of "Suc i"] Suc.prems show ?case by (cases "j = i") auto
qed

lemma mlfq_find_Some:
  "mlfq_find k i n s = Inr (Some (m, p)) \<Longrightarrow>
     i \<le> m \<and> m < i + n \<and> mlfq s k m = Some p \<and> runnable s p \<and> (\<forall>j. i \<le> j \<and> j < m \<longrightarrow> \<not> waiting_at s k j)"
proof (induction n arbitrary: i)
  case 0
  then show ?case by simp
next
  case (Suc n)
  then obtain q where q: "mlfq s k i = Some q"
      "if runnable s q then Some (m, p) = Some (i, q) else mlfq_find k (Suc i) n s = Inr (Some (m, p))"
    unfolding mlfq_find_Suc by blast
  show ?case
  proof (cases "runnable s q")
    case True
    with q show ?thesis by auto
  next
    case False
    with q Suc.IH [of "Suc i"] have
      IH: "Suc i \<le> m \<and> m < Suc i + n \<and> mlfq s k m = Some p \<and> runnable s p \<and>
        (\<forall>j. Suc i \<le> j \<and> j < m \<longrightarrow> \<not> waiting_at s k j)" by simp
    have "\<not> waiting_at s k j" if "i \<le> j" "j < m" for j
    proof (cases "j = i")
      case True
      with q(1) False show ?thesis by auto
    next
      case False
      with that have "Suc i \<le> j \<and> j < m" by simp
      with IH show ?thesis by blast
    qed
    with IH show ?thesis by auto
  qed
qed

lemma mlfq_loop_right:
  assumes "mlfq_loop c ks s es = Inr (Stop ob)" and "[0..<5] = hs @ ks"
    and "\<forall>h\<in>set hs. \<forall>j<nat (cnt s h). \<not> waiting_at s h j"
  shows "\<exists>p t. ob = Running p t \<and> mlfq_right t p"
  using assms
proof (induction ks arbitrary: hs)
  case Nil
  then show ?case by simp
next
  case (Cons k ks)
  have k: "k < 5" using arg_cong [OF Cons.prems(2), of set] by auto
  have below: "h \<in> set hs" if "h < k" for h
  proof -
    have "sorted_wrt (<) (hs @ k # ks)" unfolding Cons.prems(2) [symmetric] by simp
    moreover have "h \<in> set (hs @ k # ks)" unfolding Cons.prems(2) [symmetric] using that k by simp
    ultimately show ?thesis using that by (auto simp: sorted_wrt_append)
  qed
  from Cons.prems(1) obtain r where r: "mlfq_find k 0 (nat (cnt s k)) s = Inr r"
    by (auto simp: bnd_Inr_iff)
  show ?case
  proof (cases r)
    case None
    with r Cons.prems(1) have "mlfq_loop c ks s es = Inr (Stop ob)" by simp
    then show ?thesis
    proof (rule Cons.IH)
      show "\<forall>h\<in>set (hs @ [k]). \<forall>j<nat (cnt s h). \<not> waiting_at s h j"
        using Cons.prems(3) mlfq_find_None [OF r [unfolded None]] by auto
    qed (use Cons.prems(2) in simp)
  next
    case (Some ip)
    then obtain i p where ip: "r = Some (i, p)" by (cases ip) auto
    let ?s = "s\<lparr>qbeg := (qbeg s)(k := int i)\<rparr>"
    from ip r Cons.prems(1) obtain t where t: "dispatch MLFQ c p ?s = Inr t" "ob = Running p t"
      by (auto simp: res_iff)
    note find = mlfq_find_Some [OF r [unfolded ip]]
    have wait: "waiting_at t h j \<Longrightarrow> waiting_at s h j" for h j
      using dispatch_effect [OF t(1)] by (auto split: if_splits)
    have "\<not> waiting_at t h j" if "h < k" "j < nat (cnt t h)" for h j
    proof
      assume "waiting_at t h j"
      with wait have "waiting_at s h j" by blast
      with Cons.prems(3) below [OF \<open>h < k\<close>] \<open>j < nat (cnt t h)\<close> show False
        unfolding dispatch_effect(3) [OF t(1)] by auto
    qed
    moreover have "\<not> waiting_at t k j" if "j < i" for j using find wait that by blast
    moreover have "i < nat (cnt t k)" "mlfq t k i = Some p" "p_state (procs t p) = RUNNING"
      using find dispatch_effect [OF t(1)] by auto
    ultimately have "mlfq_right t p" using k unfolding mlfq_right_def by blast
    with t(2) show ?thesis by blast
  qed
qed

lemma mlfq_body_right:
  assumes "sched_body MLFQ c s es = Inr (Stop ob)"
  shows "\<exists>p t. ob = Running p t \<and> mlfq_right t p"
proof (rule mlfq_loop_right [where hs = "[]"])
  show "mlfq_loop c [0, 1, 2, 3, 4] s es = Inr (Stop ob)"
    using assms by (simp only: sched_body_def policy.case)
  show "[0..<5] = [] @ [0, 1, 2, 3, 4]" by (simp add: upt_conv_Cons)
qed simp

subsection \<open>The four policies keep the contract\<close>

interpretation rr: policy_contract DEFAULT rr_right
  by unfold_locales (rule default_loop_right, simp only: sched_body_def policy.case, auto)

interpretation fcfs: policy_contract FCFS fcfs_right
  by unfold_locales (rule fcfs_round_right, simp only: sched_body_def policy.case)

interpretation pbs: policy_contract PBS pbs_right
  by unfold_locales (rule pbs_round_right, simp only: sched_body_def policy.case)

interpretation mlf: policy_contract MLFQ mlfq_right
  by unfold_locales (rule mlfq_body_right)

text \<open>
  C20: Whatever happens in the windows of a run, every process that the FCFS scheduler switches to
  was created no later than each process still runnable at the switch; among equals it is the
  first in the table.
\<close>

theorem fcfs_dispatches_oldest:
  assumes "scheduler FCFS s es = Inr (Running p t)"
  shows "p < NPROC \<and> p_state (procs t p) = RUNNING \<and>
    (\<forall>q<NPROC. runnable t q \<longrightarrow>
       sint (p_ctime (procs t p)) < sint (p_ctime (procs t q)) \<or>
       p_ctime (procs t p) = p_ctime (procs t q) \<and> p < q)"
  using fcfs.scheduler_right [OF assms] by (simp add: fcfs_right_def)

text \<open>
  C21: Every process that the priority scheduler switches to, the first of a round and those that
  follow it, has the least priority number of all processes runnable at the switch, and a
  priority number of at most 200.
\<close>

theorem pbs_dispatches_most_urgent:
  assumes "scheduler PBS s es = Inr (Running p t)"
  shows "p < NPROC \<and> p_state (procs t p) = RUNNING \<and> sint (p_priority (procs t p)) \<le> 200 \<and>
    (\<forall>q<NPROC. runnable t q \<longrightarrow> sint (p_priority (procs t p)) \<le> sint (p_priority (procs t q)))"
  using pbs.scheduler_right [OF assms] by (simp add: pbs_right_def)

text \<open>
  C22: Every process that the MLFQ scheduler switches to stands in a queue such that no higher
  queue holds a runnable process, and before it in its own queue none is runnable.
\<close>

theorem mlfq_dispatches_highest:
  assumes "scheduler MLFQ s es = Inr (Running p t)"
  shows "p_state (procs t p) = RUNNING \<and>
    (\<exists>k<5. \<exists>i<nat (cnt t k). mlfq t k i = Some p \<and>
       (\<forall>j<i. \<forall>q. mlfq t k j = Some q \<longrightarrow> \<not> runnable t q) \<and>
       (\<forall>h<k. \<forall>j<nat (cnt t h). \<forall>q. mlfq t h j = Some q \<longrightarrow> \<not> runnable t q))"
  using mlf.scheduler_right [OF assms] by (simp add: mlfq_right_def)

section \<open>The scheduler does not fail\<close>

text \<open>
  What the policies rely on: a runnable process has a kernel stack and a page table, and the
  queues hold processes of the table within their bounds.
\<close>

definition table_ok :: "'a ptable_scheme \<Rightarrow> bool" where
  "table_ok s \<longleftrightarrow>
     (\<forall>p<NPROC. runnable s p \<longrightarrow> p_kstack (procs s p) \<noteq> 0 \<and> p_pgdir (procs s p) \<noteq> 0) \<and>
     (\<forall>k<5. cnt s k \<le> int QSIZE \<and> (\<forall>i<nat (cnt s k). \<exists>p<NPROC. mlfq s k i = Some p))"

text \<open>The state in which a CPU is inside its scheduler, with \<open>ptable.lock\<close>, or idle without it.\<close>

definition sched_ready :: "nat \<Rightarrow> 'a ptable_scheme \<Rightarrow> bool" where
  "sched_ready c s \<longleftrightarrow> this_cpu s = c \<and> con_ok s \<and> ncli (cpus s c) = 1 \<and>
     locked (locks s L_ptable) \<and> lcpu (locks s L_ptable) = Some c \<and> table_ok s"

definition sched_idle :: "nat \<Rightarrow> 'a ptable_scheme \<Rightarrow> bool" where
  "sched_idle c s \<longleftrightarrow> this_cpu s = c \<and> con_ok s \<and> ncli (cpus s c) = 0 \<and>
     free_lock L_ptable s \<and> table_ok s"

lemma table_ok_cong: "procs t = procs s \<Longrightarrow> mlfq t = mlfq s \<Longrightarrow> cnt t = cnt s \<Longrightarrow> table_ok t = table_ok s"
  by (simp add: table_ok_def)

lemma table_ok_run: "table_ok s \<Longrightarrow> table_ok (upd_proc p (dispatched pol) s)"
  by (auto simp: table_ok_def)

lemma con_ok_cong:
  assumes "cpu_ok t = cpu_ok s" "panicked t = panicked s" "con t = con s"
    "cons_locking t = cons_locking s" "locks t = locks s"
  shows "con_ok t = con_ok s"
  by (simp add: con_ok_def assms)

lemma cpu_ok_upd_cpu [simp]:
  "(\<And>c. apicid (f c) = apicid c \<and> ncli (f c) = ncli c \<and> IF_flag (f c) = IF_flag c) \<Longrightarrow>
     cpu_ok (upd_cpu i f s) = cpu_ok s"
  by (simp add: cpu_ok_def cli_ok_def)

lemma con_ok_upd_cpu [simp]:
  "(\<And>c. apicid (f c) = apicid c \<and> ncli (f c) = ncli c \<and> IF_flag (f c) = IF_flag c) \<Longrightarrow>
     con_ok (upd_cpu i f s) = con_ok s"
  by (rule con_ok_cong) simp_all

lemma con_ok_upd_proc [simp]: "con_ok (upd_proc p f s) = con_ok s"
  by (rule con_ok_cong) simp_all

lemma con_ok_con: "con_ok s \<Longrightarrow> condev_ok d \<Longrightarrow> con_ok (s\<lparr>con := d\<rparr>)"
  using cpu_ok_cong [of "s\<lparr>con := d\<rparr>" s] by (simp add: con_ok_def)

lemma dispatch_msg_ok:
  assumes "con_ok s" and "0 < ncli (cur s)"
  shows "con_step s (dispatch_msg pol p s)"
proof -
  have "fmt_ok (str (''Round Robin: Process %s with pid %d scheduled to run'' @ nl)) [Astr a, Aint b]"
    "fmt_ok (str (''FCFS: Process %s with pid %d scheduled to run'' @ nl)) [Astr a, Aint b]"
    "fmt_ok (str (''PBS: Process %s with pid %d and priority %d scheduled to run'' @ nl)) [Astr a, Aint b, Aint c]"
    "fmt_ok (str (''%d : MLFQ: Process %s with pid %d scheduled to run in queue %d rtime %d wtime %d'' @ nl))
       [Aint b, Astr a, Aint c, Aint d, Aint e, Aint f]" for a b c d e f
    by (simp_all add: str_def)
  with assms show ?thesis
    by (cases pol) (auto simp: dispatch_msg_def Let_def intro!: cprintf_inside)
qed

lemma dispatch_ready:
  assumes "sched_ready c s" and "p < NPROC" and "runnable s p"
  shows "\<exists>t. dispatch pol c p s = Inr t \<and> sched_ready c t \<and> cpu_proc (cur t) = Some p"
proof -
  have s: "this_cpu s = c" "con_ok s" "ncli (cpus s c) = 1" "locked (locks s L_ptable)"
      "lcpu (locks s L_ptable) = Some c" "table_ok s"
    using assms(1) by (simp_all add: sched_ready_def)
  let ?s1 = "set_proc c (Some p) s"
  let ?s2 = "upd_cpu c (uvm_cpu (procs s p)) ?s1"
  let ?s3 = "upd_proc p (dispatched pol) ?s2"
  have "switchuvm (Some p) ?s1 = Inr (upd_cpu (this_cpu ?s1) (uvm_cpu (procs ?s1 p)) ?s1)"
    by (rule switchuvm_eq) (use s assms(2,3) in \<open>auto simp: set_proc_def con_ok_def table_ok_def\<close>)
  then have "dispatch pol c p s = dispatch_msg pol p ?s3"
    by (simp add: dispatch_def s(1) set_proc_def dispatched_def upd_proc_def Let_def)
  moreover have "con_ok ?s3" using s(2) by (simp add: set_proc_def)
  moreover from this have "con_step ?s3 (dispatch_msg pol p ?s3)"
    by (rule dispatch_msg_ok) (simp add: s(1,3) set_proc_def)
  ultimately obtain d where d: "dispatch pol c p s = Inr (?s3\<lparr>con := d\<rparr>)" "condev_ok d" "con_ok ?s3"
    by (auto simp: con_step_def)
  have "table_ok ?s3" using s(6) by (intro table_ok_run) (simp add: set_proc_def table_ok_def)
  then have "table_ok (?s3\<lparr>con := d\<rparr>)" by (rule table_ok_cong [THEN iffD2, rotated 3]) simp_all
  then have "sched_ready c (?s3\<lparr>con := d\<rparr>)"
    using con_ok_con [OF d(3,2)] s by (simp add: sched_ready_def set_proc_def)
  moreover have "cpu_proc (cur (?s3\<lparr>con := d\<rparr>)) = Some p" by (simp add: s(1) set_proc_def)
  ultimately show ?thesis using d(1) by blast
qed

text \<open>
  The rest of the system may do anything in a window but for this: it hands the CPU back the way
  it got it, with the lock and a well-formed table.
\<close>

definition fair_env :: "nat \<Rightarrow> ('a ptable_scheme \<Rightarrow> 'a ptable_scheme) \<Rightarrow> bool" where
  "fair_env c e \<longleftrightarrow> (\<forall>s. sched_ready c s \<longrightarrow> sched_ready c (e s)) \<and>
     (\<forall>s. sched_idle c s \<longrightarrow> sched_idle c (e s))"

definition part_ok :: "nat \<Rightarrow> 'a ptable_scheme part res \<Rightarrow> bool" where
  "part_ok c m \<longleftrightarrow>
     (\<exists>s fs. m = Inr (Next s fs) \<and> sched_ready c s \<and> (\<forall>e\<in>set fs. fair_env c e)) \<or>
     (\<exists>p s. m = Inr (Stop (Running p s)) \<and> sched_ready c s \<and> cpu_proc (cur s) = Some p)"

lemma part_ok_pbnd:
  assumes "part_ok c m"
    and "\<And>s fs. sched_ready c s \<Longrightarrow> \<forall>e\<in>set fs. fair_env c e \<Longrightarrow> part_ok c (f s fs)"
  shows "part_ok c (pbnd m f)"
proof -
  consider s fs where "m = Inr (Next s fs)" "sched_ready c s" "\<forall>e\<in>set fs. fair_env c e"
    | p s where "m = Inr (Stop (Running p s))" "sched_ready c s" "cpu_proc (cur s) = Some p"
    using assms(1) unfolding part_ok_def by blast
  then show ?thesis
    by cases (use assms(2) in \<open>auto simp: pbnd_def part_ok_def [of c "Inr (Stop _)"]\<close>)
qed

lemma part_ok_Next: "sched_ready c s \<Longrightarrow> \<forall>e\<in>set fs. fair_env c e \<Longrightarrow> part_ok c (Inr (Next s fs))"
  by (simp add: part_ok_def)

lemma ready_upd_cpu [simp]:
  assumes "\<And>x. apicid (f x) = apicid x \<and> ncli (f x) = ncli x \<and> IF_flag (f x) = IF_flag x"
  shows "sched_ready c (upd_cpu i f s) = sched_ready c s" "sched_idle c (upd_cpu i f s) = sched_idle c s"
  using con_ok_upd_cpu [OF assms, of i s] table_ok_cong [of "upd_cpu i f s" s] assms
  by (auto simp: sched_ready_def sched_idle_def)

lemma ready_switchkvm [simp]: "sched_ready c (switchkvm s) = sched_ready c s"
  unfolding switchkvm_def by (rule ready_upd_cpu) simp

lemma ready_set_proc [simp]: "sched_ready c (set_proc i p s) = sched_ready c s"
  unfolding set_proc_def by (rule ready_upd_cpu) simp

lemma run_proc_ok:
  assumes "sched_ready c s" and "p < NPROC" and "runnable s p" and "\<forall>e\<in>set es. fair_env c e"
  shows "part_ok c (run_proc pol c p s es)"
proof -
  obtain t where t: "dispatch pol c p s = Inr t" "sched_ready c t" "cpu_proc (cur t) = Some p"
    using dispatch_ready [OF assms(1-3)] by blast
  show ?thesis
  proof (cases es)
    case Nil
    with t show ?thesis by (simp add: run_proc_def part_ok_def)
  next
    case (Cons e fs)
    with assms(4) t(2) have "sched_ready c (e t)" by (simp add: fair_env_def)
    with Cons assms(4) t(1) show ?thesis by (simp add: run_proc_def part_ok_def)
  qed
qed

lemma default_loop_ok:
  "sched_ready c s \<Longrightarrow> set ps \<subseteq> {..<NPROC} \<Longrightarrow> \<forall>e\<in>set es. fair_env c e \<Longrightarrow>
     part_ok c (default_loop c ps s es)"
proof (induction ps arbitrary: s es)
  case Nil
  then show ?case by (simp add: part_ok_Next)
next
  case (Cons p ps)
  show ?case
  proof (cases "runnable s p")
    case True
    have "part_ok c (pbnd (run_proc DEFAULT c p s es) (\<lambda>s es. default_loop c ps (set_proc c None s) es))"
      by (rule part_ok_pbnd) (use Cons True run_proc_ok [of c s p es] in \<open>auto simp: part_ok_def\<close>)
    with True show ?thesis by simp
  next
    case False
    with Cons show ?thesis by simp
  qed
qed

lemma pbs_loop_ok:
  "sched_ready c s \<Longrightarrow> set ps \<subseteq> {..<NPROC} \<Longrightarrow> \<forall>e\<in>set es. fair_env c e \<Longrightarrow>
     part_ok c (pbs_loop c ps m s es)"
proof (induction ps arbitrary: s es)
  case Nil
  then show ?case by (simp add: part_ok_Next)
next
  case (Cons p ps)
  show ?case
  proof (cases "runnable s p \<and> m = sint (p_priority (procs s p))")
    case True
    have "part_ok c (pbnd (run_proc PBS c p s es) (\<lambda>s es.
        if pbs_min [0..<NPROC] 101 s < m then Inr (Next s es)
        else pbs_loop c ps m (set_proc c None s) es))"
    proof (rule part_ok_pbnd)
      show "part_ok c (run_proc PBS c p s es)"
        using run_proc_ok [of c s p es PBS] Cons.prems True by (auto simp: part_ok_def)
      show "part_ok c (if pbs_min [0..<NPROC] 101 u < m then Inr (Next u gs)
          else pbs_loop c ps m (set_proc c None u) gs)"
        if "sched_ready c u" "\<forall>e\<in>set gs. fair_env c e" for u :: "'a ptable_scheme" and gs
        using that Cons.prems(2) by (auto intro!: part_ok_Next Cons.IH)
    qed
    with True show ?thesis by (simp only: pbs_loop.simps if_True simp_thms)
  next
    case False
    with Cons show ?thesis by auto
  qed
qed

lemma fcfs_round_ok:
  assumes "sched_ready c s" and "\<forall>e\<in>set es. fair_env c e"
  shows "part_ok c (fcfs_round c s es)"
proof (cases "fcfs_pick [0..<NPROC] None s")
  case None
  with assms show ?thesis by (simp add: fcfs_round_def part_ok_Next)
next
  case (Some qm)
  then obtain q m where q: "fcfs_pick [0..<NPROC] None s = Some (q, m)" by (cases qm) auto
  from fcfs_pick_best [OF q] have "q < NPROC" "runnable s q" by auto
  with assms have "part_ok c (pbnd (run_proc FCFS c q s es) (\<lambda>s es. Inr (Next (set_proc c None s) es)))"
    using run_proc_ok [of c s q es FCFS]
    by (intro part_ok_pbnd) (auto simp: part_ok_Next part_ok_def)
  with q show ?thesis by (simp add: fcfs_round_def)
qed

lemma mlfq_find_ok:
  "table_ok s \<Longrightarrow> k < 5 \<Longrightarrow> i + n = nat (cnt s k) \<Longrightarrow> \<exists>r. mlfq_find k i n s = Inr r \<and>
     (\<forall>j p. r = Some (j, p) \<longrightarrow> p < NPROC)"
proof (induction n arbitrary: i)
  case 0
  then show ?case by simp
next
  case (Suc n)
  then have "i < nat (cnt s k)" "cnt s k \<le> int QSIZE" by (auto simp: table_ok_def)
  moreover from this Suc.prems obtain p where "mlfq s k i = Some p" "p < NPROC"
    unfolding table_ok_def by blast
  moreover have "i < QSIZE" using calculation(1,2) by linarith
  ultimately show ?case using Suc.IH [of "Suc i"] Suc.prems by (auto simp: mlfq_find_Suc simp del: mlfq_find.simps)
qed

lemma mlfq_loop_ok:
  "sched_ready c s \<Longrightarrow> set ks \<subseteq> {..<5} \<Longrightarrow> \<forall>e\<in>set es. fair_env c e \<Longrightarrow>
     part_ok c (mlfq_loop c ks s es)"
proof (induction ks)
  case Nil
  then show ?case by (simp add: part_ok_Next)
next
  case (Cons k ks)
  then obtain r where r: "mlfq_find k 0 (nat (cnt s k)) s = Inr r"
      "\<forall>j p. r = Some (j, p) \<longrightarrow> p < NPROC"
    using mlfq_find_ok [of s k 0 "nat (cnt s k)"] by (auto simp: sched_ready_def)
  show ?case
  proof (cases r)
    case None
    with r Cons show ?thesis by simp
  next
    case (Some ip)
    then obtain i p where ip: "r = Some (i, p)" by (cases ip) auto
    let ?s = "s\<lparr>qbeg := (qbeg s)(k := int i)\<rparr>"
    have "con_ok ?s = con_ok s" "table_ok ?s = table_ok s"
      using cpu_ok_cong [of ?s s] by (auto simp: con_ok_def table_ok_def)
    then have "sched_ready c ?s" using Cons.prems(1) by (simp add: sched_ready_def)
    moreover have "runnable ?s p" "p < NPROC" using mlfq_find_Some r ip by fastforce+
    ultimately have "part_ok c (pbnd (run_proc MLFQ c p ?s es) (\<lambda>s es. Inr (Next (set_proc c None s) es)))"
      using run_proc_ok [of c ?s p es MLFQ] Cons.prems(3)
      by (intro part_ok_pbnd) (auto simp: part_ok_Next part_ok_def)
    with r ip show ?thesis by simp
  qed
qed

lemma sched_body_ok:
  "sched_ready c s \<Longrightarrow> \<forall>e\<in>set es. fair_env c e \<Longrightarrow> part_ok c (sched_body pol c s es)"
proof (cases pol)
  case MLFQ
  assume "sched_ready c s" "\<forall>e\<in>set es. fair_env c e"
  then have "part_ok c (mlfq_loop c [0, 1, 2, 3, 4] s es)" by (intro mlfq_loop_ok) auto
  then show ?thesis by (simp only: sched_body_def MLFQ policy.case)
qed (auto simp: sched_body_def pbs_round_def intro: default_loop_ok pbs_loop_ok fcfs_round_ok)

lemma sched_idle_sti:
  assumes "sched_idle c s"
  shows "sched_idle c (sti s)"
proof -
  have "cpu_ok (sti s)" using assms by (simp add: sched_idle_def con_ok_def cpu_ok_def cli_ok_def sti_def)
  moreover have "table_ok (sti s) = table_ok s" by (rule table_ok_cong) (simp_all add: sti_def)
  ultimately show ?thesis using assms by (simp add: sched_idle_def con_ok_def sti_def)
qed

lemma sched_idle_acquire:
  assumes "sched_idle c s"
  shows "acquire L_ptable s = Inr (acquired L_ptable s)" "sched_ready c (acquired L_ptable s)"
proof -
  have s: "cpu_ok s" "free_lock L_ptable s" using assms by (simp_all add: sched_idle_def con_ok_def)
  then show "acquire L_ptable s = Inr (acquired L_ptable s)" by (rule acquire_eq)
  have "table_ok (acquired L_ptable s) = table_ok s" by (rule table_ok_cong) simp_all
  with assms s(1) show "sched_ready c (acquired L_ptable s)"
    by (simp add: sched_idle_def sched_ready_def con_ok_def)
qed

lemma sched_ready_release:
  assumes "sched_ready c s"
  shows "release L_ptable s = Inr (released L_ptable s)" "sched_idle c (released L_ptable s)"
proof -
  have s: "this_cpu s = c" "cpu_ok s" "0 < ncli (cur s)" "holds L_ptable s"
    using assms by (auto simp: sched_ready_def con_ok_def)
  from s(2-4) show "release L_ptable s = Inr (released L_ptable s)" by (rule release_eq)
  have "table_ok (released L_ptable s) = table_ok s" by (rule table_ok_cong) simp_all
  with assms cpu_ok_released [OF s(2,3)] show "sched_idle c (released L_ptable s)"
    by (auto simp: sched_idle_def sched_ready_def con_ok_def released_def)
qed

definition obs_ok :: "nat \<Rightarrow> 'a ptable_scheme obs \<Rightarrow> bool" where
  "obs_ok c ob \<longleftrightarrow> (case ob of Window s \<Rightarrow> sched_idle c s
     | Running p s \<Rightarrow> sched_ready c s \<and> cpu_proc (cur s) = Some p)"

lemma sched_round_ok:
  assumes "sched_idle c s" and "\<forall>e\<in>set es. fair_env c e"
  shows "(\<exists>t fs. sched_round pol c s es = Inr (Next t fs) \<and> sched_idle c t \<and> (\<forall>e\<in>set fs. fair_env c e)) \<or>
    (\<exists>ob. sched_round pol c s es = Inr (Stop ob) \<and> obs_ok c ob)"
proof (cases es)
  case Nil
  with sched_idle_sti [OF assms(1)] show ?thesis by (simp add: sched_round_def obs_ok_def)
next
  case (Cons e fs)
  let ?s = "acquired L_ptable (e (sti s))"
  have "sched_idle c (e (sti s))"
    using Cons assms sched_idle_sti [OF assms(1)] by (simp add: fair_env_def)
  note a = sched_idle_acquire [OF this]
  have "part_ok c (sched_body pol c ?s fs)" using Cons assms(2) a(2) by (intro sched_body_ok) simp_all
  then consider t gs where "sched_body pol c ?s fs = Inr (Next t gs)" "sched_ready c t"
      "\<forall>e\<in>set gs. fair_env c e"
    | p t where "sched_body pol c ?s fs = Inr (Stop (Running p t))" "sched_ready c t"
      "cpu_proc (cur t) = Some p"
    unfolding part_ok_def by blast
  then show ?thesis
  proof cases
    case 1
    with Cons a sched_ready_release [OF 1(2)] show ?thesis by (simp add: sched_round_def pbnd_def)
  next
    case 2
    with Cons a show ?thesis by (simp add: sched_round_def pbnd_def obs_ok_def)
  qed
qed

lemma scheduler_loop_ok:
  assumes "sched_idle c s" and "\<forall>e\<in>set es. fair_env c e"
  shows "\<exists>ob. scheduler_loop pol c s es = Inr ob \<and> obs_ok c ob"
  using assms
proof (induction es arbitrary: s rule: length_induct)
  case (1 es)
  from sched_round_ok [OF 1(2,3), of pol] show ?case
  proof (elim disjE exE conjE)
    fix t fs assume t: "sched_round pol c s es = Inr (Next t fs)" "sched_idle c t" "\<forall>e\<in>set fs. fair_env c e"
    then have "\<exists>ob. scheduler_loop pol c t fs = Inr ob \<and> obs_ok c ob"
      using 1(1) sched_round_length by blast
    with t(1) show ?thesis by (subst scheduler_loop.simps) simp
  next
    fix ob assume "sched_round pol c s es = Inr (Stop ob)" "obs_ok c ob"
    then show ?thesis by (subst scheduler_loop.simps) simp
  qed
qed

text \<open>
  C2: Under every policy, and for every behaviour of the rest of the system that hands the CPU back
  with \<open>ptable.lock\<close> held and a well-formed process table, the scheduler never panics, never spins
  on a lock it holds and never follows a bad pointer. Whenever it switches to a process it holds
  \<open>ptable.lock\<close> and no other lock, interrupts are off and \<open>c->proc\<close> is that process.
\<close>

theorem scheduler_safe:
  assumes "\<not> IF_flag (cur s)" and "sched_idle (this_cpu s) s"
    and "\<forall>e\<in>set es. fair_env (this_cpu s) e"
  shows "\<exists>ob. scheduler pol s es = Inr ob \<and>
    (\<forall>p t. ob = Running p t \<longrightarrow> holds L_ptable t \<and> ncli (cur t) = 1 \<and> \<not> IF_flag (cur t) \<and>
       cpu_proc (cur t) = Some p)"
proof -
  let ?c = "this_cpu s"
  have "mycpu s = Inr ?c" using assms(1,2) by (intro mycpu_wf) (simp_all add: sched_idle_def con_ok_def cpu_ok_def)
  moreover have "sched_idle ?c (set_proc ?c None s)"
    using assms(2) by (simp add: set_proc_def ready_upd_cpu)
  then obtain ob where "scheduler_loop pol ?c (set_proc ?c None s) es = Inr ob" "obs_ok ?c ob"
    using scheduler_loop_ok [OF _ assms(3)] by blast
  moreover have "\<not> IF_flag (cpus t ?c)" if "sched_ready ?c t" for t :: "'a ptable_scheme"
    using that by (auto simp: sched_ready_def con_ok_def cpu_ok_def cli_ok_def)
  ultimately show ?thesis
    by (auto simp: scheduler_def obs_ok_def sched_ready_def)
qed

section \<open>Round robin serves every process\<close>

lemma default_loop_serves:
  assumes "q \<in> set ps" and "runnable s q" and "default_loop c ps s es = Inr (Next t fs)"
    and "\<forall>e\<in>set es. \<forall>u. runnable u q \<longrightarrow> runnable (e u) q"
  shows "\<exists>gs hs u. es = gs @ hs \<and> default_loop c ps s gs = Inr (Stop (Running q u))"
  using assms
proof (induction ps arbitrary: s es)
  case Nil
  then show ?case by simp
next
  case (Cons p ps)
  show ?case
  proof (cases "runnable s p")
    case False
    with Cons.prems have "q \<in> set ps" "default_loop c ps s es = Inr (Next t fs)" by auto
    with Cons.IH [OF _ Cons.prems(2) _ Cons.prems(4)] False show ?thesis by auto
  next
    case True
    with Cons.prems(3) obtain e es' u where u: "es = e # es'" "dispatch DEFAULT c p s = Inr u"
        "default_loop c ps (set_proc c None (switchkvm (e u))) es' = Inr (Next t fs)"
      by (auto simp: res_iff)
    show ?thesis
    proof (cases "p = q")
      case True
      with Cons.prems(2) u show ?thesis
        by (intro exI [of _ "[]"] exI [of _ es] exI [of _ u]) (simp add: run_proc_def pbnd_def)
    next
      case False
      then have "runnable u q" using Cons.prems(2) dispatch_effect(1) [OF u(2)] by simp
      then have "runnable (set_proc c None (switchkvm (e u))) q"
        using Cons.prems(4) u(1) by (simp add: set_proc_def switchkvm_def)
      with False Cons.IH [OF _ _ u(3)] Cons.prems(1,4) u(1) obtain gs hs v where
        "es' = gs @ hs"
        "default_loop c ps (set_proc c None (switchkvm (e u))) gs = Inr (Stop (Running q v))"
        by auto
      with u(1,2) True show ?thesis
        by (intro exI [of _ "e # gs"] exI [of _ hs] exI [of _ v]) (simp add: run_proc_def pbnd_def)
    qed
  qed
qed

text \<open>
  C23: In every complete round of the round-robin scheduler, a process that is runnable when the
  round takes the lock, and that nobody but the scheduler takes out of the runnable state, is
  switched to at some point of that round.
\<close>

theorem default_round_serves:
  assumes "sched_round DEFAULT c s (w # es) = Inr (Next t fs)"
    and "q < NPROC" and "runnable (w (sti s)) q"
    and "\<forall>e\<in>set es. \<forall>u. runnable u q \<longrightarrow> runnable (e u) q"
  shows "\<exists>gs hs u. es = gs @ hs \<and> sched_round DEFAULT c s (w # gs) = Inr (Stop (Running q u))"
proof -
  obtain a v gs where a: "acquire L_ptable (w (sti s)) = Inr a"
      "default_loop c [0..<NPROC] a es = Inr (Next v gs)"
    using assms(1) by (auto simp: sched_round_def sched_body_def res_iff)
  have "procs a = procs (w (sti s))" using quiet_ptable(1) [OF quiet_acquire [OF a(1)]] .
  with assms(3) have "runnable a q" by simp
  with default_loop_serves [OF _ _ a(2) assms(4)] assms(2) obtain gs hs u where
    "es = gs @ hs" "default_loop c [0..<NPROC] a gs = Inr (Stop (Running q u))" by auto
  with a(1) show ?thesis
    by (intro exI [of _ gs] exI [of _ hs] exI [of _ u]) (simp add: sched_round_def sched_body_def pbnd_def)
qed

section \<open>Priorities above 200\<close>

lemma pbs_min_high:
  "\<forall>q\<in>set ps. runnable s q \<longrightarrow> m \<le> sint (p_priority (procs s q)) \<Longrightarrow> pbs_min ps m s = m"
  by (induction ps) auto

lemma pbs_loop_none:
  "\<forall>q\<in>set ps. runnable s q \<longrightarrow> sint (p_priority (procs s q)) \<noteq> m \<Longrightarrow>
     pbs_loop c ps m s es = Inr (Next s es)"
  by (induction ps) auto

text \<open>
  C33: When every runnable process has a priority number above 200, which \<open>set_priority\<close> accepts,
  a round of the priority scheduler runs none of them: it ends at once, in the same state.
\<close>

theorem pbs_starves_above_200:
  assumes "\<forall>q<NPROC. runnable s q \<longrightarrow> 200 < sint (p_priority (procs s q))"
  shows "sched_body PBS c s es = Inr (Next s es)"
proof -
  have "pbs_min [0..<NPROC] 200 s = 200" using assms by (intro pbs_min_high) auto
  moreover have "pbs_loop c [0..<NPROC] 200 s es = Inr (Next s es)"
    using assms by (intro pbs_loop_none) auto
  ultimately show ?thesis by (simp only: sched_body_def policy.case pbs_round_def)
qed

section \<open>Concrete tables\<close>

definition zero_proc :: proc where
  "zero_proc = \<lparr>p_sz = 0, p_pgdir = 0, p_kstack = 0, p_state = UNUSED, p_pid = 0, p_parent = None,
     p_tf = 0, p_context = 0, p_chan = None, p_killed = False, p_ofile = (\<lambda>_. None), p_cwd = None,
     p_name = [], p_ctime = 0, p_rtime = 0, p_etime = 0, p_iotime = 0, p_priority = 0, p_qno = 0,
     p_aging_time = 0, p_rrtime = (\<lambda>_. 0),
     p_stat = \<lparr>stat_pid = 0, stat_runtime = 0, stat_num_run = 0, stat_current_queue = 0,
       stat_ticks = (\<lambda>_. 0)\<rparr>\<rparr>"

definition some_proc :: "uint \<Rightarrow> procstate \<Rightarrow> uint \<Rightarrow> uint \<Rightarrow> proc" where
  "some_proc pd st prio ct = zero_proc\<lparr>p_pid := pd, p_state := st, p_priority := prio, p_ctime := ct,
     p_kstack := 0x8dffe000, p_pgdir := 0x8dfff000\<rparr>"

lemma zero_proc_simps [simp]: "p_state zero_proc = UNUSED" "p_pid zero_proc = 0" "p_kstack zero_proc = 0"
  by (simp_all add: zero_proc_def)

lemma some_proc_simps [simp]:
  "p_state (some_proc pd st prio ct) = st" "p_pid (some_proc pd st prio ct) = pd"
  "p_priority (some_proc pd st prio ct) = prio" "p_ctime (some_proc pd st prio ct) = ct"
  "p_kstack (some_proc pd st prio ct) = 0x8dffe000" "p_pgdir (some_proc pd st prio ct) = 0x8dfff000"
  by (simp_all add: some_proc_def)

text \<open>CPU 0 before its scheduler starts, with the processes \<open>ps\<close>, all in queue 0.\<close>

definition boot_vm :: vm where
  "boot_vm = kmem.extend boot_kmem \<lparr>kpgdir = 0x8dffd000, kdata = 0x80109000\<rparr>"

definition boot_ptable :: "proc list \<Rightarrow> ptable" where
  "boot_ptable ps = vm.extend boot_vm
     \<lparr>procs = (\<lambda>i. if i < length ps then ps ! i else zero_proc), initproc = Some 0,
      nextpid = of_nat (length ps) + 1, ticks = 0,
      mlfq = (\<lambda>k i. if k = 0 \<and> i < length ps then Some i else None),
      cnt = (\<lambda>k. if k = 0 then int (length ps) else 0),
      qbeg = (\<lambda>_. 0), qend = (\<lambda>k. if k = 0 then int (length ps) else 0),
      gstore = (\<lambda>_ _. (0, 0)), trapret = 0x80105000, forkret_addr = 0x80104000\<rparr>"

lemma boot_ptable_simps [simp]:
  "procs (boot_ptable ps) = (\<lambda>i. if i < length ps then ps ! i else zero_proc)"
  "mlfq (boot_ptable ps) = (\<lambda>k i. if k = 0 \<and> i < length ps then Some i else None)"
  "cnt (boot_ptable ps) = (\<lambda>k. if k = 0 then int (length ps) else 0)"
  "cpus (boot_ptable ps) = boot_cpu" "locks (boot_ptable ps) = boot_locks"
  "ncpu (boot_ptable ps) = 2" "this_cpu (boot_ptable ps) = 0" "lapic_id (boot_ptable ps) = of_nat"
  "\<not> panicked (boot_ptable ps)" "cons_locking (boot_ptable ps)" "con (boot_ptable ps) = boot_con"
  "ticks (boot_ptable ps) = 0"
  by (simp_all add: boot_ptable_def boot_vm_def boot_kmem_def boot_console_def boot_machine_def
      machine.defs console.defs kmem.defs vm.defs)

lemma boot_cpu_ok [simp]: "cpu_ok (boot_ptable ps)"
  using inj_of_nat_2 by (simp add: cpu_ok_def cpus_wf_def cli_ok_def)

lemma boot_con_ok [simp]: "con_ok (boot_ptable ps)"
  by (simp add: con_ok_def condev_ok_def boot_con_def)

lemma boot_idle:
  assumes "length ps \<le> NPROC" and "\<forall>x\<in>set ps. p_state x = RUNNABLE \<longrightarrow> p_kstack x \<noteq> 0 \<and> p_pgdir x \<noteq> 0"
  shows "sched_idle 0 (boot_ptable ps)"
proof -
  have "table_ok (boot_ptable ps)"
    using assms by (auto simp: table_ok_def split: if_splits)
  then show ?thesis by (simp add: sched_idle_def)
qed

lemma fair_env_id: "fair_env c (\<lambda>s. s)"
  by (simp add: fair_env_def)

lemma run_proc_stop:
  "sched_ready c s \<Longrightarrow> p < NPROC \<Longrightarrow> runnable s p \<Longrightarrow> \<exists>t. run_proc pol c p s [] = Inr (Stop (Running p t))"
  using dispatch_ready [of c s p pol] by (auto simp: run_proc_def)

lemma scheduler_first:
  fixes s :: "'a ptable_scheme"
  assumes "sched_idle c s" and "\<not> IF_flag (cur s)"
    and body: "\<And>a :: 'a ptable_scheme. sched_ready c a \<Longrightarrow> procs a = procs s \<Longrightarrow> mlfq a = mlfq s \<Longrightarrow>
      cnt a = cnt s \<Longrightarrow> \<exists>t. sched_body pol c a [] = Inr (Stop (Running p t))"
  shows "\<exists>t. scheduler pol s [\<lambda>s. s] = Inr (Running p t)"
proof -
  have c: "this_cpu s = c" using assms(1) by (simp add: sched_idle_def)
  have "mycpu s = Inr c" using assms(1,2) c by (intro mycpu_wf [of s, unfolded c]) (simp_all add: sched_idle_def con_ok_def cpu_ok_def)
  moreover have "sched_idle c (sti (set_proc c None s))"
    using assms(1) by (intro sched_idle_sti) (simp add: set_proc_def)
  then obtain a where a: "acquire L_ptable (sti (set_proc c None s)) = Inr a" "sched_ready c a"
    using sched_idle_acquire by blast
  have q: "quiet s (sti (set_proc c None s))"
    using quiet_trans [OF quiet_set_proc quiet_upd_cpu] by (simp add: sti_def)
  note e = quiet_ptable [OF quiet_trans [OF q quiet_acquire [OF a(1)]]]
  obtain t where "sched_body pol c a [] = Inr (Stop (Running p t))"
    using body [OF a(2) e(1,3,4)] by blast
  with a(1) \<open>mycpu s = Inr c\<close> show ?thesis
    by (simp add: scheduler_def scheduler_loop.simps sched_round_def pbnd_def)
qed

definition three_procs :: "proc list" where
  "three_procs = [some_proc 1 SLEEPING 60 0, some_proc 2 RUNNABLE 60 5, some_proc 3 RUNNABLE 50 3]"

lemma three_idle: "sched_idle 0 (boot_ptable three_procs)" "\<not> IF_flag (cur (boot_ptable three_procs))"
  by (rule boot_idle) (simp_all add: three_procs_def boot_cpu_def)

lemmas three_start = scheduler_first [OF three_idle]

lemma three_fcfs: "\<exists>t. scheduler FCFS (boot_ptable three_procs) [\<lambda>s. s] = Inr (Running 2 t)"
proof (rule three_start)
  fix a :: ptable
  assume a: "sched_ready 0 a" "procs a = procs (boot_ptable three_procs)"
  then have "fcfs_pick [0..<NPROC] None a = Some (2, 3)"
    by (simp add: upt_conv_Cons three_procs_def)
  with run_proc_stop [OF a(1), of 2 FCFS] a(2) show "\<exists>t. sched_body FCFS 0 a [] = Inr (Stop (Running 2 t))"
    by (auto simp: sched_body_def fcfs_round_def pbnd_def three_procs_def)
qed

lemma three_pbs: "\<exists>t. scheduler PBS (boot_ptable three_procs) [\<lambda>s. s] = Inr (Running 2 t)"
proof (rule three_start)
  fix a :: ptable
  assume a: "sched_ready 0 a" "procs a = procs (boot_ptable three_procs)"
  then have "pbs_min [0..<NPROC] 200 a = 50"
    by (simp add: upt_conv_Cons three_procs_def)
  moreover obtain t where "run_proc PBS 0 2 a [] = Inr (Stop (Running 2 t))"
    using run_proc_stop [OF a(1), of 2 PBS] a(2) by (auto simp: three_procs_def)
  moreover have "pbs_loop 0 (0 # 1 # 2 # [3..<NPROC]) 50 a [] =
      pbnd (run_proc PBS 0 2 a []) (\<lambda>s es. if pbs_min [0..<NPROC] 101 s < 50 then Inr (Next s es)
        else pbs_loop 0 [3..<NPROC] 50 (set_proc 0 None s) es)"
    using a(2) by (simp only: pbs_loop.simps) (simp add: three_procs_def)
  moreover have "[0..<NPROC] = 0 # 1 # 2 # [3..<NPROC]" by (simp add: upt_conv_Cons)
  ultimately show "\<exists>t. sched_body PBS 0 a [] = Inr (Stop (Running 2 t))"
    by (simp only: sched_body_def policy.case pbs_round_def pbnd_def) simp
qed

lemma three_mlfq: "\<exists>t. scheduler MLFQ (boot_ptable three_procs) [\<lambda>s. s] = Inr (Running 1 t)"
proof (rule three_start)
  fix a :: ptable
  assume a: "sched_ready 0 a" "procs a = procs (boot_ptable three_procs)"
    "mlfq a = mlfq (boot_ptable three_procs)" "cnt a = cnt (boot_ptable three_procs)"
  let ?b = "a\<lparr>qbeg := (qbeg a)(0 := 1)\<rparr>"
  have "mlfq_find 0 0 3 a = Inr (Some (1, 1))"
    using a(2,3) by (simp add: three_procs_def eval_nat_numeral qget_def deref_def)
  moreover have "nat (cnt a 0) = 3" using a(4) by (simp add: three_procs_def)
  moreover have "sched_ready 0 ?b"
    using a(1) by (auto simp: sched_ready_def con_ok_def cpu_ok_def cpus_wf_def table_ok_def)
  then have "\<exists>t. run_proc MLFQ 0 1 ?b [] = Inr (Stop (Running 1 t))"
    using a(2) by (intro run_proc_stop) (simp_all add: three_procs_def)
  ultimately show "\<exists>t. sched_body MLFQ 0 a [] = Inr (Stop (Running 1 t))"
    by (auto simp: sched_body_def pbnd_def)
qed

theorem fcfs_dispatches_oldest_witness:
  "\<exists>t. scheduler FCFS (boot_ptable three_procs) [\<lambda>s. s] = Inr (Running 2 t) \<and>
     p_state (procs t 2) = RUNNING \<and>
     (\<forall>q<NPROC. runnable t q \<longrightarrow> q \<noteq> 2 \<and> sint (p_ctime (procs t 2)) \<le> sint (p_ctime (procs t q)))"
proof -
  obtain t where t: "scheduler FCFS (boot_ptable three_procs) [\<lambda>s. s] = Inr (Running 2 t)"
    using three_fcfs by blast
  with fcfs_dispatches_oldest [OF t] show ?thesis by (intro exI [of _ t]) force
qed

theorem pbs_dispatches_most_urgent_witness:
  "\<exists>t. scheduler PBS (boot_ptable three_procs) [\<lambda>s. s] = Inr (Running 2 t) \<and>
     p_state (procs t 2) = RUNNING \<and>
     (\<forall>q<NPROC. runnable t q \<longrightarrow> sint (p_priority (procs t 2)) \<le> sint (p_priority (procs t q)))"
proof -
  obtain t where t: "scheduler PBS (boot_ptable three_procs) [\<lambda>s. s] = Inr (Running 2 t)"
    using three_pbs by blast
  with pbs_dispatches_most_urgent [OF t] show ?thesis by blast
qed

theorem mlfq_dispatches_highest_witness:
  "\<exists>t. scheduler MLFQ (boot_ptable three_procs) [\<lambda>s. s] = Inr (Running 1 t) \<and>
     p_state (procs t 1) = RUNNING \<and> (\<exists>k<5. \<exists>i<nat (cnt t k). mlfq t k i = Some 1)"
proof -
  obtain t where t: "scheduler MLFQ (boot_ptable three_procs) [\<lambda>s. s] = Inr (Running 1 t)"
    using three_mlfq by blast
  with mlfq_dispatches_highest [OF t] show ?thesis by blast
qed

theorem scheduler_safe_witness:
  "\<exists>ob. scheduler MLFQ (boot_ptable three_procs) [\<lambda>s. s, \<lambda>s. s] = Inr ob \<and>
    (\<forall>p t. ob = Running p t \<longrightarrow> holds L_ptable t \<and> ncli (cur t) = 1 \<and> \<not> IF_flag (cur t) \<and>
       cpu_proc (cur t) = Some p)"
  by (rule scheduler_safe) (use three_idle fair_env_id in auto)

theorem pbs_starves_above_200_witness:
  "sched_body PBS 0 (boot_ptable [some_proc 1 RUNNABLE 201 0]) [] =
     Inr (Next (boot_ptable [some_proc 1 RUNNABLE 201 0]) [])"
  by (rule pbs_starves_above_200) simp

lemma default_loop_none:
  "\<forall>q\<in>set ps. \<not> runnable s q \<Longrightarrow> default_loop c ps s es = Inr (Next s es)"
  by (induction ps) auto

theorem default_round_serves_witness:
  "\<exists>gs hs u. [\<lambda>s. s] = gs @ hs \<and>
     sched_round DEFAULT 0 (boot_ptable [some_proc 1 RUNNABLE 60 0]) ((\<lambda>s. s) # gs) = Inr (Stop (Running 0 u))"
proof -
  let ?s = "boot_ptable [some_proc 1 RUNNABLE 60 0]"
  let ?a = "acquired L_ptable (sti ?s)"
  have i: "sched_idle 0 (sti ?s)" by (intro sched_idle_sti boot_idle) simp_all
  note a = sched_idle_acquire [OF i]
  have p: "procs ?a = procs ?s" using quiet_ptable(1) [OF quiet_acquire [OF a(1)]] by (simp add: sti_def)
  then obtain u where u: "dispatch DEFAULT 0 0 ?a = Inr u" "sched_ready 0 u"
    using dispatch_ready [OF a(2), of 0 DEFAULT] by auto
  have "\<not> runnable u q" for q using dispatch_effect(1) [OF u(1)] p by simp
  then have "default_loop 0 [1..<NPROC] (set_proc 0 None (switchkvm u)) [] =
      Inr (Next (set_proc 0 None (switchkvm u)) [])"
    by (intro default_loop_none) (simp add: set_proc_def switchkvm_def)
  moreover have "[0..<NPROC] = 0 # [1..<NPROC]" by (simp add: upt_conv_Cons)
  ultimately have "sched_body DEFAULT 0 ?a [\<lambda>s. s] = Inr (Next (set_proc 0 None (switchkvm u)) [])"
    using u(1) p by (simp add: sched_body_def run_proc_def pbnd_def)
  moreover have "sched_ready 0 (set_proc 0 None (switchkvm u))" using u(2) by simp
  note sched_ready_release(1) [OF this]
  ultimately have "sched_round DEFAULT 0 ?s [\<lambda>s. s, \<lambda>s. s] =
      Inr (Next (released L_ptable (set_proc 0 None (switchkvm u))) [])"
    using a(1) by (simp add: sched_round_def pbnd_def)
  from default_round_serves [OF this, of 0] show ?thesis by (simp add: sti_def)
qed

text \<open>
  C34: When a process that the priority scheduler ran comes back and a more urgent process is
  runnable, the round ends with \<open>c->proc\<close> still pointing to the process that no longer runs; the
  other policies, and the loop's normal path, reset it.
\<close>

theorem pbs_break_keeps_proc:
  assumes "sched_ready c s" and "p < NPROC" and "runnable s p" and "sint (p_priority (procs s p)) = m"
    and "\<And>u. cpu_proc (cpus (e u) c) = cpu_proc (cpus u c)"
    and "q < NPROC"
    and "\<And>u. runnable (e u) q \<and> sint (p_priority (procs (e u) q)) < min m 101"
  shows "\<exists>t. pbs_loop c (p # ps) m s (e # es) = Inr (Next t es) \<and> cpu_proc (cpus t c) = Some p"
proof -
  obtain u where u: "dispatch PBS c p s = Inr u" "sched_ready c u" "cpu_proc (cur u) = Some p"
    using dispatch_ready [OF assms(1-3)] by blast
  let ?t = "switchkvm (e u)"
  have "runnable ?t q" "sint (p_priority (procs ?t q)) < min m 101"
    using assms(7) by (simp_all add: switchkvm_def)
  moreover have "pbs_min [0..<NPROC] 101 ?t \<le> sint (p_priority (procs ?t q))"
    using calculation(1) assms(6) pbs_min_le [of "[0..<NPROC]" 101 ?t] by simp
  ultimately have "pbs_loop c (p # ps) m s (e # es) = Inr (Next ?t es)"
    using u(1) assms(3,4) by (simp add: run_proc_def pbnd_def)
  moreover have "cpu_proc (cpus (e u) c) = Some p"
    using u(2,3) assms(5) [of u] by (simp add: sched_ready_def)
  then have "cpu_proc (cpus ?t c) = Some p" by (auto simp: switchkvm_def)
  ultimately show ?thesis by blast
qed

theorem pbs_break_keeps_proc_witness:
  "\<exists>t. pbs_loop 0 [1, 2] 60 (acquired L_ptable (boot_ptable three_procs))
         [\<lambda>s. upd_proc 5 (\<lambda>_. some_proc 6 RUNNABLE 10 9) s] = Inr (Next t []) \<and>
       cpu_proc (cpus t 0) = Some 1"
proof (rule pbs_break_keeps_proc [where q = 5])
  show "sched_ready 0 (acquired L_ptable (boot_ptable three_procs))"
    using sched_idle_acquire(2) [OF three_idle(1)] .
qed (simp_all add: three_procs_def)

end
