(* ===== verification/Thread.thy ===== *)
theory Thread
  imports Scheduler
begin

text \<open>
  Threads of control that may sleep. A routine is a function of the state and the schedule, in the
  style of a state monad; \<open>sleep_loop\<close> is the loop \<open>while (...) sleep(ch, lk)\<close> that all blocking
  code is built from. The second part is a Hoare logic for these routines: \<open>valid E P m Q\<close> says
  that \<open>m\<close>, started in a state with \<open>P\<close> while the rest of the system behaves as \<open>E\<close> allows, ends
  with \<open>Q\<close> or is still asleep, and never fails. \<open>inside p H s\<close> says that process \<open>p\<close> runs and
  holds exactly the spin locks \<open>H\<close>.
\<close>

section \<open>Routines that may sleep\<close>

type_synonym ('s, 'r) thr = "'s \<Rightarrow> 's sched \<Rightarrow> ('r \<times> 's \<times> 's sched) res"

definition ret :: "'r \<Rightarrow> ('s, 'r) thr" where
  "ret r s es = Inr (r, s, es)"

definition tbnd :: "('s, 'r) thr \<Rightarrow> ('r \<Rightarrow> ('s, 'q) thr) \<Rightarrow> ('s, 'q) thr" where
  "tbnd m f s es = bnd (m s es) (\<lambda>(r, s, es). f r s es)"

definition tseq :: "('s, 'r) thr \<Rightarrow> ('s, 'q) thr \<Rightarrow> ('s, 'q) thr" where
  "tseq m n = tbnd m (\<lambda>_. n)"

definition fail :: "kerr \<Rightarrow> ('s, 'r) thr" where
  "fail x s es = Inl x"

definition look :: "('s \<Rightarrow> 'r) \<Rightarrow> ('s, 'r) thr" where
  "look f s es = Inr (f s, s, es)"

definition modify :: "('s \<Rightarrow> 's) \<Rightarrow> ('s, unit) thr" where
  "modify f s es = Inr ((), f s, es)"

text \<open>Calls of routines that do not sleep, without and with a result.\<close>

definition act :: "('s \<Rightarrow> 's res) \<Rightarrow> ('s, unit) thr" where
  "act f s es = bnd (f s) (\<lambda>s. Inr ((), s, es))"

definition ask :: "('s \<Rightarrow> ('r \<times> 's) res) \<Rightarrow> ('s, 'r) thr" where
  "ask f s es = bnd (f s) (\<lambda>(r, s). Inr (r, s, es))"

abbreviation panic_when :: "bool \<Rightarrow> string \<Rightarrow> ('s, unit) thr" where
  "panic_when b msg \<equiv> (if b then fail (Panic msg) else ret ())"

abbreviation need :: "'r option \<Rightarrow> string \<Rightarrow> ('s, 'r) thr" where
  "need x msg \<equiv> (case x of Some y \<Rightarrow> ret y | None \<Rightarrow> fail (Undefined msg))"

text \<open>Loops over a list, to the end and up to the first iteration that returns a value.\<close>

fun tfold :: "('i \<Rightarrow> ('s, unit) thr) \<Rightarrow> 'i list \<Rightarrow> ('s, unit) thr" where
  "tfold f [] = ret ()"
| "tfold f (x # xs) = tseq (f x) (tfold f xs)"

fun tfind :: "('i \<Rightarrow> ('s, 'r option) thr) \<Rightarrow> 'i list \<Rightarrow> ('s, 'r option) thr" where
  "tfind f [] = ret None"
| "tfind f (x # xs) = tbnd (f x) (\<lambda>r. case r of None \<Rightarrow> tfind f xs | Some y \<Rightarrow> ret (Some y))"

definition tsleep :: "channel \<Rightarrow> lockid \<Rightarrow> ('a ptable_scheme, unit) thr" where
  "tsleep ch L s es = bnd (sleep ch (Some L) s es) (\<lambda>(s, es). Inr ((), s, es))"

lemma swtch_length: "swtch s es = Inr (t, fs) \<Longrightarrow> length fs < length es"
  by (auto simp: swtch_def split: list.splits)

lemma sleep_length: "sleep ch L s es = Inr (t, fs) \<Longrightarrow> length fs < length es"
  by (auto simp: sleep_def sched_def res_iff split: prod.splits dest!: swtch_length)

text \<open>
  \<open>pre\<close> is what an iteration does before it sleeps; it ends the loop with a value or goes to sleep.
\<close>

function sleep_loop :: "('a ptable_scheme \<Rightarrow> ('r option \<times> 'a ptable_scheme) res) \<Rightarrow> channel \<Rightarrow> lockid \<Rightarrow>
    ('a ptable_scheme, 'r) thr" where
  "sleep_loop pre ch L s es =
     bnd (pre s) (\<lambda>(r, s). case r of
       Some r \<Rightarrow> Inr (r, s, es)
     | None \<Rightarrow> bnd (sleep ch (Some L) s es) (\<lambda>(s, es). sleep_loop pre ch L s es))"
  by pat_completeness auto
termination
  by (relation "measure (\<lambda>(pre, ch, L, s, es). length es)") (auto dest: sleep_length)

declare sleep_loop.simps [simp del]

abbreviation sleep_while :: "('a ptable_scheme \<Rightarrow> bool) \<Rightarrow> channel \<Rightarrow> lockid \<Rightarrow> ('a ptable_scheme, unit) thr" where
  "sleep_while b \<equiv> sleep_loop (\<lambda>s. Inr (if b s then None else Some (), s))"

section \<open>A Hoare logic\<close>

definition valid :: "('s \<Rightarrow> 's) set \<Rightarrow> ('s \<Rightarrow> bool) \<Rightarrow> ('s, 'r) thr \<Rightarrow> ('r \<Rightarrow> 's \<Rightarrow> bool) \<Rightarrow> bool" where
  "valid E P m Q \<longleftrightarrow> (\<forall>s es. P s \<and> set es \<subseteq> E \<longrightarrow>
     (case m s es of Inl x \<Rightarrow> x = Asleep | Inr (r, t, fs) \<Rightarrow> Q r t \<and> set fs \<subseteq> E))"

lemma validI:
  assumes "\<And>s es. P s \<Longrightarrow> set es \<subseteq> E \<Longrightarrow>
    m s es = Inl Asleep \<or> (\<exists>r t fs. m s es = Inr (r, t, fs) \<and> Q r t \<and> set fs \<subseteq> E)"
  shows "valid E P m Q"
  unfolding valid_def using assms by (force split: sum.split)

lemma validD:
  assumes "valid E P m Q" and "P s" and "set es \<subseteq> E"
  shows "m s es = Inl Asleep \<or> (\<exists>r t fs. m s es = Inr (r, t, fs) \<and> Q r t \<and> set fs \<subseteq> E)"
proof -
  have "case m s es of Inl x \<Rightarrow> x = Asleep | Inr (r, t, fs) \<Rightarrow> Q r t \<and> set fs \<subseteq> E"
    using assms by (simp add: valid_def)
  then show ?thesis by (cases "m s es") auto
qed

named_theorems valid_intros \<open>rules of the Hoare logic\<close>

lemma valid_conseq:
  assumes "valid E P m Q" and "\<And>s. P' s \<Longrightarrow> P s" and "\<And>r t. Q r t \<Longrightarrow> Q' r t"
  shows "valid E P' m Q'"
  by (rule validI) (use assms in \<open>blast dest: validD\<close>)

lemma valid_pre: "valid E P m Q \<Longrightarrow> (\<And>s. P' s \<Longrightarrow> P s) \<Longrightarrow> valid E P' m Q"
  by (erule valid_conseq) auto

lemma valid_post: "valid E P m Q \<Longrightarrow> (\<And>r t. Q r t \<Longrightarrow> Q' r t) \<Longrightarrow> valid E P m Q'"
  by (erule valid_conseq) auto

lemma valid_ret: "(\<And>s. P s \<Longrightarrow> Q r s) \<Longrightarrow> valid E P (ret r) Q"
  by (rule validI) (simp add: ret_def)

lemma valid_look: "(\<And>s. P s \<Longrightarrow> Q (f s) s) \<Longrightarrow> valid E P (look f) Q"
  by (rule validI) (simp add: look_def)

lemma valid_modify: "(\<And>s. P s \<Longrightarrow> Q () (f s)) \<Longrightarrow> valid E P (modify f) Q"
  by (rule validI) (simp add: modify_def)

lemma valid_act: "(\<And>s. P s \<Longrightarrow> \<exists>t. f s = Inr t \<and> Q () t) \<Longrightarrow> valid E P (act f) Q"
  by (rule validI) (fastforce simp: act_def)

lemma valid_ask: "(\<And>s. P s \<Longrightarrow> \<exists>r t. f s = Inr (r, t) \<and> Q r t) \<Longrightarrow> valid E P (ask f) Q"
  by (rule validI) (fastforce simp: ask_def)

text \<open>A routine that does not sleep.\<close>

lemma valid_nosleep:
  "(\<And>s es. P s \<Longrightarrow> \<exists>r t. m s es = Inr (r, t, es) \<and> Q r t) \<Longrightarrow> valid E P m Q"
  by (rule validI) blast

lemma valid_tbnd:
  assumes "valid E P m R" and "\<And>r. valid E (R r) (f r) Q"
  shows "valid E P (tbnd m f) Q"
proof (rule validI)
  fix s es assume "P s" "set es \<subseteq> E"
  with validD [OF assms(1)] consider "m s es = Inl Asleep"
    | r t fs where "m s es = Inr (r, t, fs)" "R r t" "set fs \<subseteq> E" by blast
  then show "tbnd m f s es = Inl Asleep \<or>
      (\<exists>r t fs. tbnd m f s es = Inr (r, t, fs) \<and> Q r t \<and> set fs \<subseteq> E)"
  proof cases
    case 1
    then show ?thesis by (simp add: tbnd_def)
  next
    case 2
    with validD [OF assms(2)] have "f r t fs = Inl Asleep \<or>
      (\<exists>q u gs. f r t fs = Inr (q, u, gs) \<and> Q q u \<and> set gs \<subseteq> E)" by blast
    with 2(1) show ?thesis by (simp add: tbnd_def)
  qed
qed

lemma valid_tseq: "valid E P m R \<Longrightarrow> (\<And>r. valid E (R r) n Q) \<Longrightarrow> valid E P (tseq m n) Q"
  unfolding tseq_def by (rule valid_tbnd)

lemma valid_tfold:
  assumes "\<And>x. x \<in> set xs \<Longrightarrow> valid E I (f x) (\<lambda>_. I)"
  shows "valid E I (tfold f xs) (\<lambda>_. I)"
  using assms by (induction xs) (auto intro!: valid_ret intro: valid_tseq)

lemma valid_if:
  "(b \<Longrightarrow> valid E P m Q) \<Longrightarrow> (\<not> b \<Longrightarrow> valid E P n Q) \<Longrightarrow> valid E P (if b then m else n) Q"
  by simp

lemma valid_pure: "(b \<Longrightarrow> valid E P m Q) \<Longrightarrow> valid E (\<lambda>s. b \<and> P s) m Q"
  by (cases b) (auto simp: valid_def)

lemma valid_False: "valid E (\<lambda>_. False) m Q"
  by (simp add: valid_def)

section \<open>Holding spin locks\<close>

definition inside :: "nat \<Rightarrow> lockid set \<Rightarrow> 'a console_scheme \<Rightarrow> bool" where
  "inside p H s \<longleftrightarrow> con_ok s \<and> finite H \<and> L_cons \<notin> H \<and> ncli (cur s) = int (card H) \<and>
     cpu_proc (cur s) = Some p \<and> (\<forall>L. if L \<in> H then holds L s else free_lock L s)"

lemma inside_cong:
  assumes "cpus t = cpus s" "this_cpu t = this_cpu s" "ncpu t = ncpu s" "lapic_id t = lapic_id s"
    "locks t = locks s" "panicked t = panicked s" "con t = con s" "cons_locking t = cons_locking s"
  shows "inside p H t = inside p H s"
proof -
  have "con_ok t = con_ok s" using assms cpu_ok_cong [of t s] by (intro con_ok_cong) simp_all
  then show ?thesis by (simp add: inside_def assms)
qed

lemma inside_upd_proc [simp]: "inside p H (upd_proc q f s) = inside p H s"
  by (rule inside_cong) simp_all

lemma inside_cpu_ok: "inside p H s \<Longrightarrow> cpu_ok s"
  by (simp add: inside_def con_ok_def)

lemma con_ok_acquired:
  assumes "con_ok s" and "L \<noteq> L_cons"
  shows "con_ok (acquired L s)"
  using assms cpu_ok_acquired [of s L] by (auto simp: con_ok_def acquired_def upd_cpu_def)

lemma con_ok_released:
  assumes "con_ok s" and "0 < ncli (cur s)"
  shows "con_ok (released L s)"
  using assms cpu_ok_released [of s L] by (auto simp: con_ok_def released_def upd_cpu_def)

lemma acquire_inside:
  assumes "inside p H s" and "L \<notin> H" and "L \<noteq> L_cons"
  shows "acquire L s = Inr (acquired L s)" "inside p (insert L H) (acquired L s)"
proof -
  have f: "free_lock L s" "con_ok s" using assms(1,2) by (simp_all add: inside_def)
  then show "acquire L s = Inr (acquired L s)" by (intro acquire_eq) (simp_all add: con_ok_def)
  show "inside p (insert L H) (acquired L s)"
    using assms con_ok_acquired [OF f(2) assms(3)]
    by (auto simp: inside_def acquired_def upd_cpu_def push_cpu_def take_lock_def)
qed

lemma release_inside:
  assumes "inside p H s" and "L \<in> H"
  shows "release L s = Inr (released L s)" "inside p (H - {L}) (released L s)"
proof -
  have H: "0 < card H" using assms by (auto simp: inside_def card_gt_0_iff)
  then have f: "holds L s" "con_ok s" "0 < ncli (cur s)" using assms by (auto simp: inside_def)
  then show "release L s = Inr (released L s)" by (intro release_eq) (simp_all add: con_ok_def)
  have "int (card (H - {L})) = int (card H) - 1"
    using assms H by (simp add: inside_def card_Diff_singleton of_nat_diff Suc_leI)
  then show "inside p (H - {L}) (released L s)"
    using assms con_ok_released [OF f(2,3)]
    by (auto simp: inside_def released_def upd_cpu_def drop_lock_def)
qed

text \<open>Inside a critical section the pseudo-variable \<open>myproc()\<close> has no effect.\<close>

lemma inside_myproc: "inside p H s \<Longrightarrow> H \<noteq> {} \<Longrightarrow> myproc s = Inr (Some p, s)"
  using myproc_inside [of s] by (auto simp: inside_def con_ok_def card_gt_0_iff)

lemma inside_curproc: "inside p H s \<Longrightarrow> H \<noteq> {} \<Longrightarrow> curproc s = Inr (p, s)"
  by (simp add: curproc_def inside_myproc deref_def)

lemma con_ok_synced: "con_ok (synced s) = con_ok s"
  using cpu_ok_synced [of s] by (intro con_ok_cong) (simp_all add: upd_cpu_def)

lemma inside_synced [simp]: "inside p H (synced s) = inside p H s"
  by (simp add: inside_def con_ok_synced)

lemma myproc_returns: "inside p H s \<Longrightarrow> myproc s = Inr (Some p, synced s)"
  using myproc_eq [of s] by (simp add: inside_def con_ok_def)

lemma curproc_returns: "inside p H s \<Longrightarrow> curproc s = Inr (p, synced s)"
  by (simp add: curproc_def myproc_returns deref_def)

section \<open>Sleeping\<close>

text \<open>
  What the rest of the system may do while process \<open>p\<close> is switched out: it keeps \<open>I\<close>, and when
  it resumes \<open>p\<close>, on some CPU, \<open>ptable.lock\<close> is held by that CPU and no other lock is.
\<close>

definition wakes :: "nat \<Rightarrow> ('a ptable_scheme \<Rightarrow> bool) \<Rightarrow> ('a ptable_scheme \<Rightarrow> 'a ptable_scheme) set" where
  "wakes p I = {e. \<forall>s. inside p {L_ptable} s \<and> I s \<longrightarrow> inside p {L_ptable} (e s) \<and> I (e s)}"

text \<open>
  A property of the data: it does not depend on locks and devices, nor on how \<open>p\<close> sleeps, and of
  the CPU only on its page-table register.
\<close>

definition data_inv :: "nat \<Rightarrow> ('a ptable_scheme \<Rightarrow> bool) \<Rightarrow> bool" where
  "data_inv p I \<longleftrightarrow> (\<forall>s t. quiet s t \<and> cr3 (cur t) = cr3 (cur s) \<longrightarrow> I s \<longrightarrow> I t) \<and>
     (\<forall>s c st. I s \<longrightarrow> I (upd_proc p (\<lambda>x. x\<lparr>p_chan := c, p_state := st\<rparr>) s)) \<and>
     (\<forall>s c. I s \<longrightarrow> I (upd_proc p (\<lambda>x. x\<lparr>p_chan := c\<rparr>) s))"

lemma data_inv_quiet: "data_inv p I \<Longrightarrow> I s \<Longrightarrow> quiet s t \<and> cr3 (cur t) = cr3 (cur s) \<Longrightarrow> I t"
  unfolding data_inv_def by blast

lemma data_inv_acquired: "data_inv p I \<Longrightarrow> I s \<Longrightarrow> I (acquired L s)"
  by (erule (1) data_inv_quiet) (simp add: acquired_def upd_cpu_def quiet_def push_cpu_def)

lemma data_inv_released: "data_inv p I \<Longrightarrow> I s \<Longrightarrow> I (released L s)"
  by (erule (1) data_inv_quiet) (simp add: released_def upd_cpu_def quiet_def pop_cpu_def)

lemma data_inv_upd_cpu: "data_inv p I \<Longrightarrow> I s \<Longrightarrow> (\<And>c. cr3 (f c) = cr3 c) \<Longrightarrow> I (upd_cpu i f s)"
  by (erule (1) data_inv_quiet) (simp add: quiet_upd_cpu)

lemma inside_upd_cpu:
  assumes "inside p H s" "ncli (f (cur s)) = ncli (cur s)" "IF_flag (f (cur s)) = IF_flag (cur s)"
    "\<And>c. apicid (f c) = apicid c" "cpu_proc (f (cur s)) = cpu_proc (cur s)"
  shows "inside p H (upd_cpu (this_cpu s) f s)"
proof -
  have "cpu_ok (upd_cpu (this_cpu s) f s) = cpu_ok s" using assms(2-4) by (simp add: cpu_ok_def cli_ok_def)
  then have "con_ok (upd_cpu (this_cpu s) f s) = con_ok s"
    by (intro con_ok_cong) (simp_all add: upd_cpu_def)
  with assms show ?thesis by (simp add: inside_def)
qed

lemma sched_moves:
  assumes "inside p {L_ptable} s" and "p_state (procs s p) \<noteq> RUNNING" and "I s" and "data_inv p J"
    and "\<And>s. inside p {L_ptable} s \<Longrightarrow> I s \<Longrightarrow> inside p {L_ptable} (e s) \<and> J (e s)"
  shows "\<exists>t. sched s (e # es) = Inr (t, es) \<and> inside p {L_ptable} t \<and> J t"
proof -
  have n: "ncli (cur s) = 1" "holds L_ptable s" "cpu_proc (cur s) = Some p"
    using assms(1) by (auto simp: inside_def)
  then have "sched_enter s = Inr (intena (cur s), s)"
    using assms(2) by (subst sched_enter_eq [OF inside_cpu_ok [OF assms(1)]]) simp_all
  moreover have t: "inside p {L_ptable} (e s)" "J (e s)" using assms(1,3,5) by simp_all
  then have "mycpu (e s) = Inr (this_cpu (e s))"
    by (intro mycpu_wf) (auto simp: inside_def con_ok_def cpu_ok_def cli_ok_def)
  ultimately have "sched s (e # es) =
      Inr (upd_cpu (this_cpu (e s)) (\<lambda>x. x\<lparr>intena := intena (cur s)\<rparr>) (e s), es)"
    by (simp add: sched_def swtch_def sched_leave_def)
  moreover have "inside p {L_ptable} (upd_cpu (this_cpu (e s)) (\<lambda>x. x\<lparr>intena := intena (cur s)\<rparr>) (e s))"
    by (rule inside_upd_cpu [OF t(1)]) simp_all
  ultimately show ?thesis using data_inv_upd_cpu [OF assms(4) t(2), of "\<lambda>x. x\<lparr>intena := intena (cur s)\<rparr>"] by fastforce
qed

lemma sched_inside:
  assumes "inside p {L_ptable} s" and "p_state (procs s p) \<noteq> RUNNING" and "I s" and "data_inv p I"
    and "e \<in> wakes p I"
  shows "\<exists>t. sched s (e # es) = Inr (t, es) \<and> inside p {L_ptable} t \<and> I t"
  using assms(5) by (intro sched_moves [where I = I, OF assms(1-4)]) (auto simp: wakes_def)

lemma sched_asleep:
  assumes "inside p {L_ptable} s" and "p_state (procs s p) \<noteq> RUNNING"
  shows "sched s [] = Inl Asleep"
proof -
  have n: "ncli (cur s) = 1" "holds L_ptable s" "cpu_proc (cur s) = Some p"
    using assms(1) by (auto simp: inside_def)
  then show ?thesis
    using assms(2) by (simp add: sched_def sched_enter_eq [OF inside_cpu_ok [OF assms(1)]] swtch_def)
qed


lemma sleep_enter_inside:
  assumes "inside p {L} s" and "L \<noteq> L_cons" and "I s" and "data_inv p I"
  shows "\<exists>t. sleep_enter ch (Some L) s = Inr (p, L, t) \<and> inside p {L_ptable} t \<and> I t \<and>
    p_state (procs t p) = SLEEPING \<and> p_chan (procs t p) = Some ch"
proof -
  let ?f = "\<lambda>x. x\<lparr>p_chan := Some ch, p_state := SLEEPING\<rparr>"
  have m: "myproc s = Inr (Some p, s)" using inside_myproc [OF assms(1)] by simp
  obtain u where u: "(if L \<noteq> L_ptable then bnd (acquire L_ptable s) (release L) else Inr s) = Inr u"
      "inside p {L_ptable} u" "I u"
  proof (cases "L = L_ptable")
    case True
    with assms(1,3) that show ?thesis by simp
  next
    case False
    let ?a = "acquired L_ptable s"
    have a: "acquire L_ptable s = Inr ?a" "inside p {L_ptable, L} ?a"
      using acquire_inside [OF assms(1), of L_ptable] False by simp_all
    have H: "{L_ptable, L} - {L} = {L_ptable}" using False by auto
    have r: "release L ?a = Inr (released L ?a)" "inside p {L_ptable} (released L ?a)"
      using release_inside [OF a(2), of L] unfolding H by simp_all
    have "I (released L ?a)"
      by (rule data_inv_released [OF assms(4) data_inv_acquired [OF assms(4,3)]])
    with that [OF _ r(2)] a(1) r(1) False show ?thesis by simp
  qed
  have "sleep_enter ch (Some L) s = Inr (p, L, upd_proc p ?f u)"
    using u(1) by (simp add: sleep_enter_def m)
  moreover have "I (upd_proc p ?f u)" using assms(4) u(3) unfolding data_inv_def by blast
  ultimately show ?thesis using u(2) by (intro exI [of _ "upd_proc p ?f u"]) simp
qed

lemma sleep_leave_inside:
  assumes "inside p {L_ptable} s" and "L \<noteq> L_cons" and "I s" and "data_inv p I"
  shows "\<exists>t. sleep_leave p L s = Inr t \<and> inside p {L} t \<and> I t"
proof -
  let ?s = "upd_proc p (\<lambda>x. x\<lparr>p_chan := None\<rparr>) s"
  have s: "inside p {L_ptable} ?s" using assms(1) by simp
  have i: "I ?s" using assms(3,4) unfolding data_inv_def by blast
  show ?thesis
  proof (cases "L = L_ptable")
    case True
    then have "sleep_leave p L s = Inr ?s" by (simp add: sleep_leave_def)
    with s i True show ?thesis by (intro exI [of _ ?s]) simp
  next
    case False
    let ?a = "released L_ptable ?s"
    have a: "release L_ptable ?s = Inr ?a" "inside p {} ?a"
      using release_inside [OF s] by simp_all
    have r: "acquire L ?a = Inr (acquired L ?a)" "inside p {L} (acquired L ?a)"
      using acquire_inside [OF a(2)] assms(2) by simp_all
    have "sleep_leave p L s = Inr (acquired L ?a)"
      using False a(1) r(1) by (simp add: sleep_leave_def)
    moreover have "I (acquired L ?a)"
      by (rule data_inv_acquired [OF assms(4) data_inv_released [OF assms(4) i]])
    ultimately show ?thesis using r(2) by (intro exI [of _ "acquired L ?a"]) simp
  qed
qed

text \<open>A process that sleeps with \<open>I\<close> while the rest of the system leads from \<open>I\<close> to \<open>J\<close>.\<close>

lemma sleep_moves:
  assumes "inside p {L} s" and "L \<noteq> L_cons" and "I s" and "data_inv p I" and "data_inv p J"
    and "\<And>s. inside p {L_ptable} s \<Longrightarrow> I s \<Longrightarrow> inside p {L_ptable} (e s) \<and> J (e s)"
  shows "\<exists>t. sleep ch (Some L) s (e # es) = Inr (t, es) \<and> inside p {L} t \<and> J t"
proof -
  obtain t where t: "sleep_enter ch (Some L) s = Inr (p, L, t)" "inside p {L_ptable} t" "I t"
      "p_state (procs t p) = SLEEPING"
    using sleep_enter_inside [OF assms(1-4)] by blast
  obtain u where u: "sched t (e # es) = Inr (u, es)" "inside p {L_ptable} u" "J u"
    using sched_moves [where I = I and J = J and e = e and es = es, OF t(2) _ t(3) assms(5,6)] t(4) by auto
  obtain v where "sleep_leave p L u = Inr v" "inside p {L} v" "J v"
    using sleep_leave_inside [OF u(2) assms(2) u(3) assms(5)] by blast
  with t(1) u(1) show ?thesis by (simp add: sleep_def)
qed

lemma sleep_inside:
  assumes "inside p {L} s" and "L \<noteq> L_cons" and "I s" and "data_inv p I" and "e \<in> wakes p I"
  shows "\<exists>t. sleep ch (Some L) s (e # es) = Inr (t, es) \<and> inside p {L} t \<and> I t"
  using assms(5) by (intro sleep_moves [where I = I, OF assms(1-4) assms(4)]) (auto simp: wakes_def)

lemma sleep_asleep:
  assumes "inside p {L} s" and "L \<noteq> L_cons"
  shows "sleep ch (Some L) s [] = Inl Asleep"
proof -
  have "data_inv p (\<lambda>_. True)" by (simp add: data_inv_def)
  with sleep_enter_inside [OF assms _ this] obtain t where
    "sleep_enter ch (Some L) s = Inr (p, L, t)" "inside p {L_ptable} t" "p_state (procs t p) = SLEEPING"
    by blast
  then show ?thesis by (simp add: sleep_def sched_asleep)
qed

text \<open>The rule for blocking loops: an invariant that every iteration and the environment keep.\<close>

lemma valid_sleep_loop:
  assumes L: "L \<noteq> L_cons" and I: "data_inv p I" and E: "E \<subseteq> wakes p I"
    and pre: "\<And>s. inside p {L} s \<Longrightarrow> I s \<Longrightarrow>
      \<exists>r t. pre s = Inr (r, t) \<and> (case r of None \<Rightarrow> inside p {L} t \<and> I t | Some r \<Rightarrow> Q r t)"
  shows "valid E (\<lambda>s. inside p {L} s \<and> I s) (sleep_loop pre ch L) Q"
proof (rule validI)
  fix s es
  assume "inside p {L} s \<and> I s" and "set es \<subseteq> E"
  then show "sleep_loop pre ch L s es = Inl Asleep \<or>
    (\<exists>r t fs. sleep_loop pre ch L s es = Inr (r, t, fs) \<and> Q r t \<and> set fs \<subseteq> E)"
  proof (induction es arbitrary: s)
    case Nil
    then obtain r t where r: "pre s = Inr (r, t)"
        "case r of None \<Rightarrow> inside p {L} t \<and> I t | Some r \<Rightarrow> Q r t" using pre by blast
    show ?case
    proof (cases r)
      case None
      with r sleep_asleep [OF _ L] have "sleep ch (Some L) t [] = Inl Asleep" by auto
      with r(1) None show ?thesis by (subst sleep_loop.simps) simp
    next
      case (Some x)
      with r show ?thesis by (subst (2) sleep_loop.simps) simp
    qed
  next
    case (Cons e es)
    then obtain r t where r: "pre s = Inr (r, t)"
        "case r of None \<Rightarrow> inside p {L} t \<and> I t | Some r \<Rightarrow> Q r t" using pre by blast
    show ?case
    proof (cases r)
      case None
      with r have t: "inside p {L} t" "I t" by simp_all
      have "e \<in> wakes p I" using Cons.prems(2) E by auto
      then obtain u where u: "sleep ch (Some L) t (e # es) = Inr (u, es)" "inside p {L} u" "I u"
        using sleep_inside [OF t(1) L t(2) I] by blast
      then have "sleep_loop pre ch L s (e # es) = sleep_loop pre ch L u es"
        using r(1) None by (subst sleep_loop.simps) simp
      then show ?thesis using Cons.IH [of u] u(2,3) Cons.prems(2) by simp
    next
      case (Some x)
      with r Cons.prems(2) show ?thesis by (subst (2) sleep_loop.simps) simp
    qed
  qed
qed

section \<open>Waking from inside a critical section\<close>

lemma wakeup_eq:
  assumes "cpu_ok s" and "free_lock L_ptable s"
  shows "wakeup ch s = Inr (wakeup1 (Some ch) (synced s))"
proof -
  let ?a = "acquired L_ptable s"
  have "release L_ptable (wakeup1 (Some ch) ?a) =
      Inr ((wakeup1 (Some ch) ?a)\<lparr>cpus := (cpus s)(this_cpu s := sync_cpu (cur s)), locks := locks s\<rparr>)"
    by (rule crit_exit [OF assms]) (simp_all add: wakeup1_eq)
  also have "(wakeup1 (Some ch) ?a)\<lparr>cpus := (cpus s)(this_cpu s := sync_cpu (cur s)), locks := locks s\<rparr> =
      wakeup1 (Some ch) (synced s)"
    by (simp add: wakeup1_eq acquired_def upd_cpu_def cong: if_cong)
  finally show ?thesis by (simp add: wakeup_def acquire_eq [OF assms])
qed

lemma inside_wakeup1 [simp]: "inside p H (wakeup1 ch s) = inside p H s"
  by (rule inside_cong) (simp_all add: wakeup1_eq)

lemma synced_inside: "inside p H s \<Longrightarrow> H \<noteq> {} \<Longrightarrow> synced s = s"
  by (intro upd_cpu_id sync_cpu_id) (auto simp: inside_def card_gt_0_iff)

lemma wakeup_inside:
  assumes "inside p H s" and "L_ptable \<notin> H"
  shows "wakeup ch s = Inr (wakeup1 (Some ch) (synced s))"
  using assms by (intro wakeup_eq) (auto simp: inside_def con_ok_def)

text \<open>
  A critical section whose body changes data only: its effect is that of the body, and the
  caller's locks are as before.
\<close>

lemma crit_section:
  assumes "inside p H s" and "L \<notin> H" and "L \<noteq> L_cons"
    and f: "\<And>c k. f (s\<lparr>cpus := c, locks := k\<rparr>) = (f s)\<lparr>cpus := c, locks := k\<rparr>"
      "this_cpu (f s) = this_cpu s" "ncpu (f s) = ncpu s" "lapic_id (f s) = lapic_id s"
  shows "bnd (acquire L s) (\<lambda>s. release L (f s)) = Inr (f (synced s))"
proof -
  let ?a = "acquired L s"
  have s: "cpu_ok s" "free_lock L s" using assms(1,2) by (auto simp: inside_def con_ok_def)
  have a: "?a = s\<lparr>cpus := cpus ?a, locks := locks ?a\<rparr>" by (simp add: acquired_def upd_cpu_def)
  have fa: "f ?a = (f s)\<lparr>cpus := cpus ?a, locks := locks ?a\<rparr>" by (subst a) (rule f(1))
  have "release L (f ?a) = Inr ((f ?a)\<lparr>cpus := (cpus s)(this_cpu s := sync_cpu (cur s)), locks := locks s\<rparr>)"
    by (rule crit_exit [OF s]) (simp_all add: fa f)
  also have "(f ?a)\<lparr>cpus := (cpus s)(this_cpu s := sync_cpu (cur s)), locks := locks s\<rparr> = f (synced s)"
  proof -
    have "synced s = s\<lparr>cpus := (cpus s)(this_cpu s := sync_cpu (cur s)), locks := locks s\<rparr>"
      by (simp add: upd_cpu_def)
    then have "f (synced s) = f (s\<lparr>cpus := (cpus s)(this_cpu s := sync_cpu (cur s)), locks := locks s\<rparr>)"
      by (rule arg_cong)
    then show ?thesis unfolding fa f(1) by simp
  qed
  finally show ?thesis using acquire_eq [OF s] by simp
qed

lemma valid_acquire:
  fixes I :: "'a ptable_scheme \<Rightarrow> bool"
  assumes "data_inv p I" and "L \<notin> H" and "L \<noteq> L_cons"
  shows "valid E (\<lambda>s. inside p H s \<and> I s) (act (acquire L)) (\<lambda>_ s. inside p (insert L H) s \<and> I s)"
proof (rule valid_act)
  fix s :: "'a ptable_scheme" assume s: "inside p H s \<and> I s"
  then show "\<exists>t. acquire L s = Inr t \<and> inside p (insert L H) t \<and> I t"
    using acquire_inside [of p H s L] data_inv_acquired [OF assms(1), of s L] assms(2,3) by blast
qed

lemma valid_release:
  fixes I :: "'a ptable_scheme \<Rightarrow> bool"
  assumes "data_inv p I" and "L \<in> H"
  shows "valid E (\<lambda>s. inside p H s \<and> I s) (act (release L)) (\<lambda>_ s. inside p (H - {L}) s \<and> I s)"
proof (rule valid_act)
  fix s :: "'a ptable_scheme" assume s: "inside p H s \<and> I s"
  then show "\<exists>t. release L s = Inr t \<and> inside p (H - {L}) t \<and> I t"
    using release_inside [of p H s L] data_inv_released [OF assms(1), of s L] assms(2) by blast
qed

section \<open>Printing\<close>

lemma cprintf_returns:
  assumes "inside p H s" and "fmt_ok (str fmt) args"
  shows "\<exists>t. cprintf fmt args s = Inr t \<and> inside p H t \<and> quiet s t"
proof -
  have "con_ok s" using assms(1) by (simp add: inside_def)
  then obtain d C where c: "cprintf fmt args s = Inr (s\<lparr>cpus := C, con := d\<rparr>)" "condev_ok d"
      "C = cpus s \<or> C = (cpus s)(this_cpu s := sync_cpu (cur s))"
    using cprintf_ok [OF _ assms(2)] by blast
  let ?t = "s\<lparr>cpus := C, con := d\<rparr>"
  have d: "inside p H (u\<lparr>con := d\<rparr>)" if "inside p H u" for u
    using that c(2) con_ok_con [of u d] by (simp add: inside_def)
  have "?t = s\<lparr>con := d\<rparr> \<or> ?t = (synced s)\<lparr>con := d\<rparr>" using c(3) by (auto simp: upd_cpu_def)
  then have "inside p H ?t" using d [OF assms(1)] d [of "synced s"] assms(1) by auto
  moreover have "quiet s ?t" by (simp add: quiet_def)
  ultimately show ?thesis using c(1) by blast
qed

end
