(* ===== verification/Sleeplock.thy ===== *)
theory Sleeplock
  imports Thread
begin

text \<open>
  Sleep locks, \<open>sleeplock.c\<close>. The locks are those of the buffers of the block cache and of the
  inodes of the inode cache; each has its own spin lock and sleep channel.
\<close>

section \<open>The code\<close>

record sleeplock =
  sl_locked :: bool
  sl_name :: string
  sl_pid :: uint

datatype slid = SL_buf nat | SL_inode nat

primrec slk :: "slid \<Rightarrow> lockid" where
  "slk (SL_buf b) = L_buf b"
| "slk (SL_inode i) = L_inode i"

primrec slchan :: "slid \<Rightarrow> channel" where
  "slchan (SL_buf b) = Ch_buf_lock b"
| "slchan (SL_inode i) = Ch_inode_lock i"

record sleeps = ptable +
  slocks :: "slid \<Rightarrow> sleeplock"

definition upd_slock :: "slid \<Rightarrow> (sleeplock \<Rightarrow> sleeplock) \<Rightarrow> 'a sleeps_scheme \<Rightarrow> 'a sleeps_scheme" where
  "upd_slock l f s = s\<lparr>slocks := (slocks s)(l := f (slocks s l))\<rparr>"

definition initsleeplock :: "slid \<Rightarrow> string \<Rightarrow> 'a sleeps_scheme \<Rightarrow> 'a sleeps_scheme" where
  "initsleeplock l name s =
     upd_slock l (\<lambda>x. x\<lparr>sl_name := name, sl_locked := False, sl_pid := 0\<rparr>)
       (initlock (slk l) ''sleep lock'' s)"

text \<open>The field \<open>pid\<close> of the running process.\<close>

definition my_pid :: "('a ptable_scheme, uint) thr" where
  "my_pid = tbnd (ask curproc) (\<lambda>p. look (\<lambda>s. p_pid (procs s p)))"

definition acquiresleep :: "slid \<Rightarrow> ('a sleeps_scheme, unit) thr" where
  "acquiresleep l =
     tseq (act (acquire (slk l)))
     (tseq (sleep_while (\<lambda>s. sl_locked (slocks s l)) (slchan l) (slk l))
     (tseq (modify (upd_slock l (\<lambda>x. x\<lparr>sl_locked := True\<rparr>)))
     (tbnd my_pid (\<lambda>pd.
      tseq (modify (upd_slock l (\<lambda>x. x\<lparr>sl_pid := pd\<rparr>)))
     (act (release (slk l)))))))"

definition releasesleep :: "slid \<Rightarrow> ('a sleeps_scheme, unit) thr" where
  "releasesleep l =
     tseq (act (acquire (slk l)))
     (tseq (modify (upd_slock l (\<lambda>x. x\<lparr>sl_locked := False, sl_pid := 0\<rparr>)))
     (tseq (act (wakeup (slchan l)))
     (act (release (slk l)))))"

definition holdingsleep :: "slid \<Rightarrow> ('a sleeps_scheme, bool) thr" where
  "holdingsleep l =
     tseq (act (acquire (slk l)))
     (tbnd (look (\<lambda>s. sl_locked (slocks s l))) (\<lambda>k.
      tbnd (if k then tbnd my_pid (\<lambda>pd. look (\<lambda>s. sl_pid (slocks s l) = pd)) else ret False) (\<lambda>r.
      tseq (act (release (slk l))) (ret r))))"

section \<open>What the operations do\<close>

lemma slk_simps [simp]: "slk l \<noteq> L_ptable" "slk l \<noteq> L_cons" "L_ptable \<noteq> slk l" "L_cons \<noteq> slk l"
  by (cases l; simp)+

lemma upd_slock_simps [simp]:
  "slocks (upd_slock l f s) = (slocks s)(l := f (slocks s l))" "procs (upd_slock l f s) = procs s"
  "cpus (upd_slock l f s) = cpus s" "this_cpu (upd_slock l f s) = this_cpu s"
  "ncpu (upd_slock l f s) = ncpu s" "lapic_id (upd_slock l f s) = lapic_id s"
  "locks (upd_slock l f s) = locks s" "panicked (upd_slock l f s) = panicked s"
  "con (upd_slock l f s) = con s" "cons_locking (upd_slock l f s) = cons_locking s"
  "mem (upd_slock l f s) = mem s"
  by (simp_all add: upd_slock_def)

lemma upd_slock_frame:
  "upd_slock l f (s\<lparr>cpus := c, locks := k\<rparr>) = (upd_slock l f s)\<lparr>cpus := c, locks := k\<rparr>"
  by (simp add: upd_slock_def)

lemma inside_upd_slock [simp]: "inside p H (upd_slock l f s) = inside p H s"
  by (rule inside_cong) simp_all

lemma sleeps_fields [simp]:
  "slocks (acquired L s) = slocks s" "slocks (released L s) = slocks s"
  "slocks (upd_cpu i g s) = slocks s" "slocks (upd_proc q h s) = slocks s"
  "slocks (wakeup1 ch s) = slocks s"
  by (simp_all add: acquired_def released_def upd_cpu_def upd_proc_def wakeup1_eq)

lemma my_pid_inside: "inside p H s \<Longrightarrow> H \<noteq> {} \<Longrightarrow> my_pid s es = Inr (p_pid (procs s p), s, es)"
  by (simp add: my_pid_def tbnd_def ask_def look_def inside_curproc)

text \<open>The state in which process \<open>p\<close> has taken the lock, and in which nobody has.\<close>

definition sl_taken :: "slid \<Rightarrow> nat \<Rightarrow> 'a sleeps_scheme \<Rightarrow> 'a sleeps_scheme" where
  "sl_taken l p s = upd_slock l (\<lambda>x. x\<lparr>sl_locked := True, sl_pid := p_pid (procs s p)\<rparr>) s"

definition sl_dropped :: "slid \<Rightarrow> 'a sleeps_scheme \<Rightarrow> 'a sleeps_scheme" where
  "sl_dropped l s = wakeup1 (Some (slchan l)) (upd_slock l (\<lambda>x. x\<lparr>sl_locked := False, sl_pid := 0\<rparr>) s)"

abbreviation sl_held :: "slid \<Rightarrow> nat \<Rightarrow> 'a sleeps_scheme \<Rightarrow> bool" where
  "sl_held l p s \<equiv> sl_locked (slocks s l) \<and> sl_pid (slocks s l) = p_pid (procs s p)"

lemma upd_slock_upd_slock:
  "upd_slock l f (upd_slock l g s) = upd_slock l (\<lambda>x. f (g x)) s"
  by (simp add: upd_slock_def)

lemma release_data:
  assumes "inside p H s" and "L \<notin> H" and "L \<noteq> L_cons"
    and "\<And>c k. f (s\<lparr>cpus := c, locks := k\<rparr>) = (f s)\<lparr>cpus := c, locks := k\<rparr>"
      "this_cpu (f s) = this_cpu s" "ncpu (f s) = ncpu s" "lapic_id (f s) = lapic_id s"
  shows "release L (f (acquired L s)) = Inr (f (synced s))"
  using crit_section [of p H s L f, OF assms] acquire_inside [OF assms(1-3)] by simp

lemma sl_taken_frame:
  "sl_taken l p (s\<lparr>cpus := c, locks := k\<rparr>) = (sl_taken l p s)\<lparr>cpus := c, locks := k\<rparr>"
  by (simp add: sl_taken_def upd_slock_def)

lemma sl_dropped_frame:
  "sl_dropped l (s\<lparr>cpus := c, locks := k\<rparr>) = (sl_dropped l s)\<lparr>cpus := c, locks := k\<rparr>"
  by (simp add: sl_dropped_def upd_slock_def wakeup1_eq cong: if_cong)

lemma acquiresleep_free:
  assumes "inside p {} s" and "\<not> sl_locked (slocks s l)"
  shows "acquiresleep l s es = Inr ((), sl_taken l p (synced s), es)"
proof -
  let ?a = "acquired (slk l) s"
  have a: "acquire (slk l) s = Inr ?a" "inside p {slk l} ?a"
    using acquire_inside [OF assms(1), of "slk l"] by simp_all
  have "release (slk l) (sl_taken l p ?a) = Inr (sl_taken l p (synced s))"
    by (rule release_data [OF assms(1)]) (simp_all add: sl_taken_frame, simp_all add: sl_taken_def)
  moreover have "sleep_while (\<lambda>s. sl_locked (slocks s l)) (slchan l) (slk l) ?a es = Inr ((), ?a, es)"
    using assms(2) by (subst sleep_loop.simps) simp
  moreover have "my_pid (upd_slock l (sl_locked_update (\<lambda>_. True)) ?a) es =
      Inr (p_pid (procs s p), upd_slock l (sl_locked_update (\<lambda>_. True)) ?a, es)"
    by (subst my_pid_inside [of p "{slk l}"]) (use a(2) in simp_all)
  ultimately show ?thesis
    by (simp add: acquiresleep_def tseq_def tbnd_def act_def modify_def a(1) upd_slock_upd_slock sl_taken_def)
qed

lemma releasesleep_eq:
  assumes "inside p {} s"
  shows "releasesleep l s es = Inr ((), sl_dropped l (synced s), es)"
proof -
  let ?a = "acquired (slk l) s" and ?f = "\<lambda>x. x\<lparr>sl_locked := False, sl_pid := 0\<rparr>"
  have a: "acquire (slk l) s = Inr ?a" "inside p {slk l} ?a"
    using acquire_inside [OF assms(1), of "slk l"] by simp_all
  have "wakeup (slchan l) (upd_slock l ?f ?a) =
      Inr (wakeup1 (Some (slchan l)) (synced (upd_slock l ?f ?a)))"
    by (rule wakeup_inside [of p "{slk l}"]) (use a(2) in simp_all)
  moreover have "synced (upd_slock l ?f ?a) = upd_slock l ?f ?a"
    by (rule synced_inside [of p "{slk l}"]) (use a(2) in simp_all)
  moreover have "release (slk l) (sl_dropped l ?a) = Inr (sl_dropped l (synced s))"
    by (rule release_data [OF assms(1)]) (simp_all add: sl_dropped_frame, simp_all add: sl_dropped_def wakeup1_eq)
  ultimately show ?thesis
    by (simp add: releasesleep_def tseq_def tbnd_def act_def modify_def a(1) sl_dropped_def)
qed

lemma holdingsleep_eq:
  assumes "inside p {} s"
  shows "holdingsleep l s es = Inr (sl_held l p s, synced s, es)"
proof -
  let ?a = "acquired (slk l) s"
  have a: "acquire (slk l) s = Inr ?a" "inside p {slk l} ?a"
    using acquire_inside [OF assms(1), of "slk l"] by simp_all
  have "release (slk l) ?a = Inr (synced s)"
    using release_data [OF assms(1), of "slk l" "\<lambda>s. s"] by simp
  then show ?thesis
    by (simp add: holdingsleep_def tseq_def tbnd_def act_def look_def ret_def a(1) my_pid_inside [OF a(2)])
qed

lemma inside_sl_taken [simp]: "inside p H (sl_taken l q s) = inside p H s"
  by (simp add: sl_taken_def)

lemma inside_sl_dropped [simp]: "inside p H (sl_dropped l s) = inside p H s"
  by (simp add: sl_dropped_def)

lemma data_inv_slock_free: "data_inv p (\<lambda>s. sl_locked (slocks s l))"
  unfolding data_inv_def by (auto elim!: quietE)

lemma valid_acquiresleep:
  assumes "data_inv p I"
  shows "valid (wakes p I) (\<lambda>s. inside p {} s \<and> I s) (acquiresleep l)
    (\<lambda>_ t. inside p {} t \<and> (\<exists>u. inside p {slk l} u \<and> I u \<and> \<not> sl_locked (slocks u l) \<and>
       t = released (slk l) (sl_taken l p u)))"
proof -
  let ?L = "slk l" and ?A = "\<lambda>s. inside p {slk l} s \<and> I s"
  let ?Q = "\<lambda>_ :: unit. \<lambda>t. inside p {slk l} t \<and> I t \<and> \<not> sl_locked (slocks t l)"
  have 1: "valid (wakes p I) (\<lambda>s. inside p {} s \<and> I s) (act (acquire ?L)) (\<lambda>_. ?A)"
    using valid_acquire [OF assms, of ?L "{}"] by simp
  have 2: "valid (wakes p I) ?A (sleep_while (\<lambda>s. sl_locked (slocks s l)) (slchan l) ?L) ?Q"
    by (rule valid_sleep_loop [OF _ assms subset_refl]) simp_all
  have 3: "valid (wakes p I) (?Q ())
     (tseq (modify (upd_slock l (\<lambda>x. x\<lparr>sl_locked := True\<rparr>)))
     (tbnd my_pid (\<lambda>pd.
      tseq (modify (upd_slock l (\<lambda>x. x\<lparr>sl_pid := pd\<rparr>)))
     (act (release ?L)))))
    (\<lambda>_ t. inside p {} t \<and> (\<exists>u. inside p {slk l} u \<and> I u \<and> \<not> sl_locked (slocks u l) \<and>
       t = released (slk l) (sl_taken l p u)))"
  proof (rule valid_nosleep)
    fix s es assume s: "?Q () s"
    let ?b = "upd_slock l (sl_locked_update (\<lambda>_. True)) s"
    have "inside p {slk l} ?b" using s by simp
    then have "my_pid ?b es = Inr (p_pid (procs s p), ?b, es)" by (simp add: my_pid_inside)
    moreover have t: "inside p {slk l} (sl_taken l p s)" using s by simp
    then have "release ?L (sl_taken l p s) = Inr (released ?L (sl_taken l p s))"
        "inside p {} (released ?L (sl_taken l p s))"
      using release_inside [OF t] by simp_all
    ultimately have "tseq (modify (upd_slock l (\<lambda>x. x\<lparr>sl_locked := True\<rparr>)))
     (tbnd my_pid (\<lambda>pd.
      tseq (modify (upd_slock l (\<lambda>x. x\<lparr>sl_pid := pd\<rparr>)))
     (act (release ?L)))) s es = Inr ((), released ?L (sl_taken l p s), es)"
      by (simp add: tseq_def tbnd_def modify_def act_def upd_slock_upd_slock sl_taken_def)
    with s \<open>inside p {} (released ?L (sl_taken l p s))\<close> show "\<exists>r t. tseq (modify (upd_slock l (\<lambda>x. x\<lparr>sl_locked := True\<rparr>)))
     (tbnd my_pid (\<lambda>pd.
      tseq (modify (upd_slock l (\<lambda>x. x\<lparr>sl_pid := pd\<rparr>)))
     (act (release ?L)))) s es = Inr (r, t, es) \<and> inside p {} t \<and>
       (\<exists>u. inside p {slk l} u \<and> I u \<and> \<not> sl_locked (slocks u l) \<and> t = released (slk l) (sl_taken l p u))"
      by blast
  qed
  show ?thesis
    unfolding acquiresleep_def
    by (rule valid_tseq [OF 1], rule valid_tseq, rule valid_conseq [OF 2], assumption, assumption)
      (use 3 in simp)
qed

text \<open>
  C14: Whatever the rest of the system does while the caller sleeps, as long as it keeps \<open>I\<close>,
  \<open>acquiresleep\<close> does not fail; if it comes back, it took the lock from a state with \<open>I\<close> in which
  the lock was free, and the caller is now its owner. In particular it does not come back as long
  as the others keep the lock taken.
\<close>

theorem acquiresleep_exclusive:
  assumes "inside p {} s" and "I s" and "data_inv p I" and "set es \<subseteq> wakes p I"
  shows "acquiresleep l s es = Inl Asleep \<or>
    (\<exists>t fs u. acquiresleep l s es = Inr ((), t, fs) \<and> inside p {} t \<and> sl_held l p t \<and>
       I u \<and> \<not> sl_locked (slocks u l) \<and> (\<forall>k. k \<noteq> l \<longrightarrow> slocks t k = slocks u k))"
proof -
  have *: "sl_held l p (released (slk l) (sl_taken l p u))"
    "\<forall>k. k \<noteq> l \<longrightarrow> slocks (released (slk l) (sl_taken l p u)) k = slocks u k" for u :: "'a sleeps_scheme"
    by (simp_all add: sl_taken_def)
  have "inside p {} s \<and> I s" using assms(1,2) by simp
  from validD [OF valid_acquiresleep [OF assms(3)] this assms(4), of l] consider
    "acquiresleep l s es = Inl Asleep"
    | t fs u where "acquiresleep l s es = Inr ((), t, fs)" "inside p {} t" "I u" "\<not> sl_locked (slocks u l)"
      "t = released (slk l) (sl_taken l p u)" by auto
  then show ?thesis using * by cases (simp, blast)
qed

text \<open>
  C39: \<open>releasesleep\<close> frees the lock and makes every process that sleeps on it runnable; no other
  process changes.
\<close>

theorem releasesleep_wakes:
  assumes "inside p {} s"
  shows "\<exists>t. releasesleep l s es = Inr ((), t, es) \<and> inside p {} t \<and> \<not> sl_locked (slocks t l) \<and>
    (\<forall>q<NPROC. procs t q = (if p_state (procs s q) = SLEEPING \<and> p_chan (procs s q) = Some (slchan l)
       then (procs s q)\<lparr>p_state := RUNNABLE\<rparr> else procs s q))"
  unfolding releasesleep_eq [OF assms]
proof (intro exI conjI)
  show "inside p {} (sl_dropped l (synced s))" using assms by simp
qed (simp_all add: sl_dropped_def wakeup1_eq)

section \<open>A sleep lock is a mutex\<close>

definition acq_sleep :: "slid \<Rightarrow> 'a sleeps_scheme \<Rightarrow> 'a sleeps_scheme res" where
  "acq_sleep l s = bnd (acquiresleep l s []) (\<lambda>(_, s, _). Inr s)"

definition rel_sleep :: "slid \<Rightarrow> 'a sleeps_scheme \<Rightarrow> 'a sleeps_scheme res" where
  "rel_sleep l s = bnd (releasesleep l s []) (\<lambda>(_, s, _). Inr s)"

lemma acquiresleep_taken:
  assumes "inside p {} s" and "sl_locked (slocks s l)" 
  shows "acquiresleep l s [] = Inl Asleep"
proof -
  from validD [OF valid_acquiresleep [OF data_inv_slock_free [of p l], of l], of s "[]"] assms
  show ?thesis by auto
qed

interpretation slm: mutex "acq_sleep l" "rel_sleep l" "\<lambda>s. inside p {} s \<and> \<not> sl_locked (slocks s l)"
  "\<lambda>s. inside p {} s \<and> sl_held l p s"
proof
  fix s :: "'a sleeps_scheme"
  show "\<exists>t. acq_sleep l s = Inr t \<and> inside p {} t \<and> sl_held l p t"
    if "inside p {} s \<and> \<not> sl_locked (slocks s l)"
    using that by (simp add: acq_sleep_def acquiresleep_free [of p] sl_taken_def)
  show "\<exists>t. rel_sleep l s = Inr t \<and> inside p {} t \<and> \<not> sl_locked (slocks t l)"
    if "inside p {} s \<and> sl_held l p s"
    using that by (simp add: rel_sleep_def releasesleep_eq [of p] sl_dropped_def)
  show "\<exists>e. acq_sleep l s = Inl e" if "inside p {} s \<and> sl_held l p s"
    using that by (simp add: acq_sleep_def acquiresleep_taken [of p])
qed

section \<open>A concrete state\<close>

text \<open>Process 0 runs on CPU 0; no lock is held.\<close>

definition boot_sleeps :: "proc list \<Rightarrow> sleeps" where
  "boot_sleeps ps = ptable.extend (set_proc 0 (Some 0) (boot_ptable ps))
     \<lparr>slocks = (\<lambda>_. \<lparr>sl_locked = False, sl_name = ''buffer'', sl_pid = 0\<rparr>)\<rparr>"

lemma boot_sleeps_simps [simp]:
  "procs (boot_sleeps ps) = procs (boot_ptable ps)" "slocks (boot_sleeps ps) = (\<lambda>_. \<lparr>sl_locked = False, sl_name = ''buffer'', sl_pid = 0\<rparr>)"
  "cpus (boot_sleeps ps) = boot_cpu(0 := (boot_cpu 0)\<lparr>cpu_proc := Some 0\<rparr>)" "locks (boot_sleeps ps) = boot_locks"
  "ncpu (boot_sleeps ps) = 2" "this_cpu (boot_sleeps ps) = 0" "lapic_id (boot_sleeps ps) = of_nat"
  "\<not> panicked (boot_sleeps ps)" "cons_locking (boot_sleeps ps)" "con (boot_sleeps ps) = boot_con"
  using boot_ptable_simps [of ps]
  by (simp_all add: boot_sleeps_def ptable.defs set_proc_def upd_cpu_def del: boot_ptable_simps)

lemma inside_boot_sleeps: "inside 0 {} (boot_sleeps ps)"
proof -
  have "(\<lambda>i. if i = 0 then 0 else of_nat i) = (of_nat :: nat \<Rightarrow> uchar)" by auto
  with inj_of_nat_2 show ?thesis
    by (auto simp: inside_def con_ok_def cpu_ok_def cpus_wf_def cli_ok_def condev_ok_def boot_con_def
        if_distrib [of apicid] cong: if_cong)
qed

theorem acquiresleep_exclusive_witness:
  "\<exists>t. acquiresleep (SL_buf 3) (boot_sleeps [some_proc 7 RUNNING 60 0]) [] = Inr ((), t, []) \<and>
     sl_pid (slocks t (SL_buf 3)) = 7"
proof -
  let ?s = "boot_sleeps [some_proc 7 RUNNING 60 0]"
  have t: "acquiresleep (SL_buf 3) ?s [] = Inr ((), sl_taken (SL_buf 3) 0 (synced ?s), [])"
    by (rule acquiresleep_free [OF inside_boot_sleeps]) simp
  with acquiresleep_exclusive [OF inside_boot_sleeps [of "[some_proc 7 RUNNING 60 0]"], of "\<lambda>_. True" "[]" "SL_buf 3"]
  have "sl_held (SL_buf 3) 0 (sl_taken (SL_buf 3) 0 (synced ?s))" by (auto simp: data_inv_def)
  with t show ?thesis by (auto simp: sl_taken_def)
qed

theorem releasesleep_wakes_witness:
  "\<exists>t. releasesleep (SL_buf 3) (boot_sleeps [some_proc 7 RUNNING 60 0]) [] = Inr ((), t, []) \<and>
     \<not> sl_locked (slocks t (SL_buf 3)) \<and> p_state (procs t 0) = RUNNING"
proof -
  obtain t where t: "releasesleep (SL_buf 3) (boot_sleeps [some_proc 7 RUNNING 60 0]) [] = Inr ((), t, [])"
      "\<not> sl_locked (slocks t (SL_buf 3))"
      "\<forall>q<NPROC. procs t q = (if p_state (procs (boot_sleeps [some_proc 7 RUNNING 60 0]) q) = SLEEPING \<and>
         p_chan (procs (boot_sleeps [some_proc 7 RUNNING 60 0]) q) = Some (slchan (SL_buf 3))
       then (procs (boot_sleeps [some_proc 7 RUNNING 60 0]) q)\<lparr>p_state := RUNNABLE\<rparr>
       else procs (boot_sleeps [some_proc 7 RUNNING 60 0]) q)"
    using releasesleep_wakes [OF inside_boot_sleeps [of "[some_proc 7 RUNNING 60 0]"], of "SL_buf 3" "[]"]
    by blast
  from t(3) have "p_state (procs t 0) = RUNNING" by simp
  with t(1,2) show ?thesis by blast
qed

end
