(* ===== verification/Pipe.thy ===== *)
theory Pipe
  imports Sleeplock
begin

text \<open>
  The file table of \<open>file.c\<close> (allocation and duplication; the operations that reach the file
  system are in \<open>File\<close>) and pipes, \<open>pipe.c\<close>. A \<open>struct file *\<close> is an index into \<open>ftable.file\<close>; a
  \<open>struct pipe *\<close> is the address of the page it lives in, and its fields are a record at that
  address.
\<close>

section \<open>Data\<close>

datatype fdtype = FD_NONE | FD_PIPE | FD_INODE

record kfile =
  f_type :: fdtype
  f_ref :: int
  f_readable :: bool
  f_writable :: bool
  f_pipe :: uint
  f_ip :: "nat option"
  f_off :: uint

record pipe =
  pdata :: "nat \<Rightarrow> uchar"
  nread :: uint
  nwrite :: uint
  readopen :: bool
  writeopen :: bool

abbreviation (input) NFILE :: nat where "NFILE \<equiv> 100"
abbreviation (input) PIPESIZE :: uint where "PIPESIZE \<equiv> 512"

record ftable = sleeps +
  files :: "nat \<Rightarrow> kfile"
  pipes :: "uint \<Rightarrow> pipe"

definition upd_file :: "nat \<Rightarrow> (kfile \<Rightarrow> kfile) \<Rightarrow> 'a ftable_scheme \<Rightarrow> 'a ftable_scheme" where
  "upd_file f g s = s\<lparr>files := (files s)(f := g (files s f))\<rparr>"

definition upd_pipe :: "uint \<Rightarrow> (pipe \<Rightarrow> pipe) \<Rightarrow> 'a ftable_scheme \<Rightarrow> 'a ftable_scheme" where
  "upd_pipe p g s = s\<lparr>pipes := (pipes s)(p := g (pipes s p))\<rparr>"

section \<open>The file table\<close>

definition fileinit :: "'a machine_scheme \<Rightarrow> 'a machine_scheme" where
  "fileinit s = initlock L_ftable ''ftable'' s"

definition filealloc :: "'a ftable_scheme \<Rightarrow> (nat option \<times> 'a ftable_scheme) res" where
  "filealloc s =
     bnd (acquire L_ftable s) (\<lambda>s.
     case find (\<lambda>f. f_ref (files s f) = 0) [0..<NFILE] of
       Some f \<Rightarrow> bnd (release L_ftable (upd_file f (\<lambda>x. x\<lparr>f_ref := 1\<rparr>) s)) (\<lambda>s. Inr (Some f, s))
     | None \<Rightarrow> bnd (release L_ftable s) (\<lambda>s. Inr (None, s)))"

definition filedup :: "nat \<Rightarrow> 'a ftable_scheme \<Rightarrow> (nat \<times> 'a ftable_scheme) res" where
  "filedup f s =
     bnd (acquire L_ftable s) (\<lambda>s.
     bnd (panic_if (f_ref (files s f) < 1) ''filedup'') (\<lambda>_.
     bnd (release L_ftable (upd_file f (\<lambda>x. x\<lparr>f_ref := f_ref x + 1\<rparr>) s)) (\<lambda>s. Inr (f, s))))"

section \<open>Pipes\<close>

text \<open>
  The successful part of \<open>pipealloc\<close>: the new pipe and the two ends. The error paths call
  \<open>fileclose\<close>; the whole routine is in \<open>File\<close>.
\<close>

definition pipe_setup :: "uint \<Rightarrow> nat \<Rightarrow> nat \<Rightarrow> 'a ftable_scheme \<Rightarrow> 'a ftable_scheme" where
  "pipe_setup p f0 f1 s =
     (let s = upd_pipe p (\<lambda>x. x\<lparr>readopen := True, writeopen := True, nwrite := 0, nread := 0\<rparr>) s;
          s = initlock (L_pipe p) ''pipe'' s;
          s = upd_file f0 (\<lambda>x. x\<lparr>f_type := FD_PIPE, f_readable := True, f_writable := False, f_pipe := p\<rparr>) s
      in upd_file f1 (\<lambda>x. x\<lparr>f_type := FD_PIPE, f_readable := False, f_writable := True, f_pipe := p\<rparr>) s)"

definition pipeclose :: "uint \<Rightarrow> bool \<Rightarrow> 'a ftable_scheme \<Rightarrow> 'a ftable_scheme res" where
  "pipeclose p writable s =
     bnd (acquire (L_pipe p) s) (\<lambda>s.
     bnd (if writable then wakeup (Ch_nread p) (upd_pipe p (\<lambda>x. x\<lparr>writeopen := False\<rparr>) s)
          else wakeup (Ch_nwrite p) (upd_pipe p (\<lambda>x. x\<lparr>readopen := False\<rparr>) s)) (\<lambda>s.
     if \<not> readopen (pipes s p) \<and> \<not> writeopen (pipes s p)
     then bnd (release (L_pipe p) s) (kfree p)
     else release (L_pipe p) s))"

text \<open>The inner loop of \<open>pipewrite\<close> waits for room; \<^term>\<open>False\<close> means that the routine gives up.\<close>

definition write_wait :: "uint \<Rightarrow> 'a ftable_scheme \<Rightarrow> (bool option \<times> 'a ftable_scheme) res" where
  "write_wait p s =
     (if nwrite (pipes s p) = nread (pipes s p) + PIPESIZE
      then if \<not> readopen (pipes s p) then Inr (Some False, s)
           else bnd (curproc s) (\<lambda>(me, s).
                if p_killed (procs s me) then Inr (Some False, s)
                else bnd (wakeup (Ch_nread p) s) (\<lambda>s. Inr (None, s)))
      else Inr (Some True, s))"

definition put_byte :: "uchar \<Rightarrow> pipe \<Rightarrow> pipe" where
  "put_byte b x = x\<lparr>pdata := (pdata x)(unat (nwrite x mod PIPESIZE) := b), nwrite := nwrite x + 1\<rparr>"

fun pipewrite_loop :: "uint \<Rightarrow> uint \<Rightarrow> nat \<Rightarrow> ('a ftable_scheme, bool) thr" where
  "pipewrite_loop p addr 0 = ret True"
| "pipewrite_loop p addr (Suc n) =
     tbnd (sleep_loop (write_wait p) (Ch_nwrite p) (L_pipe p)) (\<lambda>ok.
       if \<not> ok then ret False
       else tbnd (ask (\<lambda>s. bnd (uload addr s) (\<lambda>b. Inr (b, s)))) (\<lambda>b.
            tseq (modify (upd_pipe p (put_byte b))) (pipewrite_loop p (addr + 1) n)))"

definition pipewrite :: "uint \<Rightarrow> uint \<Rightarrow> int \<Rightarrow> ('a ftable_scheme, int) thr" where
  "pipewrite p addr n =
     tseq (act (acquire (L_pipe p)))
     (tbnd (pipewrite_loop p addr (nat n)) (\<lambda>ok.
      if \<not> ok then tseq (act (release (L_pipe p))) (ret (- 1))
      else tseq (act (wakeup (Ch_nread p)))
           (tseq (act (release (L_pipe p))) (ret n))))"

definition read_wait :: "uint \<Rightarrow> 'a ftable_scheme \<Rightarrow> (bool option \<times> 'a ftable_scheme) res" where
  "read_wait p s =
     (if nread (pipes s p) = nwrite (pipes s p) \<and> writeopen (pipes s p)
      then bnd (curproc s) (\<lambda>(me, s).
           if p_killed (procs s me) then Inr (Some False, s) else Inr (None, s))
      else Inr (Some True, s))"

definition get_byte :: "pipe \<Rightarrow> uchar" where
  "get_byte x = pdata x (unat (nread x mod PIPESIZE))"

text \<open>The copy loop of \<open>piperead\<close>, with at most \<open>n\<close> more bytes after \<open>i\<close>.\<close>

fun piperead_loop :: "uint \<Rightarrow> uint \<Rightarrow> int \<Rightarrow> nat \<Rightarrow> 'a ftable_scheme \<Rightarrow> (int \<times> 'a ftable_scheme) res" where
  "piperead_loop p addr i 0 s = Inr (i, s)"
| "piperead_loop p addr i (Suc n) s =
     (if nread (pipes s p) = nwrite (pipes s p) then Inr (i, s)
      else let b = get_byte (pipes s p)
           in bnd (ustore addr b (upd_pipe p (\<lambda>x. x\<lparr>nread := nread x + 1\<rparr>) s)) (\<lambda>s.
              piperead_loop p (addr + 1) (i + 1) n s))"

definition piperead :: "uint \<Rightarrow> uint \<Rightarrow> int \<Rightarrow> ('a ftable_scheme, int) thr" where
  "piperead p addr n =
     tseq (act (acquire (L_pipe p)))
     (tbnd (sleep_loop (read_wait p) (Ch_nread p) (L_pipe p)) (\<lambda>ok.
      if \<not> ok then tseq (act (release (L_pipe p))) (ret (- 1))
      else tbnd (ask (piperead_loop p addr 0 (nat n))) (\<lambda>i.
           tseq (act (wakeup (Ch_nwrite p)))
           (tseq (act (release (L_pipe p))) (ret i)))))"

section \<open>The ring buffer is a bounded queue\<close>

text \<open>
  The bytes written and not yet read, oldest first. The counters \<open>nread\<close> and \<open>nwrite\<close> wrap
  around at \<open>2 ^ 32\<close>, which is a multiple of the size of the buffer.
\<close>

definition pipe_len :: "pipe \<Rightarrow> nat" where
  "pipe_len x = unat (nwrite x - nread x)"

definition pipe_queue :: "pipe \<Rightarrow> uchar list" where
  "pipe_queue x = map (\<lambda>i. pdata x (unat ((nread x + of_nat i) mod PIPESIZE))) [0..<pipe_len x]"

definition pipe_ok :: "pipe \<Rightarrow> bool" where
  "pipe_ok x \<longleftrightarrow> pipe_len x \<le> 512"

lemma length_pipe_queue [simp]: "length (pipe_queue x) = pipe_len x"
  by (simp add: pipe_queue_def)

lemma slot_eq: "unat ((a + of_nat i :: uint) mod 512) = (unat a + i) mod 512"
proof -
  have "unat ((a + of_nat i :: uint) mod 512) = (unat (a + of_nat i) :: nat) mod 512"
    by (simp add: unat_mod)
  also have "unat (a + of_nat i :: uint) = (unat a + i) mod 2 ^ 32"
    by (simp add: unat_word_ariths unat_of_nat mod_simps)
  also have "(unat a + i) mod 2 ^ 32 mod 512 = (unat a + i) mod 512"
    by (rule mod_mod_cancel) simp
  finally show ?thesis .
qed

lemma pipe_len_put: "pipe_len x < 512 \<Longrightarrow> pipe_len (put_byte b x) = Suc (pipe_len x)"
proof -
  assume "pipe_len x < 512"
  then have "nwrite x - nread x \<noteq> - 1" by (auto simp: pipe_len_def unsigned_minus_1_eq_mask mask_eq_exp_minus_1)
  then have "unat (nwrite x - nread x + 1) = Suc (unat (nwrite x - nread x))" by (rule unat_inc)
  then show ?thesis by (simp add: pipe_len_def put_byte_def algebra_simps)
qed

lemma slots_differ:
  assumes "i < 512" and "n < 512" and "i \<noteq> n"
  shows "(r + i) mod 512 \<noteq> (r + n) mod (512 :: nat)"
proof -
  have *: "\<not> 512 dvd k" if "0 < k" "k < 512" for k :: nat
    using that by (auto dest: dvd_imp_le)
  consider "i < n" | "n < i" using assms(3) by linarith
  then show ?thesis
  proof cases
    case 1
    with assms(2) * [of "n - i"] mod_eq_dvd_iff_nat [of "r + i" "r + n" 512] show ?thesis by simp
  next
    case 2
    with assms(1) * [of "i - n"] mod_eq_dvd_iff_nat [of "r + n" "r + i" 512] show ?thesis by simp
  qed
qed

lemma queue_put:
  assumes "pipe_len x < 512"
  shows "pipe_queue (put_byte b x) = pipe_queue x @ [b]"
proof -
  let ?n = "pipe_len x"
  have w: "nwrite x = nread x + of_nat ?n" by (simp add: pipe_len_def)
  have s: "unat (nwrite x mod PIPESIZE) = (unat (nread x) + ?n) mod 512"
    unfolding w by (rule slot_eq)
  have "(unat (nread x) + i) mod 512 \<noteq> (unat (nread x) + ?n) mod 512" if "i < ?n" for i
    using that assms by (intro slots_differ) simp_all
  then show ?thesis
    unfolding pipe_queue_def pipe_len_put [OF assms]
    by (simp add: put_byte_def slot_eq s)
qed

lemma queue_get:
  assumes "nread x \<noteq> nwrite x"
  shows "pipe_queue x = get_byte x # pipe_queue (x\<lparr>nread := nread x + 1\<rparr>)"
proof -
  let ?y = "x\<lparr>nread := nread x + 1\<rparr>"
  have "nwrite x - nread x \<noteq> 0" using assms by simp
  then have "pipe_len x = Suc (pipe_len ?y)"
    using unat_inc [of "nwrite x - (nread x + 1)"] by (simp add: pipe_len_def)
  then show ?thesis
    by (simp add: pipe_queue_def get_byte_def map_upt_Suc add.assoc del: upt_Suc)
qed

section \<open>The interface of a bounded queue\<close>

locale bounded_queue =
  fixes enq :: "'b \<Rightarrow> 'q \<Rightarrow> 'q" and front :: "'q \<Rightarrow> 'b" and deq :: "'q \<Rightarrow> 'q"
    and full empty ok :: "'q \<Rightarrow> bool" and abs :: "'q \<Rightarrow> 'b list" and cap :: nat
  assumes enq_ok: "ok q \<Longrightarrow> \<not> full q \<Longrightarrow> ok (enq b q)"
    and enq_abs: "ok q \<Longrightarrow> \<not> full q \<Longrightarrow> abs (enq b q) = abs q @ [b]"
    and deq_ok: "ok q \<Longrightarrow> \<not> empty q \<Longrightarrow> ok (deq q)"
    and deq_abs: "ok q \<Longrightarrow> \<not> empty q \<Longrightarrow> abs q = front q # abs (deq q)"
    and empty_iff: "ok q \<Longrightarrow> empty q \<longleftrightarrow> abs q = []"
    and full_iff: "ok q \<Longrightarrow> full q \<longleftrightarrow> length (abs q) = cap"
    and cap_bound: "ok q \<Longrightarrow> length (abs q) \<le> cap"
begin

fun drain :: "nat \<Rightarrow> 'q \<Rightarrow> 'b list \<times> 'q" where
  "drain 0 q = ([], q)"
| "drain (Suc n) q = (if empty q then ([], q) else let (bs, r) = drain n (deq q) in (front q # bs, r))"

lemma drain_abs:
  "ok q \<Longrightarrow> fst (drain n q) = take n (abs q) \<and> abs (snd (drain n q)) = drop n (abs q) \<and> ok (snd (drain n q))"
proof (induction n q rule: drain.induct)
  case (1 q)
  then show ?case by simp
next
  case (2 n q)
  show ?case
  proof (cases "empty q")
    case True
    with 2(2) show ?thesis by (simp add: empty_iff)
  next
    case False
    with 2 deq_ok [OF 2(2) False] show ?thesis
      by (subst (1 2) deq_abs [OF 2(2) False]) (simp add: split_beta)
  qed
qed

lemma fold_enq:
  "ok q \<Longrightarrow> length (abs q) + length bs \<le> cap \<Longrightarrow>
     ok (fold enq bs q) \<and> abs (fold enq bs q) = abs q @ bs"
  by (induction bs arbitrary: q) (auto simp: full_iff enq_ok enq_abs)

text \<open>What is put in comes out in the same order.\<close>

lemma fifo:
  assumes "ok q" and "abs q = []" and "length bs \<le> cap"
  shows "fst (drain (length bs) (fold enq bs q)) = bs"
  using fold_enq [of q bs] drain_abs [of "fold enq bs q"] assms by simp

end

abbreviation read_byte :: "pipe \<Rightarrow> pipe" where
  "read_byte x \<equiv> x\<lparr>nread := nread x + 1\<rparr>"

lemma pipe_full_iff: "nwrite x = nread x + PIPESIZE \<longleftrightarrow> pipe_len x = 512"
proof -
  have "nwrite x = nread x + PIPESIZE \<longleftrightarrow> nwrite x - nread x = 512" by (auto simp: algebra_simps)
  then show ?thesis by (simp add: pipe_len_def word_unat_eq_iff)
qed

lemma pipe_empty_iff: "nread x = nwrite x \<longleftrightarrow> pipe_queue x = []"
proof -
  have "nread x = nwrite x \<longleftrightarrow> nwrite x - nread x = 0" by auto
  then show ?thesis using length_pipe_queue [of x]
    by (metis length_0_conv pipe_len_def unat_eq_zero)
qed

interpretation pq: bounded_queue put_byte get_byte read_byte
  "\<lambda>x. nwrite x = nread x + PIPESIZE" "\<lambda>x. nread x = nwrite x" pipe_ok pipe_queue 512
proof
  fix x :: pipe and b
  assume ok: "pipe_ok x"
  show "(nwrite x = nread x + PIPESIZE) = (length (pipe_queue x) = 512)" by (simp add: pipe_full_iff)
  show "length (pipe_queue x) \<le> 512" using ok by (simp add: pipe_ok_def)
  show "(nread x = nwrite x) = (pipe_queue x = [])" by (rule pipe_empty_iff)
  show "pipe_queue x = get_byte x # pipe_queue (read_byte x)" if "nread x \<noteq> nwrite x"
    using queue_get [OF that] .
  show "pipe_ok (read_byte x)" if "nread x \<noteq> nwrite x"
    using queue_get [OF that] ok length_pipe_queue [of x] length_pipe_queue [of "read_byte x"]
    by (simp add: pipe_ok_def)
  assume "nwrite x \<noteq> nread x + PIPESIZE"
  then have "pipe_len x < 512" using ok by (simp add: pipe_full_iff pipe_ok_def)
  then show "pipe_queue (put_byte b x) = pipe_queue x @ [b]" "pipe_ok (put_byte b x)"
    by (simp_all add: queue_put pipe_len_put pipe_ok_def)
qed

section \<open>Reading\<close>

lemma upd_pipe_simps [simp]:
  "pipes (upd_pipe p f s) = (pipes s)(p := f (pipes s p))" "procs (upd_pipe p f s) = procs s"
  "cpus (upd_pipe p f s) = cpus s" "this_cpu (upd_pipe p f s) = this_cpu s"
  "ncpu (upd_pipe p f s) = ncpu s" "lapic_id (upd_pipe p f s) = lapic_id s"
  "locks (upd_pipe p f s) = locks s" "panicked (upd_pipe p f s) = panicked s"
  "con (upd_pipe p f s) = con s" "cons_locking (upd_pipe p f s) = cons_locking s"
  "mem (upd_pipe p f s) = mem s"
  by (simp_all add: upd_pipe_def)

lemma inside_upd_pipe [simp]: "inside p H (upd_pipe q f s) = inside p H s"
  by (rule inside_cong) simp_all

lemma ftable_fields [simp]:
  "pipes (acquired L s) = pipes s" "pipes (released L s) = pipes s"
  "pipes (upd_cpu i g s) = pipes s" "pipes (upd_proc q h s) = pipes s"
  "pipes (wakeup1 ch s) = pipes s"
  by (simp_all add: acquired_def released_def upd_cpu_def upd_proc_def wakeup1_eq)

lemma piperead_loop_eq:
  assumes "pipe_ok (pipes s p)"
    and "mstores (P2V (cr3 (cur s))) addr (take n (pipe_queue (pipes s p))) (mem s) = Some m"
  shows "\<exists>x. piperead_loop p addr i n s =
      Inr (i + int (length (take n (pipe_queue (pipes s p)))), s\<lparr>mem := m, pipes := (pipes s)(p := x)\<rparr>) \<and>
    pipe_ok x \<and> pipe_queue x = drop n (pipe_queue (pipes s p)) \<and> readopen x = readopen (pipes s p) \<and>
    writeopen x = writeopen (pipes s p)"
  using assms
proof (induction n arbitrary: s addr i)
  case 0
  then show ?case by (intro exI [of _ "pipes s p"]) simp
next
  case (Suc n)
  let ?x = "pipes s p"
  show ?case
  proof (cases "nread ?x = nwrite ?x")
    case True
    then have "pipe_queue ?x = []" using pipe_empty_iff by blast
    with Suc.prems True show ?thesis by (intro exI [of _ ?x]) simp
  next
    case False
    note q = queue_get [OF False]
    obtain a where a: "mmu True (P2V (cr3 (cur s))) addr (mem s) = Some a"
        "mstores (P2V (cr3 (cur s))) (addr + 1) (take n (pipe_queue (read_byte ?x))) ((mem s)(a := get_byte ?x)) = Some m"
      using Suc.prems(2) q by (auto split: option.splits)
    let ?t = "(upd_pipe p read_byte s)\<lparr>mem := (mem s)(a := get_byte ?x)\<rparr>"
    have "ustore addr (get_byte ?x) (upd_pipe p read_byte s) = Inr ?t" using a(1) by (simp add: ustore_def)
    moreover have t: "pipes ?t p = read_byte ?x" "cr3 (cur ?t) = cr3 (cur s)"
      "mem ?t = (mem s)(a := get_byte ?x)" by simp_all
    have ok: "pipe_ok (pipes ?t p)" unfolding t by (rule pq.deq_ok [OF Suc.prems(1) False])
    have "mstores (P2V (cr3 (cur ?t))) (addr + 1) (take n (pipe_queue (pipes ?t p))) (mem ?t) = Some m"
      unfolding t by (rule a(2))
    from Suc.IH [OF ok this, of "i + 1"] obtain x where x: "piperead_loop p (addr + 1) (i + 1) n ?t =
        Inr (i + 1 + int (length (take n (pipe_queue (read_byte ?x)))), ?t\<lparr>mem := m, pipes := (pipes ?t)(p := x)\<rparr>)"
        "pipe_ok x" "pipe_queue x = drop n (pipe_queue (read_byte ?x))"
        "readopen x = readopen (read_byte ?x)" "writeopen x = writeopen (read_byte ?x)"
      unfolding t by blast
    moreover have "?t\<lparr>mem := m, pipes := (pipes ?t)(p := x)\<rparr> = s\<lparr>mem := m, pipes := (pipes s)(p := x)\<rparr>"
      by (simp add: upd_pipe_def)
    ultimately have "piperead_loop p addr i (Suc n) s =
        Inr (i + int (length (take (Suc n) (pipe_queue ?x))), s\<lparr>mem := m, pipes := (pipes s)(p := x)\<rparr>)"
      using False q by (simp add: Let_def)
    moreover have "pipe_queue x = drop (Suc n) (pipe_queue ?x)" using x(3) q by simp
    moreover have "readopen x = readopen ?x" "writeopen x = writeopen ?x" using x(4,5) by simp_all
    ultimately show ?thesis using x(2) by blast
  qed
qed

lemma piperead_oldest:
  assumes "inside me {} s" and "pipe_ok (pipes s p)"
    and "pipe_queue (pipes s p) \<noteq> [] \<or> \<not> writeopen (pipes s p)"
    and "mstores (P2V (cr3 (cur s))) addr (take (nat n) (pipe_queue (pipes s p))) (mem s) = Some m"
  shows "\<exists>x. piperead p addr n s es =
      Inr (int (length (take (nat n) (pipe_queue (pipes s p)))),
           wakeup1 (Some (Ch_nwrite p)) ((synced s)\<lparr>mem := m, pipes := (pipes s)(p := x)\<rparr>), es) \<and>
    pipe_ok x \<and> pipe_queue x = drop (nat n) (pipe_queue (pipes s p))"
proof -
  let ?L = "L_pipe p" and ?a = "acquired (L_pipe p) s"
  let ?q = "pipe_queue (pipes s p)"
  have a: "acquire ?L s = Inr ?a" "inside me {?L} ?a"
    using acquire_inside [OF assms(1), of ?L] by simp_all
  have w: "sleep_loop (read_wait p) (Ch_nread p) ?L ?a es = Inr (True, ?a, es)"
    using assms(3) pipe_empty_iff [of "pipes s p"]
    by (subst sleep_loop.simps) (auto simp: read_wait_def)
  have c: "cr3 (cur ?a) = cr3 (cur s)" by (simp add: push_cpu_def)
  obtain x where x: "piperead_loop p addr 0 (nat n) ?a =
      Inr (int (length (take (nat n) ?q)), ?a\<lparr>mem := m, pipes := (pipes s)(p := x)\<rparr>)"
      "pipe_ok x" "pipe_queue x = drop (nat n) ?q"
    using piperead_loop_eq [of ?a p addr "nat n" m 0] assms(2,4) c by auto
  let ?b = "?a\<lparr>mem := m, pipes := (pipes s)(p := x)\<rparr>"
  let ?f = "\<lambda>s. wakeup1 (Some (Ch_nwrite p)) (s\<lparr>mem := m, pipes := (pipes s)(p := x)\<rparr>)"
  have b: "inside me {?L} ?b" using a(2) inside_cong [of ?b ?a me "{?L}"] by simp
  have "wakeup (Ch_nwrite p) ?b = Inr (wakeup1 (Some (Ch_nwrite p)) ?b)"
    using wakeup_inside [OF b] synced_inside [OF b] by simp
  moreover have "release ?L (?f ?a) = Inr (?f (synced s))"
    by (rule release_data [OF assms(1)]) (simp_all add: wakeup1_eq cong: if_cong)
  ultimately have "piperead p addr n s es = Inr (int (length (take (nat n) ?q)), ?f (synced s), es)"
    by (simp add: piperead_def tseq_def tbnd_def act_def ask_def ret_def a(1) w x(1))
  with x(2,3) show ?thesis by auto
qed

text \<open>
  C27: \<open>piperead\<close> on a pipe with data, or without writers, returns without sleeping: it stores
  the oldest bytes of the pipe, at most \<open>n\<close>, at \<open>addr\<close>, returns their number, leaves the rest in
  the pipe and wakes the writers.
\<close>

theorem piperead_takes_oldest:
  assumes "inside me {} s" and "pipe_ok (pipes s p)"
    and "pipe_queue (pipes s p) \<noteq> [] \<or> \<not> writeopen (pipes s p)"
    and "mstores (P2V (cr3 (cur s))) addr (take (nat n) (pipe_queue (pipes s p))) (mem s) = Some m"
  shows "\<exists>x. piperead p addr n s es =
      Inr (int (length (take (nat n) (pipe_queue (pipes s p)))),
           wakeup1 (Some (Ch_nwrite p)) ((synced s)\<lparr>mem := m, pipes := (pipes s)(p := x)\<rparr>), es) \<and>
    pipe_ok x \<and> pipe_queue x = drop (nat n) (pipe_queue (pipes s p))"
  by (rule piperead_oldest [OF assms])

section \<open>Writing\<close>

text \<open>
  What the rest of the system does while the writer \<open>me\<close> sleeps on a full pipe: the readers take
  \<open>k\<close> bytes from the front of the queue; none when the process is woken for another reason, a
  \<open>kill\<close> or a \<open>close\<close> of the reading end. The bytes to be written stay where they are.
\<close>

definition takes :: "nat \<Rightarrow> uint \<Rightarrow> uint \<Rightarrow> nat \<Rightarrow> nat \<Rightarrow> ('a ftable_scheme \<Rightarrow> 'a ftable_scheme) \<Rightarrow> bool" where
  "takes me p addr n k e \<longleftrightarrow> k \<le> 512 \<and>
     (\<forall>s. inside me {L_ptable} s \<and> pipe_ok (pipes s p) \<and> pipe_len (pipes s p) = 512 \<longrightarrow>
        inside me {L_ptable} (e s) \<and> pipe_ok (pipes (e s) p) \<and>
        pipe_queue (pipes (e s) p) = drop k (pipe_queue (pipes s p)) \<and>
        uloads addr n (e s) = uloads addr n s)"

text \<open>The writer has put in \<open>j\<close> bytes, the readers have taken \<open>k\<close>.\<close>

definition wrote :: "uint \<Rightarrow> uint \<Rightarrow> uchar list \<Rightarrow> uchar list \<Rightarrow> nat \<Rightarrow> nat \<Rightarrow> 'a ftable_scheme \<Rightarrow> bool" where
  "wrote p addr q bs k j s \<longleftrightarrow> pipe_ok (pipes s p) \<and> uloads addr (length bs) s = Inr bs \<and>
     k \<le> length q + j \<and> pipe_queue (pipes s p) = drop k (q @ take j bs)"

definition gave_up :: "nat \<Rightarrow> uint \<Rightarrow> 'a ftable_scheme \<Rightarrow> bool" where
  "gave_up me p s \<longleftrightarrow> pipe_len (pipes s p) = 512 \<and> (\<not> readopen (pipes s p) \<or> p_killed (procs s me))"

lemma wrote_cong:
  assumes "pipes t p = pipes s p" and "mem t = mem s" and "cr3 (cur t) = cr3 (cur s)"
  shows "wrote p addr q bs k j t = wrote p addr q bs k j s"
  using assms uloads_cong [of t s addr "length bs"] by (simp add: wrote_def)

lemma wrote_len: "wrote p addr q bs k j s \<Longrightarrow> j \<le> length bs \<Longrightarrow> pipe_len (pipes s p) + k = length q + j"
  using length_pipe_queue [of "pipes s p"] by (auto simp: wrote_def min_def split: if_splits)

lemma wrote_data_inv: "data_inv me (\<lambda>s :: 'a ftable_scheme. wrote p addr q bs k j s \<and> P (pipes s p))"
proof -
  have 1: "wrote p addr q bs k j t \<and> P (pipes t p)"
    if "quiet s t \<and> cr3 (cur t) = cr3 (cur s)" "wrote p addr q bs k j s \<and> P (pipes s p)" for s t :: "'a ftable_scheme"
  proof -
    have "pipes t = pipes s" "mem t = mem s" using that(1) by (auto elim: quietE)
    with that wrote_cong [of t p s] show ?thesis by simp
  qed
  have 2: "wrote p addr q bs k j (upd_proc me f s) = wrote p addr q bs k j s" for f and s :: "'a ftable_scheme"
    by (rule wrote_cong) simp_all
  show ?thesis unfolding data_inv_def
  proof (rule conjI; (intro allI impI)?)
    fix s t :: "'a ftable_scheme"
    assume "quiet s t \<and> cr3 (cur t) = cr3 (cur s)" "wrote p addr q bs k j s \<and> P (pipes s p)"
    then show "wrote p addr q bs k j t \<and> P (pipes t p)" by (rule 1)
  qed (simp add: 2)
qed

lemma takes_wrote:
  assumes "takes me p addr (length bs) d e" and "j \<le> length bs"
    and "inside me {L_ptable} s" and "wrote p addr q bs k j s \<and> pipe_len (pipes s p) = 512"
  shows "inside me {L_ptable} (e s) \<and> wrote p addr q bs (k + d) j (e s) \<and> True"
proof -
  have s: "pipe_ok (pipes s p)" "pipe_len (pipes s p) = 512" "d \<le> 512" using assms(1,4) by (auto simp: wrote_def takes_def)
  then have e: "inside me {L_ptable} (e s)" "pipe_ok (pipes (e s) p)"
      "pipe_queue (pipes (e s) p) = drop d (pipe_queue (pipes s p))" "uloads addr (length bs) (e s) = uloads addr (length bs) s"
    using assms(1,3) by (auto simp: takes_def)
  moreover have "k + d \<le> length q + j" using wrote_len [of p addr q bs k j s] assms(2,4) s by simp
  moreover have "drop d (drop k (q @ take j bs)) = drop (k + d) (q @ take j bs)" by (simp only: drop_drop add.commute)
  ultimately show ?thesis using assms(4) by (auto simp: wrote_def simp del: drop_append)
qed

lemma write_wait_inside:
  assumes "inside me {L_pipe p} s"
  shows "write_wait p s =
    (if pipe_len (pipes s p) \<noteq> 512 then Inr (Some True, s)
     else if gave_up me p s then Inr (Some False, s)
     else Inr (None, wakeup1 (Some (Ch_nread p)) s))"
proof -
  have "curproc s = Inr (me, s)" using inside_curproc [OF assms(1)] by simp
  moreover have "wakeup (Ch_nread p) s = Inr (wakeup1 (Some (Ch_nread p)) s)"
    using wakeup_inside [OF assms(1)] synced_inside [OF assms(1)] by simp
  ultimately show ?thesis by (simp add: write_wait_def pipe_full_iff gave_up_def)
qed

lemma write_wait_ends:
  assumes "inside me {L_pipe p} s" and "\<not> (pipe_len (pipes s p) = 512 \<and> \<not> gave_up me p s)"
  shows "sleep_loop (write_wait p) (Ch_nwrite p) (L_pipe p) s es = Inr (\<not> gave_up me p s, s, es)"
  using assms(2) by (subst sleep_loop.simps) (auto simp: write_wait_inside [OF assms(1)] gave_up_def)

text \<open>The loop that waits for room, with the readers' steps that it uses up.\<close>

lemma write_wait_loop:
  assumes "inside me {L_pipe p} s" and "wrote p addr q bs k j s" and "j \<le> length bs"
    and "list_all2 (takes me p addr (length bs)) ks es"
  shows "sleep_loop (write_wait p) (Ch_nwrite p) (L_pipe p) s es = Inl Asleep \<and> 512 + (k + sum_list ks) = length q + j \<or>
    (\<exists>ok t as ls. sleep_loop (write_wait p) (Ch_nwrite p) (L_pipe p) s es = Inr (ok, t, drop (length as) es) \<and>
       ks = as @ ls \<and> inside me {L_pipe p} t \<and> wrote p addr q bs (k + sum_list as) j t \<and>
       (if ok then pipe_len (pipes t p) \<noteq> 512 else gave_up me p t))"
  using assms
proof (induction es arbitrary: s k ks)
  case Nil
  show ?case
  proof (cases "pipe_len (pipes s p) = 512 \<and> \<not> gave_up me p s")
    case True
    let ?w = "wakeup1 (Some (Ch_nread p)) s"
    have "sleep (Ch_nwrite p) (Some (L_pipe p)) ?w [] = Inl Asleep" using Nil.prems(1) by (intro sleep_asleep) simp_all
    moreover have "write_wait p s = Inr (None, ?w)" using write_wait_inside [OF Nil.prems(1)] True by simp
    moreover have "512 + k = length q + j" using wrote_len [OF Nil.prems(2,3)] True by simp
    ultimately show ?thesis using Nil.prems(4) by (intro disjI1) (subst sleep_loop.simps, simp)
  next
    case False
    note ends = write_wait_ends [OF Nil.prems(1) False]
    show ?thesis unfolding ends
      using Nil.prems(1,2) False
      by (intro disjI2 exI [of _ "\<not> gave_up me p s"] exI [of _ s] exI [of _ "[]"] exI [of _ ks]) auto
  qed
next
  case (Cons e es)
  obtain d ds where ks: "ks = d # ds" "takes me p addr (length bs) d e" "list_all2 (takes me p addr (length bs)) ds es"
    using Cons.prems(4) by (auto simp: list_all2_Cons2)
  show ?case
  proof (cases "pipe_len (pipes s p) = 512 \<and> \<not> gave_up me p s")
    case True
    let ?w = "wakeup1 (Some (Ch_nread p)) s"
    let ?I = "\<lambda>s. wrote p addr q bs k j s \<and> pipe_len (pipes s p) = 512"
    have w: "inside me {L_pipe p} ?w" "?I ?w"
      using Cons.prems(1,2) True wrote_cong [of ?w p s addr q bs k j] by (simp, simp add: wakeup1_eq)
    let ?J = "\<lambda>s. wrote p addr q bs (k + d) j s \<and> True"
    have "\<exists>t. sleep (Ch_nwrite p) (Some (L_pipe p)) ?w (e # es) = Inr (t, es) \<and> inside me {L_pipe p} t \<and> ?J t"
      by (rule sleep_moves [where I = ?I and J = ?J, OF w(1) _ w(2) wrote_data_inv wrote_data_inv])
        (simp, rule takes_wrote [OF ks(2) Cons.prems(3)])
    then obtain t where t: "sleep (Ch_nwrite p) (Some (L_pipe p)) ?w (e # es) = Inr (t, es)" "inside me {L_pipe p} t"
        "wrote p addr q bs (k + d) j t" by blast
    have "write_wait p s = Inr (None, ?w)" using write_wait_inside [OF Cons.prems(1)] True by simp
    then have step: "sleep_loop (write_wait p) (Ch_nwrite p) (L_pipe p) s (e # es) = sleep_loop (write_wait p) (Ch_nwrite p) (L_pipe p) t es"
      using t(1) by (subst sleep_loop.simps) simp
    from Cons.IH [OF t(2,3) Cons.prems(3) ks(3)] show ?thesis
    proof (elim disjE exE conjE)
      fix ok u as ls
      assume "sleep_loop (write_wait p) (Ch_nwrite p) (L_pipe p) t es = Inr (ok, u, drop (length as) es)" "ds = as @ ls"
        "inside me {L_pipe p} u" "wrote p addr q bs (k + d + sum_list as) j u"
        "if ok then pipe_len (pipes u p) \<noteq> 512 else gave_up me p u"
      then show ?thesis unfolding step ks(1)
        by (intro disjI2 exI [of _ ok] exI [of _ u] exI [of _ "d # as"] exI [of _ ls]) (simp add: add.assoc)
    qed (unfold step ks(1), simp add: add.assoc)
  next
    case False
    note ends = write_wait_ends [OF Cons.prems(1) False]
    show ?thesis unfolding ends
      using Cons.prems(1,2) False
      by (intro disjI2 exI [of _ "\<not> gave_up me p s"] exI [of _ s] exI [of _ "[]"] exI [of _ ks]) auto
  qed
qed

lemma put_wrote:
  assumes "wrote p addr q bs k j s" and "j < length bs" and "pipe_len (pipes s p) \<noteq> 512"
  shows "wrote p addr q bs k (Suc j) (upd_pipe p (put_byte (bs ! j)) s)"
proof -
  have k: "k \<le> length q + j" "pipe_queue (pipes s p) = drop k (q @ take j bs)"
    and ok: "pipe_ok (pipes s p)" "uloads addr (length bs) s = Inr bs"
    using assms(1) by (auto simp: wrote_def)
  have room: "nwrite (pipes s p) \<noteq> nread (pipes s p) + PIPESIZE" using assms(3) by (simp add: pipe_full_iff)
  have "pipe_queue (put_byte (bs ! j) (pipes s p)) = drop k (q @ take j bs) @ [bs ! j]"
    using pq.enq_abs [OF ok(1) room] k(2) by simp
  also have "\<dots> = drop k ((q @ take j bs) @ [bs ! j])" using k(1) assms(2) by (simp add: min_def)
  also have "(q @ take j bs) @ [bs ! j] = q @ take (Suc j) bs" using assms(2) by (simp add: take_Suc_conv_app_nth)
  finally have "pipe_queue (put_byte (bs ! j) (pipes s p)) = drop k (q @ take (Suc j) bs)" .
  moreover have "pipe_ok (put_byte (bs ! j) (pipes s p))" by (rule pq.enq_ok [OF ok(1) room])
  moreover have "uloads addr (length bs) (upd_pipe p (put_byte (bs ! j)) s) = Inr bs"
    using ok(2) uloads_cong [of "upd_pipe p (put_byte (bs ! j)) s" s] by simp
  ultimately show ?thesis using k(1) by (simp add: wrote_def del: drop_append)
qed

lemma pipewrite_loop_run:
  assumes "inside me {L_pipe p} s" and "wrote p addr q bs k j s" and "j + n = length bs"
    and "list_all2 (takes me p addr (length bs)) ks es"
  shows "pipewrite_loop p (addr + of_nat j) n s es = Inl Asleep \<and> 512 + (k + sum_list ks) < length q + length bs \<or>
    (\<exists>ok t as ls i. pipewrite_loop p (addr + of_nat j) n s es = Inr (ok, t, drop (length as) es) \<and>
       ks = as @ ls \<and> inside me {L_pipe p} t \<and> wrote p addr q bs (k + sum_list as) i t \<and>
       (if ok then i = length bs else i < length bs \<and> gave_up me p t))"
  using assms
proof (induction n arbitrary: s k j ks es)
  case 0
  then show ?case by (intro disjI2 exI [of _ True] exI [of _ s] exI [of _ "[]"] exI [of _ ks]) (auto simp: ret_def)
next
  case (Suc n)
  let ?m = "sleep_loop (write_wait p) (Ch_nwrite p) (L_pipe p) s es"
  have j: "j < length bs" "j \<le> length bs" using Suc.prems(3) by simp_all
  note run = write_wait_loop [OF Suc.prems(1,2) j(2) Suc.prems(4)]
  consider
      (asleep) "?m = Inl Asleep" "512 + (k + sum_list ks) = length q + j"
    | (up) t as ls where "?m = Inr (False, t, drop (length as) es)" "ks = as @ ls" "inside me {L_pipe p} t"
        "wrote p addr q bs (k + sum_list as) j t" "gave_up me p t"
    | (room) t as ls where "?m = Inr (True, t, drop (length as) es)" "ks = as @ ls" "inside me {L_pipe p} t"
        "wrote p addr q bs (k + sum_list as) j t" "pipe_len (pipes t p) \<noteq> 512"
    using run
  proof (elim disjE exE conjE)
    fix ok t as ls
    assume "?m = Inr (ok, t, drop (length as) es)" "ks = as @ ls" "inside me {L_pipe p} t"
      "wrote p addr q bs (k + sum_list as) j t" "if ok then pipe_len (pipes t p) \<noteq> 512 else gave_up me p t"
    then show thesis using up room by (cases ok) simp_all
  qed (rule asleep)
  then show ?case
  proof cases
    case asleep
    with j show ?thesis by (simp add: tbnd_def)
  next
    case up
    with j show ?thesis
      by (intro disjI2 exI [of _ False] exI [of _ t] exI [of _ as] exI [of _ ls] exI [of _ j]) (simp add: tbnd_def ret_def)
  next
    case room
    let ?t = "upd_pipe p (put_byte (bs ! j)) t" and ?k = "k + sum_list as"
    have "uload (addr + of_nat j) t = Inr (bs ! j)"
      using room(4) j(1) by (auto simp: wrote_def intro: uloads_nth)
    then have step: "pipewrite_loop p (addr + of_nat j) (Suc n) s es =
        pipewrite_loop p (addr + of_nat (Suc j)) n ?t (drop (length as) es)"
      using room(1) by (simp add: tbnd_def tseq_def ask_def modify_def algebra_simps)
    have "inside me {L_pipe p} ?t" "Suc j + n = length bs" "list_all2 (takes me p addr (length bs)) ls (drop (length as) es)"
      using room(2,3) Suc.prems(3) list_all2_dropI [OF Suc.prems(4), of "length as"] by simp_all
    note Suc.IH [OF this(1) put_wrote [OF room(4) j(1) room(5)] this(2,3)]
    then show ?thesis
    proof (elim disjE exE conjE)
      fix ok u cs ls' i
      assume "pipewrite_loop p (addr + of_nat (Suc j)) n ?t (drop (length as) es) = Inr (ok, u, drop (length cs) (drop (length as) es))"
        "ls = cs @ ls'" "inside me {L_pipe p} u" "wrote p addr q bs (?k + sum_list cs) i u"
        "if ok then i = length bs else i < length bs \<and> gave_up me p u"
      then show ?thesis unfolding step room(2)
        by (intro disjI2 exI [of _ ok] exI [of _ u] exI [of _ "as @ cs"] exI [of _ ls'] exI [of _ i])
          (simp add: add.assoc add.commute [of "length as"])
    qed (unfold step room(2), simp add: add.assoc)
  qed
qed

text \<open>
  C13: \<open>pipewrite\<close> puts its bytes into the pipe in order, at the end, while the readers take \<open>ks\<close>
  bytes from the front, one number for each time it sleeps. It never overruns the buffer, and no
  byte is lost: after the first \<open>m\<close> steps of the readers the pipe holds what was in it and the
  bytes written so far, without exactly the bytes the readers took. When it returns \<open>n\<close> all the
  bytes are written. It gives up with \<open>-1\<close> only when the pipe is full and the reading end is closed
  or the process is killed. It is still asleep at the end of the schedule only when what the readers
  took does not make room for all the bytes.
\<close>

theorem pipewrite_fifo:
  fixes s :: "'a ftable_scheme"
  assumes "inside me {} s" and "pipe_ok (pipes s p)" and "uloads addr (nat n) s = Inr bs" and "0 \<le> n"
    and "list_all2 (takes me p addr (nat n)) ks es"
  shows "pipewrite p addr n s es = Inl Asleep \<and> 512 + sum_list ks < pipe_len (pipes s p) + nat n \<or>
    (\<exists>r t m i. pipewrite p addr n s es = Inr (r, t, drop m es) \<and> m \<le> length es \<and>
       inside me {} t \<and> pipe_ok (pipes t p) \<and>
       sum_list (take m ks) \<le> pipe_len (pipes s p) + i \<and>
       pipe_queue (pipes t p) = drop (sum_list (take m ks)) (pipe_queue (pipes s p) @ take i bs) \<and>
       (r = n \<and> i = nat n \<or>
        r = - 1 \<and> i < nat n \<and> pipe_len (pipes t p) = 512 \<and> (\<not> readopen (pipes t p) \<or> p_killed (procs t me))))"
proof -
  let ?q = "pipe_queue (pipes s p)" and ?L = "L_pipe p" and ?a = "acquired (L_pipe p) s"
  have bs: "length bs = nat n" using uloads_length [OF assms(3)] .
  have a: "acquire ?L s = Inr ?a" "inside me {?L} ?a"
    using acquire_inside [OF assms(1), of ?L] by simp_all
  have w: "wrote p addr ?q bs 0 0 ?a"
    using assms(2,3) bs wrote_cong [of ?a p s addr ?q bs 0 0] by (simp add: wrote_def push_cpu_def)
  have rel: "release ?L t = Inr (released ?L t)" "inside me {} (released ?L t)" if "inside me {?L} t" for t :: "'a ftable_scheme"
    using release_inside [OF that, of ?L] by simp_all
  have keep: "wrote p addr ?q bs k i (released ?L t) = wrote p addr ?q bs k i t" for k i and t :: "'a ftable_scheme"
    by (rule wrote_cong) (simp_all add: pop_cpu_def)
  have "0 + nat n = length bs" "list_all2 (takes me p addr (length bs)) ks es" using bs assms(5) by simp_all
  note run = pipewrite_loop_run [OF a(2) w this]
  consider
      (asleep) "pipewrite_loop p addr (nat n) ?a es = Inl Asleep" "512 + sum_list ks < length ?q + length bs"
    | (up) t as ls i where "pipewrite_loop p addr (nat n) ?a es = Inr (False, t, drop (length as) es)" "ks = as @ ls"
        "inside me {?L} t" "wrote p addr ?q bs (sum_list as) i t" "i < length bs" "gave_up me p t"
    | (all) t as ls where "pipewrite_loop p addr (nat n) ?a es = Inr (True, t, drop (length as) es)" "ks = as @ ls"
        "inside me {?L} t" "wrote p addr ?q bs (sum_list as) (length bs) t"
    using run
  proof (elim disjE exE conjE)
    fix ok t as ls i
    assume "pipewrite_loop p (addr + of_nat 0) (nat n) ?a es = Inr (ok, t, drop (length as) es)" "ks = as @ ls"
      "inside me {?L} t" "wrote p addr ?q bs (0 + sum_list as) i t" "if ok then i = length bs else i < length bs \<and> gave_up me p t"
    then show thesis using up all by (cases ok) simp_all
  qed (use asleep in simp)
  then show ?thesis
  proof cases
    case asleep
    then show ?thesis using bs by (simp add: pipewrite_def tseq_def tbnd_def act_def a(1))
  next
    case up
    then have "pipewrite p addr n s es = Inr (- 1, released ?L t, drop (length as) es)"
      by (simp add: pipewrite_def tseq_def tbnd_def act_def ret_def a(1) rel)
    moreover have "length as \<le> length es" using list_all2_lengthD [OF assms(5)] up(2) by simp
    ultimately show ?thesis using up bs keep [of "sum_list as" i t] rel(2) [OF up(3)]
      by (intro disjI2 exI [of _ "- 1"] exI [of _ "released ?L t"] exI [of _ "length as"] exI [of _ i])
        (simp add: wrote_def gave_up_def)
  next
    case all
    let ?w = "wakeup1 (Some (Ch_nread p)) t"
    have i: "inside me {?L} ?w" using all(3) by simp
    have "wakeup (Ch_nread p) t = Inr ?w"
      using wakeup_inside [OF all(3)] synced_inside [OF all(3)] by simp
    then have "pipewrite p addr n s es = Inr (n, released ?L ?w, drop (length as) es)"
      using all(1) rel(1) [OF i] by (simp add: pipewrite_def tseq_def tbnd_def act_def ret_def a(1))
    moreover have "length as \<le> length es" using list_all2_lengthD [OF assms(5)] all(2) by simp
    moreover have "wrote p addr ?q bs (sum_list as) (length bs) ?w"
      using all(4) wrote_cong [of ?w p t] by (simp add: wakeup1_eq)
    ultimately show ?thesis using all(2) bs keep [of "sum_list as" "length bs" ?w] rel(2) [OF i]
      by (intro disjI2 exI [of _ n] exI [of _ "released ?L ?w"] exI [of _ "length as"] exI [of _ "length bs"])
        (simp add: wrote_def)
  qed
qed


section \<open>Writing when there is room\<close>

lemma upd_pipe_upd_pipe: "upd_pipe p f (upd_pipe p g s) = upd_pipe p (\<lambda>x. f (g x)) s"
  by (simp add: upd_pipe_def)

lemma pipewrite_loop_room:
  assumes "pipe_ok (pipes s p)" and "uloads addr n s = Inr bs" and "pipe_len (pipes s p) + n \<le> 512"
  shows "pipewrite_loop p addr n s es = Inr (True, upd_pipe p (fold put_byte bs) s, es)"
  using assms
proof (induction n arbitrary: addr bs s)
  case 0
  then show ?case by (simp add: ret_def upd_pipe_def)
next
  case (Suc n)
  then obtain b cs where b: "uload addr s = Inr b" "uloads (addr + 1) n s = Inr cs" "bs = b # cs"
    by (auto simp: res_iff)
  let ?t = "upd_pipe p (put_byte b) s"
  have f: "nwrite (pipes s p) \<noteq> nread (pipes s p) + PIPESIZE" using Suc.prems(3) pipe_full_iff [of "pipes s p"] by auto
  have "pipe_ok (pipes ?t p)" using pq.enq_ok [OF Suc.prems(1) f] by simp
  moreover have "uloads (addr + 1) n ?t = Inr cs" using b(2) uloads_cong [of ?t s "addr + 1" n] by simp
  moreover have "pipe_len (pipes ?t p) + n \<le> 512" using Suc.prems(3) by (simp add: pipe_len_put)
  ultimately have "pipewrite_loop p (addr + 1) n ?t es = Inr (True, upd_pipe p (fold put_byte cs) ?t, es)"
    by (rule Suc.IH)
  moreover have "sleep_loop (write_wait p) (Ch_nwrite p) (L_pipe p) s es = Inr (True, s, es)"
    using f by (subst sleep_loop.simps) (simp add: write_wait_def)
  ultimately show ?case
    using b by (simp add: tbnd_def tseq_def ask_def modify_def upd_pipe_upd_pipe)
qed

lemma pipewrite_room:
  assumes "inside me {} s" and "pipe_ok (pipes s p)" and "uloads addr (nat n) s = Inr bs"
    and "pipe_len (pipes s p) + nat n \<le> 512"
  shows "pipewrite p addr n s es =
    Inr (n, wakeup1 (Some (Ch_nread p)) (upd_pipe p (fold put_byte bs) (synced s)), es)"
proof -
  let ?L = "L_pipe p" and ?a = "acquired (L_pipe p) s"
  have a: "acquire ?L s = Inr ?a" "inside me {?L} ?a"
    using acquire_inside [OF assms(1), of ?L] by simp_all
  have "uloads addr (nat n) ?a = Inr bs"
    using assms(3) uloads_cong [of ?a s addr "nat n"] by (simp add: push_cpu_def)
  then have l: "pipewrite_loop p addr (nat n) ?a es = Inr (True, upd_pipe p (fold put_byte bs) ?a, es)"
    using assms(2,4) by (intro pipewrite_loop_room) simp_all
  let ?f = "\<lambda>s. wakeup1 (Some (Ch_nread p)) (upd_pipe p (fold put_byte bs) s)"
  have b: "inside me {?L} (upd_pipe p (fold put_byte bs) ?a)" using a(2) by simp
  have "wakeup (Ch_nread p) (upd_pipe p (fold put_byte bs) ?a) = Inr (?f ?a)"
    using wakeup_inside [OF b] synced_inside [OF b] by simp
  moreover have "release ?L (?f ?a) = Inr (?f (synced s))"
    by (rule release_data [OF assms(1)]) (simp_all add: wakeup1_eq upd_pipe_def cong: if_cong)
  ultimately show ?thesis
    by (simp add: pipewrite_def tseq_def tbnd_def act_def ret_def a(1) l)
qed

text \<open>
  C26: What is written to an empty pipe, up to its size, comes back: a write followed by a read of
  at least as many bytes stores at \<open>dst\<close> the bytes that were at \<open>src\<close>, and the pipe is empty
  again. Neither call sleeps.
\<close>

theorem pipe_roundtrip:
  assumes "inside me {} s" and "pipe_ok (pipes s p)" and "pipe_queue (pipes s p) = []"
    and "uloads src (nat n) s = Inr bs" and "0 < n" and "n \<le> 512" and "n \<le> k"
    and "mstores (P2V (cr3 (cur s))) dst bs (mem s) = Some m"
  shows "\<exists>t u x. pipewrite p src n s es = Inr (n, t, es) \<and> piperead p dst k t es = Inr (n, u, es) \<and>
    mem u = m \<and> pipes u p = x \<and> pipe_queue x = []"
proof -
  let ?x = "fold put_byte bs (pipes s p)"
  let ?t = "wakeup1 (Some (Ch_nread p)) (upd_pipe p (fold put_byte bs) (synced s))"
  have l: "length bs = nat n" using uloads_length [OF assms(4)] .
  have x: "pipe_ok ?x" "pipe_queue ?x = bs"
    using pq.fold_enq [OF assms(2), of bs] assms(3,6) l by simp_all
  have "pipe_len (pipes s p) = 0" using assms(3) length_pipe_queue [of "pipes s p"] by simp
  then have w: "pipewrite p src n s es = Inr (n, ?t, es)"
    using assms by (intro pipewrite_room) simp_all
  have t: "pipes ?t p = ?x" "mem ?t = mem s" "cr3 (cur ?t) = cr3 (cur s)"
    by (simp_all add: wakeup1_eq sync_cpu_def)
  have i: "inside me {} ?t" using assms(1) by simp
  have "bs \<noteq> []" using l assms(5) by auto
  then obtain y where "piperead p dst k ?t es = Inr (int (length (take (nat k) bs)),
      wakeup1 (Some (Ch_nwrite p)) ((synced ?t)\<lparr>mem := m, pipes := (pipes ?t)(p := y)\<rparr>), es)"
      "pipe_queue y = drop (nat k) bs"
    using piperead_oldest [OF i, of p dst k m es] x t assms(7,8) l by auto
  with w l assms(5,7) show ?thesis
    by (intro exI [of _ ?t] exI [of _ "wakeup1 (Some (Ch_nwrite p)) ((synced ?t)\<lparr>mem := m, pipes := (pipes ?t)(p := y)\<rparr>)"])
      (simp add: wakeup1_eq)
qed

section \<open>A concrete pipe\<close>

text \<open>An empty pipe at \<open>0x8dff0000\<close> whose counters are about to wrap around.\<close>

definition boot_ftable :: ftable where
  "boot_ftable = sleeps.extend (boot_sleeps [some_proc 7 RUNNING 60 0])
     \<lparr>files = (\<lambda>_. \<lparr>f_type = FD_NONE, f_ref = 0, f_readable = False, f_writable = False, f_pipe = 0,
        f_ip = None, f_off = 0\<rparr>),
      pipes = (\<lambda>_. \<lparr>pdata = (\<lambda>_. 0), nread = 0xfffffffe, nwrite = 0xfffffffe, readopen = True, writeopen = True\<rparr>)\<rparr>"

lemma boot_ftable_simps [simp]:
  "cpus boot_ftable = cpus (boot_sleeps [some_proc 7 RUNNING 60 0])" "locks boot_ftable = boot_locks"
  "ncpu boot_ftable = 2" "this_cpu boot_ftable = 0" "lapic_id boot_ftable = of_nat"
  "\<not> panicked boot_ftable" "cons_locking boot_ftable" "con boot_ftable = boot_con"
  "pipes boot_ftable = (\<lambda>_. \<lparr>pdata = (\<lambda>_. 0), nread = 0xfffffffe, nwrite = 0xfffffffe, readopen = True, writeopen = True\<rparr>)"
  "mem boot_ftable = (\<lambda>_. 0)"
  using boot_sleeps_simps [of "[some_proc 7 RUNNING 60 0]"]
  by (simp_all add: boot_ftable_def sleeps.defs boot_sleeps_def ptable.defs set_proc_def upd_cpu_def
      boot_ptable_def boot_vm_def boot_kmem_def boot_console_def boot_machine_def
      machine.defs console.defs kmem.defs vm.defs del: boot_sleeps_simps)

lemma inside_boot_ftable: "inside 0 {} boot_ftable"
  using inside_boot_sleeps [of "[some_proc 7 RUNNING 60 0]"]
  by (simp add: inside_def con_ok_def cpu_ok_def cpus_wf_def)

lemma boot_pipe:
  "pipe_ok (pipes boot_ftable p)" "pipe_queue (pipes boot_ftable p) = []" "pipe_len (pipes boot_ftable p) = 0"
  by (simp_all add: pipe_ok_def pipe_queue_def pipe_len_def)

lemma boot_uloads: "uloads 0x8dff1000 (nat 3) boot_ftable = Inr [0, 0, 0]"
proof -
  have "nat 3 = Suc (Suc (Suc 0))" by simp
  then show ?thesis by (simp only: uloads.simps) (simp add: uload_def mmu_def)
qed

text \<open>A reader that takes 512 bytes while a writer sleeps on the full pipe.\<close>

definition reader_512 :: "ftable \<Rightarrow> ftable" where
  "reader_512 = upd_pipe 0x8dff0000 (\<lambda>x. x\<lparr>nread := nread x + 512\<rparr>)"

lemma takes_reader_512: "takes 0 0x8dff0000 addr n 512 reader_512"
proof -
  have "pipe_len (x\<lparr>nread := nread x + 512\<rparr>) = 0" if "pipe_len x = 512" for x
  proof -
    have "nwrite x - nread x = 512" using that by (simp add: pipe_len_def word_unat_eq_iff)
    then have "nwrite x - (nread x + 512) = 0" by (simp add: algebra_simps)
    then show ?thesis by (simp add: pipe_len_def)
  qed
  moreover from this have "pipe_queue (x\<lparr>nread := nread x + 512\<rparr>) = []" if "pipe_len x = 512" for x
    using that by (simp add: pipe_queue_def)
  moreover have "uloads addr n (reader_512 s) = uloads addr n s" for s
    by (rule uloads_cong) (simp_all add: reader_512_def)
  ultimately show ?thesis by (simp add: takes_def reader_512_def pipe_ok_def)
qed

lemma boot_zeros: "\<forall>i<n. KERNBASE \<le> va + of_nat i \<Longrightarrow> uloads va n boot_ftable = Inr (replicate n 0)"
proof (induction n arbitrary: va)
  case (Suc n)
  have "KERNBASE \<le> va" using Suc.prems by (auto dest: spec [of _ 0])
  then have "uload va boot_ftable = Inr 0" by (simp add: uload_def mmu_def)
  moreover have "uloads (va + 1) n boot_ftable = Inr (replicate n 0)"
  proof (rule Suc.IH, intro allI impI)
    fix i assume "i < n"
    then show "KERNBASE \<le> va + 1 + of_nat i" using Suc.prems by (auto dest: spec [of _ "Suc i"] simp: add.assoc)
  qed
  ultimately show ?case by simp
qed simp

lemma boot_zeros_600: "uloads 0x8dff1000 (nat 600) boot_ftable = Inr (replicate 600 0)"
proof -
  have "KERNBASE \<le> (0x8dff1000 :: uint) + of_nat i" if "i < 600" for i
  proof -
    have "(0x8dff1000 :: uint) + of_nat i = of_nat (0x8dff1000 + i)" by simp
    moreover have "unat (of_nat (0x8dff1000 + i) :: uint) = 0x8dff1000 + i" using that by (simp add: unat_of_nat take_bit_nat_eq_self_iff del: of_nat_add of_nat_numeral)
    ultimately show ?thesis by (simp only: word_le_nat_alt) simp
  qed
  then show ?thesis using boot_zeros [of 600 "0x8dff1000"] by simp
qed

theorem pipewrite_fifo_witness:
  "\<exists>r t fs. pipewrite 0x8dff0000 0x8dff1000 600 boot_ftable [reader_512] = Inr (r, t, fs) \<and>
     (r = 600 \<and> pipe_queue (pipes t 0x8dff0000) = replicate 88 0 \<or> r = - 1)"
proof -
  let ?p = "0x8dff0000"
  have "list_all2 (takes 0 ?p 0x8dff1000 (nat 600)) [512] [reader_512]" by (simp add: takes_reader_512)
  from pipewrite_fifo [OF inside_boot_ftable boot_pipe(1) boot_zeros_600 _ this] boot_pipe(2,3)
  obtain r t m i where t: "pipewrite ?p 0x8dff1000 600 boot_ftable [reader_512] = Inr (r, t, drop m [reader_512])"
      "m \<le> 1" "pipe_ok (pipes t ?p)" "pipe_queue (pipes t ?p) = drop (sum_list (take m [512])) (take i (replicate 600 0))"
      "r = 600 \<and> i = 600 \<or> r = - 1"
    by (auto simp del: drop_replicate take_replicate)
  have "pipe_queue (pipes t ?p) = replicate 88 0" if "i = 600"
  proof (cases m)
    case 0
    then have "pipe_len (pipes t ?p) = 600" using t(4) that length_pipe_queue [of "pipes t ?p"] by simp
    then show ?thesis using t(3) by (simp add: pipe_ok_def)
  next
    case (Suc l)
    then show ?thesis using t(2,4) that by simp
  qed
  with t(1,5) show ?thesis by blast
qed

theorem pipe_roundtrip_witness:
  "\<exists>t u. pipewrite 0x8dff0000 0x8dff1000 3 boot_ftable [] = Inr (3, t, []) \<and>
     piperead 0x8dff0000 0x8dff2000 10 t [] = Inr (3, u, [])"
proof -
  have "mstores (P2V (cr3 (cur boot_ftable))) 0x8dff2000 [0, 0, 0] (mem boot_ftable) = Some (\<lambda>_. 0)"
    by (simp add: mmu_def fun_upd_idem)
  from pipe_roundtrip [OF inside_boot_ftable boot_pipe(1,2) boot_uloads _ _ _ this, of 10 "0x8dff0000" "[]"]
  show ?thesis by auto
qed

theorem piperead_takes_oldest_witness:
  "\<exists>t. piperead 0x8dff0000 0x8dff2000 10
     (upd_pipe 0x8dff0000 (put_byte 65) boot_ftable) [] = Inr (1, t, [])"
proof -
  let ?p = "0x8dff0000" and ?s = "upd_pipe 0x8dff0000 (put_byte 65) boot_ftable"
  have q: "pipe_queue (pipes ?s ?p) = [65]" "pipe_ok (pipes ?s ?p)"
    using pq.fold_enq [OF boot_pipe(1) [of ?p], of "[65]"] boot_pipe(2) [of ?p] by (simp_all del: boot_ftable_simps)
  have i: "inside 0 {} ?s" using inside_boot_ftable by simp
  have st: "mstores (P2V (cr3 (cur ?s))) 0x8dff2000 (take (nat 10) (pipe_queue (pipes ?s ?p))) (mem ?s) =
      Some ((mem ?s)(0x8dff2000 := 65))"
    unfolding q by (simp add: mmu_def)
  have "pipe_queue (pipes ?s ?p) \<noteq> [] \<or> \<not> writeopen (pipes ?s ?p)" unfolding q by simp
  from piperead_takes_oldest [OF i q(2) this st, of "[]"] obtain t where
    "piperead ?p 0x8dff2000 10 ?s [] = Inr (int (length (take (nat 10) (pipe_queue (pipes ?s ?p)))), t, [])"
    by blast
  then show ?thesis unfolding q by auto
qed

end
