(* ===== verification/Ide.thy ===== *)
theory Ide
  imports Pipe
begin

text \<open>
  The disk driver \<open>ide.c\<close>, with the interrupt controller \<open>ioapic.c\<close> it programs. A \<open>struct buf *\<close>
  is an index into the buffers of the block cache. The disk itself is a device with the registers
  of the IDE interface: the driver selects a drive and a sector, issues a command and transfers
  the sector. \<open>ide_status\<close> lists the values that the status port will show, one per read.
\<close>

section \<open>Buffers and devices\<close>

text \<open>A block of 512 bytes, by offset.\<close>

type_synonym block = "nat \<Rightarrow> uchar"

record buf =
  b_flags :: uint
  b_dev :: uint
  b_blockno :: uint
  b_refcnt :: uint
  b_prev :: nat
  b_next :: nat
  b_qnext :: "nat option"
  b_data :: block

abbreviation (input) B_VALID :: uint where "B_VALID \<equiv> 0x2"
abbreviation (input) B_DIRTY :: uint where "B_DIRTY \<equiv> 0x4"
abbreviation (input) NBUF :: nat where "NBUF \<equiv> 30"
abbreviation (input) FSSIZE :: uint where "FSSIZE \<equiv> 1000"

record ide_dev =
  ide_status :: "uchar list"
  ide_reg :: "nat \<Rightarrow> uchar"
  ide_disk :: "bool \<Rightarrow> nat \<Rightarrow> block"

text \<open>\<open>bufs NBUF\<close> is the list head of the block cache.\<close>

record bcache = ftable +
  ioapic_reg :: "nat \<Rightarrow> uint"
  ioapicid :: uchar
  bufs :: "nat \<Rightarrow> buf"
  idequeue :: "nat option"
  havedisk1 :: bool
  ide :: ide_dev

definition upd_buf :: "nat \<Rightarrow> (buf \<Rightarrow> buf) \<Rightarrow> 'a bcache_scheme \<Rightarrow> 'a bcache_scheme" where
  "upd_buf b f s = s\<lparr>bufs := (bufs s)(b := f (bufs s b))\<rparr>"

definition upd_ide :: "(ide_dev \<Rightarrow> ide_dev) \<Rightarrow> 'a bcache_scheme \<Rightarrow> 'a bcache_scheme" where
  "upd_ide f s = s\<lparr>ide := f (ide s)\<rparr>"

definition buf_is :: "uint \<Rightarrow> nat \<Rightarrow> 'a bcache_scheme \<Rightarrow> bool" where
  "buf_is m b s \<longleftrightarrow> b_flags (bufs s b) AND m \<noteq> 0"

section \<open>The interrupt controller\<close>

definition ioapicread :: "nat \<Rightarrow> 'a bcache_scheme \<Rightarrow> uint" where
  "ioapicread r s = ioapic_reg s r"

definition ioapicwrite :: "nat \<Rightarrow> uint \<Rightarrow> 'a bcache_scheme \<Rightarrow> 'a bcache_scheme" where
  "ioapicwrite r d s = s\<lparr>ioapic_reg := (ioapic_reg s)(r := d)\<rparr>"

definition ioapicinit :: "'a bcache_scheme \<Rightarrow> 'a bcache_scheme res" where
  "ioapicinit s =
     (let maxintr = unat (drop_bit 16 (ioapicread 1 s) AND 0xFF);
          ioid = drop_bit 24 (ioapicread 0 s)
      in bnd (if ioid \<noteq> ucast (ioapicid s)
              then cprintf (''ioapicinit: id isn't equal to ioapicid; not a MP'' @ nl) [] s else Inr s) (\<lambda>s.
         Inr (fold (\<lambda>i s. ioapicwrite (0x10 + 2 * i + 1) 0
                (ioapicwrite (0x10 + 2 * i) (0x00010000 OR (32 + of_nat i)) s)) [0..<Suc maxintr] s)))"

definition ioapicenable :: "nat \<Rightarrow> nat \<Rightarrow> 'a bcache_scheme \<Rightarrow> 'a bcache_scheme" where
  "ioapicenable irq cpunum s =
     ioapicwrite (0x10 + 2 * irq + 1) (push_bit 24 (of_nat cpunum))
       (ioapicwrite (0x10 + 2 * irq) (32 + of_nat irq) s)"

section \<open>The disk\<close>

text \<open>
  Registers 2 to 7 are the ports \<open>0x1f2\<close> to \<open>0x1f7\<close>: sector count, sector number (three bytes),
  drive with the high bits of the sector number, command. Register 14 is the control port \<open>0x3f6\<close>.
\<close>

definition ide_out :: "nat \<Rightarrow> uchar \<Rightarrow> 'a bcache_scheme \<Rightarrow> 'a bcache_scheme" where
  "ide_out r v = upd_ide (\<lambda>d. d\<lparr>ide_reg := (ide_reg d)(r := v)\<rparr>)"

definition ide_sector :: "ide_dev \<Rightarrow> nat" where
  "ide_sector d = unat (ide_reg d 3) + unat (ide_reg d 4) * 2 ^ 8 + unat (ide_reg d 5) * 2 ^ 16 +
     unat (ide_reg d 6 AND 0xF) * 2 ^ 24"

definition ide_drive :: "ide_dev \<Rightarrow> bool" where
  "ide_drive d \<longleftrightarrow> bit (ide_reg d 6) 4"

text \<open>
  Transfer of a sector to the device, which stores it after the write command, and from it, which
  supplies the sector after the read command; otherwise the data port floats.
\<close>

definition ide_put :: "block \<Rightarrow> ide_dev \<Rightarrow> ide_dev" where
  "ide_put blk d =
     (if ide_reg d 7 = 0x30
      then d\<lparr>ide_disk := (ide_disk d)(ide_drive d := (ide_disk d (ide_drive d))(ide_sector d := blk))\<rparr>
      else d)"

definition ide_get :: "ide_dev \<Rightarrow> block" where
  "ide_get d = (if ide_reg d 7 = 0x20 then ide_disk d (ide_drive d) (ide_sector d) else (\<lambda>_. 0xff))"

text \<open>A read of the status port.\<close>

definition ide_in :: "'a bcache_scheme \<Rightarrow> (uchar \<times> 'a bcache_scheme) res" where
  "ide_in s = (case ide_status (ide s) of
     [] \<Rightarrow> Inl Halt | r # rs \<Rightarrow> Inr (r, upd_ide (\<lambda>d. d\<lparr>ide_status := rs\<rparr>) s))"

section \<open>The driver\<close>

text \<open>
  \<open>idewait\<close>; when the device never becomes ready the loop does not end. The loop runs over the
  values that the status port shows.
\<close>

fun ide_ready :: "uchar list \<Rightarrow> (uchar \<times> uchar list) option" where
  "ide_ready [] = None"
| "ide_ready (r # rs) = (if r AND 0xC0 = 0x40 then Some (r, rs) else ide_ready rs)"

definition idewait :: "bool \<Rightarrow> 'a bcache_scheme \<Rightarrow> (int \<times> 'a bcache_scheme) res" where
  "idewait checkerr s =
     (case ide_ready (ide_status (ide s)) of
        None \<Rightarrow> Inl Halt
      | Some (r, rs) \<Rightarrow>
          Inr (if checkerr \<and> r AND 0x21 \<noteq> 0 then - 1 else 0, upd_ide (\<lambda>d. d\<lparr>ide_status := rs\<rparr>) s))"

fun ide_probe :: "nat \<Rightarrow> 'a bcache_scheme \<Rightarrow> 'a bcache_scheme res" where
  "ide_probe 0 s = Inr s"
| "ide_probe (Suc n) s =
     bnd (ide_in s) (\<lambda>(r, s). if r \<noteq> 0 then Inr (s\<lparr>havedisk1 := True\<rparr>) else ide_probe n s)"

definition ideinit :: "'a bcache_scheme \<Rightarrow> 'a bcache_scheme res" where
  "ideinit s =
     (let s = initlock L_ide ''ide'' s; s = ioapicenable 14 (ncpu s - 1) s
      in bnd (idewait False s) (\<lambda>(_, s).
         bnd (ide_probe 1000 (ide_out 6 0xf0 s)) (\<lambda>s.
         Inr (ide_out 6 0xe0 s))))"

definition idestart :: "nat option \<Rightarrow> 'a bcache_scheme \<Rightarrow> 'a bcache_scheme res" where
  "idestart bo s =
     (case bo of
        None \<Rightarrow> Inl (Panic ''idestart'')
      | Some b \<Rightarrow>
          let x = bufs s b; sector = b_blockno x
          in bnd (panic_if (b_blockno x \<ge> FSSIZE) ''incorrect blockno'') (\<lambda>_.
             bnd (idewait False s) (\<lambda>(_, s).
             let s = ide_out 14 0 s;
                 s = ide_out 2 1 s;
                 s = ide_out 3 (ucast (sector AND 0xff)) s;
                 s = ide_out 4 (ucast (drop_bit 8 sector AND 0xff)) s;
                 s = ide_out 5 (ucast (drop_bit 16 sector AND 0xff)) s;
                 s = ide_out 6 (0xe0 OR push_bit 4 (ucast (b_dev x AND 1)) OR ucast (drop_bit 24 sector AND 0x0f)) s
             in Inr (if buf_is B_DIRTY b s then upd_ide (ide_put (b_data x)) (ide_out 7 0x30 s)
                     else ide_out 7 0x20 s))))"

text \<open>The interrupt handler, with its read of the data and its start of the next request.\<close>

definition ide_take :: "nat \<Rightarrow> 'a bcache_scheme \<Rightarrow> 'a bcache_scheme res" where
  "ide_take b s =
     (if \<not> buf_is B_DIRTY b s
      then bnd (idewait True s) (\<lambda>(r, s).
           Inr (if r \<ge> 0 then upd_buf b (\<lambda>x. x\<lparr>b_data := ide_get (ide s)\<rparr>) s else s))
      else Inr s)"

definition buf_done :: "buf \<Rightarrow> buf" where
  "buf_done x = x\<lparr>b_flags := (b_flags x OR B_VALID) AND NOT B_DIRTY\<rparr>"

definition ide_next :: "'a bcache_scheme \<Rightarrow> 'a bcache_scheme res" where
  "ide_next s = (if idequeue s \<noteq> None then idestart (idequeue s) s else Inr s)"

definition ideintr :: "'a bcache_scheme \<Rightarrow> 'a bcache_scheme res" where
  "ideintr s =
     bnd (acquire L_ide s) (\<lambda>s.
     case idequeue s of
       None \<Rightarrow> release L_ide s
     | Some b \<Rightarrow>
         bnd (ide_take b (s\<lparr>idequeue := b_qnext (bufs s b)\<rparr>)) (\<lambda>s.
         bnd (wakeup (Ch_buf b) (upd_buf b buf_done s)) (\<lambda>s.
         bnd (ide_next s) (\<lambda>s.
         release L_ide s))))"

text \<open>
  The end of the queue \<open>idequeue\<close>, found by following \<open>qnext\<close>; the queue has at most \<open>NBUF\<close> entries.
\<close>

fun ide_tail :: "nat \<Rightarrow> nat \<Rightarrow> 'a bcache_scheme \<Rightarrow> nat res" where
  "ide_tail 0 b s = Inl Halt"
| "ide_tail (Suc n) b s =
     (case b_qnext (bufs s b) of None \<Rightarrow> Inr b | Some c \<Rightarrow> ide_tail n c s)"

definition ide_enqueue :: "nat \<Rightarrow> 'a bcache_scheme \<Rightarrow> 'a bcache_scheme res" where
  "ide_enqueue b s =
     (let s = upd_buf b (\<lambda>x. x\<lparr>b_qnext := None\<rparr>) s
      in case idequeue s of
           None \<Rightarrow> Inr (s\<lparr>idequeue := Some b\<rparr>)
         | Some h \<Rightarrow> bnd (ide_tail (Suc NBUF) h s) (\<lambda>l. Inr (upd_buf l (\<lambda>x. x\<lparr>b_qnext := Some b\<rparr>) s)))"

definition iderw :: "nat \<Rightarrow> ('a bcache_scheme, unit) thr" where
  "iderw b =
     tbnd (holdingsleep (SL_buf b)) (\<lambda>h.
     tseq (panic_when (\<not> h) ''iderw: buf not locked'')
     (tbnd (look (\<lambda>s. bufs s b)) (\<lambda>x.
     tseq (panic_when (b_flags x AND (B_VALID OR B_DIRTY) = B_VALID) ''iderw: nothing to do'')
     (tbnd (look havedisk1) (\<lambda>d1.
     tseq (panic_when (b_dev x \<noteq> 0 \<and> \<not> d1) ''iderw: ide disk 1 not present'')
     (tseq (act (acquire L_ide))
     (tseq (act (ide_enqueue b))
     (tbnd (look idequeue) (\<lambda>q.
     tseq (if q = Some b then act (idestart q) else ret ())
     (tseq (sleep_while (\<lambda>s. b_flags (bufs s b) AND (B_VALID OR B_DIRTY) \<noteq> B_VALID) (Ch_buf b) L_ide)
     (act (release L_ide))))))))))))"

section \<open>A concrete state\<close>

text \<open>No buffer is in use, the disks are blank and always ready.\<close>

definition boot_bcache :: bcache where
  "boot_bcache = ftable.extend boot_ftable
     \<lparr>ioapic_reg = (\<lambda>_. 0), ioapicid = 0,
      bufs = (\<lambda>_. \<lparr>b_flags = 0, b_dev = 0, b_blockno = 0, b_refcnt = 0, b_prev = 0, b_next = 0,
        b_qnext = None, b_data = (\<lambda>_. 0)\<rparr>),
      idequeue = None, havedisk1 = True,
      ide = \<lparr>ide_status = replicate 100 0x40, ide_reg = (\<lambda>_. 0), ide_disk = (\<lambda>_ _ _. 0)\<rparr>\<rparr>"

lemma boot_ftable_table [simp]:
  "procs boot_ftable = (\<lambda>i. if i = 0 then some_proc 7 RUNNING 60 0 else zero_proc)" "ticks boot_ftable = 0"
  "slocks boot_ftable = (\<lambda>_. \<lparr>sl_locked = False, sl_name = ''buffer'', sl_pid = 0\<rparr>)"
  by (auto simp: boot_ftable_def sleeps.defs boot_sleeps_def ptable.defs set_proc_def upd_cpu_def fun_eq_iff)

lemma boot_bcache_simps [simp]:
  "procs boot_bcache = procs boot_ftable" "ticks boot_bcache = 0" "mem boot_bcache = (\<lambda>_. 0)"
  "cpus boot_bcache = cpus boot_ftable" "locks boot_bcache = boot_locks" "ncpu boot_bcache = 2"
  "this_cpu boot_bcache = 0" "lapic_id boot_bcache = of_nat" "\<not> panicked boot_bcache" "cons_locking boot_bcache"
  "con boot_bcache = boot_con" "slocks boot_bcache = slocks boot_ftable" "files boot_bcache = files boot_ftable"
  by (simp_all add: boot_bcache_def ftable.defs)

lemma inside_boot_bcache: "inside 0 {} boot_bcache"
  using inside_boot_ftable by (simp add: inside_def con_ok_def cpu_ok_def cpus_wf_def)

section \<open>Requests reach the disk\<close>

lemma unat_bits:
  fixes w :: uint
  assumes "k \<le> 8"
  shows "unat (ucast (drop_bit n w AND mask k) :: uchar) = unat w div 2 ^ n mod 2 ^ k"
proof -
  have u: "unat w < 2 ^ 32" using unsigned_less [of w, where ?'a = nat] by simp
  have "unat (drop_bit n w AND mask k) = take_bit k (unat (drop_bit n w))"
    by (simp only: unsigned_take_bit_eq flip: take_bit_eq_mask)
  also have "unat (drop_bit n w) = drop_bit n (unat w)"
    using u by (simp add: unsigned_drop_bit_eq take_bit_nat_eq_self)
  finally have "unat (drop_bit n w AND mask k) = unat w div 2 ^ n mod 2 ^ k"
    by (simp only: take_bit_eq_mod drop_bit_eq_div)
  moreover have "unat w div 2 ^ n mod 2 ^ k < 2 ^ 8"
    using assms by (meson less_le_trans mod_less_divisor one_le_numeral power_increasing zero_less_numeral zero_less_power)
  ultimately show ?thesis by (simp add: unsigned_ucast_eq take_bit_nat_eq_self)
qed

lemma mod_digits: "(x :: nat) mod 2 ^ 28 =
    x mod 2 ^ 8 + x div 2 ^ 8 mod 2 ^ 8 * 2 ^ 8 + x div 2 ^ 16 mod 2 ^ 8 * 2 ^ 16 + x div 2 ^ 24 mod 2 ^ 4 * 2 ^ 24"
proof -
  have "(2::nat) ^ 28 = 2 ^ 8 * (2 ^ 8 * (2 ^ 8 * 2 ^ 4))" by (simp flip: power_add)
  then have "x mod 2 ^ 28 = 2 ^ 8 * (x div 2 ^ 8 mod (2 ^ 8 * (2 ^ 8 * 2 ^ 4))) + x mod 2 ^ 8"
    by (simp only: mod_mult2_eq)
  also have "x div 2 ^ 8 mod (2 ^ 8 * (2 ^ 8 * 2 ^ 4)) =
      2 ^ 8 * (x div 2 ^ 16 mod (2 ^ 8 * 2 ^ 4)) + x div 2 ^ 8 mod 2 ^ 8"
    by (subst mod_mult2_eq) (simp flip: div_mult2_eq)
  also have "x div 2 ^ 16 mod (2 ^ 8 * 2 ^ 4) = 2 ^ 8 * (x div 2 ^ 24 mod 2 ^ 4) + x div 2 ^ 16 mod 2 ^ 8"
    by (subst mod_mult2_eq) (simp flip: div_mult2_eq)
  finally show ?thesis by simp
qed

lemma ide_sector_split:
  fixes w :: uint
  shows "unat (ucast (w AND 0xff) :: uchar) + unat (ucast (drop_bit 8 w AND 0xff) :: uchar) * 2 ^ 8 +
    unat (ucast (drop_bit 16 w AND 0xff) :: uchar) * 2 ^ 16 + unat (ucast (drop_bit 24 w AND 0x0f) :: uchar) * 2 ^ 24 =
    unat w mod 2 ^ 28"
proof -
  have m: "(0xff::uint) = mask 8" "(0x0f::uint) = mask 4" by (simp_all add: mask_eq_exp_minus_1)
  show ?thesis
    using unat_bits [of 8 0 w] unat_bits [of 8 8 w] unat_bits [of 8 16 w] unat_bits [of 4 24 w]
    unfolding m mod_digits by simp
qed

text \<open>The drive register: bit 4 selects the drive, the low bits are those of the sector.\<close>

lemma bit_0xF: "bit (0xF :: 'a::len word) n \<longleftrightarrow> n < 4 \<and> n < LENGTH('a)"
proof -
  have eq: "(0xF :: 'a word) = mask 4" by (simp add: mask_eq_exp_minus_1)
  show ?thesis unfolding eq by (auto simp: bit_mask_iff)
qed

lemma bit_0xE0: "bit (0xE0 :: uchar) n \<longleftrightarrow> n = 5 \<or> n = 6 \<or> n = 7"
proof -
  have eq: "(0xE0 :: uchar) = push_bit 5 (mask 3)" by (simp add: mask_eq_exp_minus_1)
  show ?thesis unfolding eq by (auto simp: bit_push_bit_iff bit_mask_iff)
qed

lemma drive_reg:
  fixes d w :: uint
  shows "(0xe0 OR push_bit 4 (ucast (d AND 1)) OR ucast (drop_bit 24 w AND 0x0f) :: uchar) AND 0xF = ucast (drop_bit 24 w AND 0x0f)"
    "bit (0xe0 OR push_bit 4 (ucast (d AND 1)) OR ucast (drop_bit 24 w AND 0x0f) :: uchar) 4 \<longleftrightarrow> bit d 0"
proof -
  have "(bit (0xE0 :: uchar) n \<or> bit (push_bit 4 (ucast (d AND 1)) :: uchar) n \<or> bit (ucast (drop_bit 24 w AND 0x0f) :: uchar) n) \<and>
      bit (0xF :: uchar) n \<longleftrightarrow> bit (ucast (drop_bit 24 w AND 0x0f) :: uchar) n" for n
    unfolding bit_0xE0 bit_0xF bit_push_bit_iff bit_ucast_iff bit_and_iff by auto
  then show "(0xe0 OR push_bit 4 (ucast (d AND 1)) OR ucast (drop_bit 24 w AND 0x0f) :: uchar) AND 0xF = ucast (drop_bit 24 w AND 0x0f)"
    by (intro bit_word_eqI) (simp only: bit_and_iff bit_or_iff)
  show "bit (0xe0 OR push_bit 4 (ucast (d AND 1)) OR ucast (drop_bit 24 w AND 0x0f) :: uchar) 4 \<longleftrightarrow> bit d 0"
    unfolding bit_or_iff bit_0xE0 bit_0xF bit_push_bit_iff bit_ucast_iff bit_and_iff by simp
qed

text \<open>The device after a request for buffer \<open>x\<close>, when the status port was read up to \<open>rs\<close>.\<close>

definition ide_request :: "uchar list \<Rightarrow> buf \<Rightarrow> ide_dev \<Rightarrow> ide_dev" where
  "ide_request rs x d =
     (let w = b_blockno x;
          d = d\<lparr>ide_status := rs, ide_reg := (ide_reg d)(14 := 0, 2 := 1, 3 := ucast (w AND 0xff),
            4 := ucast (drop_bit 8 w AND 0xff), 5 := ucast (drop_bit 16 w AND 0xff),
            6 := 0xe0 OR push_bit 4 (ucast (b_dev x AND 1)) OR ucast (drop_bit 24 w AND 0x0f),
            7 := (if b_flags x AND B_DIRTY \<noteq> 0 then 0x30 else 0x20))\<rparr>
      in if b_flags x AND B_DIRTY \<noteq> 0 then ide_put (b_data x) d else d)"

lemma idestart_eq:
  assumes "ide_ready (ide_status (ide s)) = Some (r, rs)" and "b_blockno (bufs s b) < FSSIZE"
  shows "idestart (Some b) s = Inr (s\<lparr>ide := ide_request rs (bufs s b) (ide s)\<rparr>)"
proof (cases "b_flags (bufs s b) AND B_DIRTY \<noteq> 0")
  case True
  with assms show ?thesis
    by (simp add: idestart_def Let_def panic_if_def idewait_def ide_out_def upd_ide_def buf_is_def ide_request_def)
next
  case False
  with assms show ?thesis
    by (simp add: idestart_def Let_def panic_if_def idewait_def ide_out_def upd_ide_def buf_is_def ide_request_def)
qed

lemma ide_put_simps [simp]:
  "ide_sector (ide_put blk e) = ide_sector e" "ide_drive (ide_put blk e) = ide_drive e"
  "ide_status (ide_put blk e) = ide_status e"
  by (simp_all add: ide_put_def ide_sector_def ide_drive_def)

lemma ide_request_simps:
  assumes "b_blockno x < FSSIZE"
  shows "ide_status (ide_request rs x d) = rs" "ide_sector (ide_request rs x d) = unat (b_blockno x)"
    "ide_drive (ide_request rs x d) = bit (b_dev x) 0"
    "ide_disk (ide_request rs x d) = (if b_flags x AND B_DIRTY \<noteq> 0
      then (ide_disk d)(bit (b_dev x) 0 := (ide_disk d (bit (b_dev x) 0))(unat (b_blockno x) := b_data x))
      else ide_disk d)"
proof -
  let ?w = "b_blockno x"
  let ?d = "d\<lparr>ide_status := rs, ide_reg := (ide_reg d)(14 := 0, 2 := 1, 3 := ucast (?w AND 0xff),
    4 := ucast (drop_bit 8 ?w AND 0xff), 5 := ucast (drop_bit 16 ?w AND 0xff),
    6 := 0xe0 OR push_bit 4 (ucast (b_dev x AND 1)) OR ucast (drop_bit 24 ?w AND 0x0f),
    7 := (if b_flags x AND B_DIRTY \<noteq> 0 then 0x30 else 0x20))\<rparr>"
  have r: "ide_request rs x d = (if b_flags x AND B_DIRTY \<noteq> 0 then ide_put (b_data x) ?d else ?d)"
    by (simp add: ide_request_def Let_def)
  have "unat ?w < 1000" using assms by (simp add: word_less_nat_alt)
  then have sec: "ide_sector ?d = unat ?w"
    using ide_sector_split [of ?w] by (simp add: ide_sector_def drive_reg)
  have drv: "ide_drive ?d = bit (b_dev x) 0" by (simp add: ide_drive_def drive_reg)
  show "ide_status (ide_request rs x d) = rs" "ide_sector (ide_request rs x d) = unat ?w"
    "ide_drive (ide_request rs x d) = bit (b_dev x) 0"
    using sec drv unfolding r by (simp_all split: if_splits)
  show "ide_disk (ide_request rs x d) = (if b_flags x AND B_DIRTY \<noteq> 0
      then (ide_disk d)(bit (b_dev x) 0 := (ide_disk d (bit (b_dev x) 0))(unat (b_blockno x) := b_data x))
      else ide_disk d)"
    unfolding r ide_put_def sec drv by simp
qed

lemma ide_request_read: "b_flags x AND B_DIRTY = 0 \<Longrightarrow> ide_reg (ide_request rs x d) 7 = 0x20"
  by (simp add: ide_request_def Let_def)

section \<open>The interrupt handler\<close>

lemma buf_done_flags: "b_flags (buf_done x) AND (B_VALID OR B_DIRTY) = B_VALID"
proof -
  have "((f OR 2) AND NOT 4) AND (2 OR 4) = (2 :: uint)" for f
  proof (rule bit_word_eqI)
    fix n
    have "bit (2::uint) n \<longleftrightarrow> n = 1" "bit (4::uint) n \<longleftrightarrow> n = 2"
      using bit_exp_iff [of 1 n, where ?'a = "32 word"] bit_exp_iff [of 2 n, where ?'a = "32 word"] by auto
    then show "bit (((f OR 2) AND NOT 4) AND (2 OR 4)) n = bit (2 :: uint) n"
      unfolding bit_and_iff bit_or_iff bit_not_iff by auto
  qed
  then show ?thesis by (simp add: buf_done_def)
qed

lemma inside_bcache_simps [simp]:
  "inside p H (s\<lparr>idequeue := q\<rparr>) = inside p H s" "inside p H (upd_buf b f s) = inside p H s"
  "inside p H (s\<lparr>ide := d\<rparr>) = inside p H s"
  by (rule inside_cong; simp add: upd_buf_def)+

lemma upd_buf_simps [simp]:
  "bufs (upd_buf b f s) = (bufs s)(b := f (bufs s b))" "idequeue (upd_buf b f s) = idequeue s"
  "ide (upd_buf b f s) = ide s" "procs (upd_buf b f s) = procs s"
  by (simp_all add: upd_buf_def)

lemma bcache_acquired [simp]:
  "bufs (acquired L s) = bufs s" "idequeue (acquired L s) = idequeue s" "ide (acquired L s) = ide s"
  "bufs (released L s) = bufs s" "idequeue (released L s) = idequeue s" "ide (released L s) = ide s"
  by (simp_all add: acquired_def released_def upd_cpu_def)

lemma bcache_wakeup1 [simp]:
  "bufs (wakeup1 ch s) = bufs s" "idequeue (wakeup1 ch s) = idequeue s" "ide (wakeup1 ch s) = ide s"
  by (simp_all add: wakeup1_eq)

text \<open>The end of a request: the buffer is marked, the sleepers are woken, the next request starts.\<close>

lemma ideintr_finish:
  fixes s :: "'a bcache_scheme" and b :: nat and blk :: block and d e :: ide_dev
  defines "a \<equiv> (acquired L_ide s)\<lparr>idequeue := b_qnext (bufs s b)\<rparr>"
  defines "w \<equiv> wakeup1 (Some (Ch_buf b)) (upd_buf b (\<lambda>x. buf_done (x\<lparr>b_data := blk\<rparr>)) (a\<lparr>ide := d\<rparr>))"
  assumes s: "inside p H s" "L_ide \<notin> H" "L_ptable \<notin> H" and q: "idequeue s = Some b"
    and rd: "ide_take b a = Inr (upd_buf b (\<lambda>x. x\<lparr>b_data := blk\<rparr>) (a\<lparr>ide := d\<rparr>))"
    and st: "ide_next w = Inr (w\<lparr>ide := e\<rparr>)"
  shows "\<exists>t. ideintr s = Inr t \<and> inside p H t \<and> bufs t = (bufs s)(b := buf_done ((bufs s b)\<lparr>b_data := blk\<rparr>)) \<and>
    idequeue t = b_qnext (bufs s b) \<and> ide t = e"
proof -
  have l: "acquire L_ide s = Inr (acquired L_ide s)" "inside p (insert L_ide H) (acquired L_ide s)"
    using acquire_inside [OF s(1,2)] by simp_all
  let ?r = "upd_buf b (\<lambda>x. buf_done (x\<lparr>b_data := blk\<rparr>)) (a\<lparr>ide := d\<rparr>)"
  have i: "inside p (insert L_ide H) ?r" using l(2) by (simp add: a_def)
  then have "wakeup (Ch_buf b) ?r = Inr w"
    using wakeup_inside [OF i] synced_inside [OF i] s(3) by (simp add: w_def)
  moreover have "upd_buf b buf_done (upd_buf b (\<lambda>x. x\<lparr>b_data := blk\<rparr>) (a\<lparr>ide := d\<rparr>)) = ?r" by (simp add: upd_buf_def)
  moreover have i': "inside p (insert L_ide H) (w\<lparr>ide := e\<rparr>)" using i by (simp add: w_def)
  have "insert L_ide H - {L_ide} = H" using s(2) by auto
  then have r: "release L_ide (w\<lparr>ide := e\<rparr>) = Inr (released L_ide (w\<lparr>ide := e\<rparr>))" "inside p H (released L_ide (w\<lparr>ide := e\<rparr>))"
    using release_inside [OF i', of L_ide] by simp_all
  ultimately have "ideintr s = Inr (released L_ide (w\<lparr>ide := e\<rparr>))"
    using l(1) q rd st r(1) by (simp add: ideintr_def a_def)
  then show ?thesis using r(2) by (intro exI [of _ "released L_ide (w\<lparr>ide := e\<rparr>)"]) (simp add: w_def a_def)
qed

text \<open>The interrupts that end a write request with a request for \<open>c\<close> behind it, and a read request alone.\<close>

lemma ideintr_write:
  fixes s :: "'a bcache_scheme"
  assumes s: "inside p H s" "L_ide \<notin> H" "L_ptable \<notin> H" and q: "idequeue s = Some b" "b_qnext (bufs s b) = Some c" "b \<noteq> c"
    and b: "buf_is B_DIRTY b s" "b_blockno (bufs s c) < FSSIZE" "ide_ready (ide_status (ide s)) = Some (r, rs)"
  shows "\<exists>t. ideintr s = Inr t \<and> inside p H t \<and> bufs t = (bufs s)(b := buf_done (bufs s b)) \<and>
    idequeue t = Some c \<and> ide t = ide_request rs (bufs s c) (ide s)"
proof -
  let ?a = "(acquired L_ide s)\<lparr>idequeue := b_qnext (bufs s b)\<rparr>"
  let ?w = "wakeup1 (Some (Ch_buf b)) (upd_buf b (\<lambda>x. buf_done (x\<lparr>b_data := b_data (bufs s b)\<rparr>)) (?a\<lparr>ide := ide s\<rparr>))"
  have "upd_buf b (\<lambda>x. x\<lparr>b_data := b_data (bufs s b)\<rparr>) (?a\<lparr>ide := ide s\<rparr>) = ?a"
    by (simp add: upd_buf_def acquired_def upd_cpu_def)
  then have rd: "ide_take b ?a = Inr (upd_buf b (\<lambda>x. x\<lparr>b_data := b_data (bufs s b)\<rparr>) (?a\<lparr>ide := ide s\<rparr>))"
    using b(1) by (simp add: ide_take_def buf_is_def)
  have "bufs ?w c = bufs s c" "ide ?w = ide s" "idequeue ?w = Some c" using q by simp_all
  then have st: "ide_next ?w = Inr (?w\<lparr>ide := ide_request rs (bufs s c) (ide s)\<rparr>)"
    using idestart_eq [of ?w r rs c] b(2,3) by (simp only: ide_next_def) simp
  show ?thesis using ideintr_finish [OF s q(1) rd st] q(2) by simp
qed

lemma ideintr_read:
  fixes s :: "'a bcache_scheme"
  assumes s: "inside p H s" "L_ide \<notin> H" "L_ptable \<notin> H" and q: "idequeue s = Some b" "b_qnext (bufs s b) = None"
    and b: "\<not> buf_is B_DIRTY b s" "ide_ready (ide_status (ide s)) = Some (r, rs)" "r AND 0x21 = 0"
  shows "\<exists>t. ideintr s = Inr t \<and> inside p H t \<and>
    bufs t = (bufs s)(b := buf_done ((bufs s b)\<lparr>b_data := ide_get (ide s)\<rparr>)) \<and> idequeue t = None"
proof -
  let ?a = "(acquired L_ide s)\<lparr>idequeue := b_qnext (bufs s b)\<rparr>" and ?d = "(ide s)\<lparr>ide_status := rs\<rparr>"
  let ?w = "wakeup1 (Some (Ch_buf b)) (upd_buf b (\<lambda>x. buf_done (x\<lparr>b_data := ide_get (ide s)\<rparr>)) (?a\<lparr>ide := ?d\<rparr>))"
  have g: "ide_get ?d = ide_get (ide s)" by (simp add: ide_get_def ide_drive_def ide_sector_def)
  have "idewait True ?a = Inr (0, ?a\<lparr>ide := ?d\<rparr>)" using b(2,3) by (simp add: idewait_def upd_ide_def)
  then have rd: "ide_take b ?a = Inr (upd_buf b (\<lambda>x. x\<lparr>b_data := ide_get (ide s)\<rparr>) (?a\<lparr>ide := ?d\<rparr>))"
    using b(1) g by (simp add: ide_take_def buf_is_def)
  have "ide ?w = ?d" "idequeue ?w = None" using q by simp_all
  then have st: "ide_next ?w = Inr (?w\<lparr>ide := ?d\<rparr>)" by (simp only: ide_next_def) simp
  show ?thesis using ideintr_finish [OF s q(1) rd st] q(2) by auto
qed

text \<open>
  C28: a block written to the disk is what is read back. With a write request for buffer \<open>b\<close> and a
  read request for buffer \<open>c\<close> of the same block in the queue, the two interrupts that complete them
  leave in \<open>c\<close> the data of \<open>b\<close>, both buffers valid and clean, and the queue empty.
\<close>

theorem ide_roundtrip:
  assumes s: "inside p H s" "L_ide \<notin> H" "L_ptable \<notin> H"
    and q: "idequeue s = Some b" "b_qnext (bufs s b) = Some c" "b_qnext (bufs s c) = None" "b \<noteq> c"
    and b: "buf_is B_DIRTY b s" "\<not> buf_is B_DIRTY c s" "b_blockno (bufs s b) < FSSIZE"
      "b_blockno (bufs s c) = b_blockno (bufs s b)" "b_dev (bufs s c) = b_dev (bufs s b)"
    and r: "ide_status (ide s) = r1 # r2 # r3 # rs" "r1 AND 0xC0 = 0x40" "r2 AND 0xC0 = 0x40" "r3 AND 0xC0 = 0x40"
      "r3 AND 0x21 = 0"
  shows "\<exists>t u v. idestart (Some b) s = Inr t \<and> ideintr t = Inr u \<and> ideintr u = Inr v \<and>
    b_data (bufs v c) = b_data (bufs s b) \<and> idequeue v = None \<and>
    b_flags (bufs v b) AND (B_VALID OR B_DIRTY) = B_VALID \<and> b_flags (bufs v c) AND (B_VALID OR B_DIRTY) = B_VALID"
proof -
  let ?d = "ide_request (r2 # r3 # rs) (bufs s b) (ide s)"
  let ?e = "ide_request (r3 # rs) (bufs s c) ?d"
  have c: "b_blockno (bufs s c) < FSSIZE" using b(3,4) by simp
  note d = ide_request_simps [OF b(3), of "r2 # r3 # rs" "ide s"] and e = ide_request_simps [OF c, of "r3 # rs" ?d]
  have "ide_ready (ide_status (ide s)) = Some (r1, r2 # r3 # rs)" using r(1,2) by simp
  then have t: "idestart (Some b) s = Inr (s\<lparr>ide := ?d\<rparr>)" using b(3) by (rule idestart_eq)
  have "ide_ready (ide_status ?d) = Some (r2, r3 # rs)" unfolding d(1) using r(3) by simp
  then obtain u where u: "ideintr (s\<lparr>ide := ?d\<rparr>) = Inr u" "inside p H u" "bufs u = (bufs s)(b := buf_done (bufs s b))"
      "idequeue u = Some c" "ide u = ?e"
    using ideintr_write [of p H "s\<lparr>ide := ?d\<rparr>" b c] s q b(1) c by (auto simp: buf_is_def)
  have "ide_ready (ide_status ?e) = Some (r3, rs)" unfolding e(1) using r(4) by simp
  then obtain v where v: "ideintr u = Inr v" "idequeue v = None"
      "bufs v = (bufs u)(c := buf_done ((bufs u c)\<lparr>b_data := ide_get (ide u)\<rparr>))"
    using ideintr_read [OF u(2) s(2,3) u(4)] u(3,5) q(3,4) b(2) r(5) by (auto simp: buf_is_def)
  have "b_flags (bufs s b) AND B_DIRTY \<noteq> 0" "\<not> b_flags (bufs s c) AND B_DIRTY \<noteq> 0" using b(1,2) by (simp_all add: buf_is_def)
  then have "ide_get ?e = b_data (bufs s b)"
    unfolding ide_get_def e(2-4) d(4) b(4,5) by (simp add: ide_request_read)
  then have "b_data (bufs v c) = b_data (bufs s b)" using v(3) u(5) by (simp add: buf_done_def)
  moreover have "b_flags (bufs v b) AND (B_VALID OR B_DIRTY) = B_VALID" "b_flags (bufs v c) AND (B_VALID OR B_DIRTY) = B_VALID"
    using v(3) u(3) q(4) buf_done_flags by simp_all
  ultimately show ?thesis using t u(1) v(1,2) by blast
qed

text \<open>Two requests for block 5 of disk 1, the first to write a block of ones.\<close>

definition two_requests :: bcache where
  "two_requests = boot_bcache\<lparr>idequeue := Some 0, bufs := (\<lambda>i. if i = 0
     then (bufs boot_bcache 0)\<lparr>b_flags := 6, b_dev := 1, b_blockno := 5, b_qnext := Some 1, b_data := (\<lambda>_. 1)\<rparr>
     else (bufs boot_bcache i)\<lparr>b_dev := 1, b_blockno := 5\<rparr>)\<rparr>"

theorem ide_roundtrip_witness:
  "\<exists>t u v. idestart (Some 0) two_requests = Inr t \<and> ideintr t = Inr u \<and> ideintr u = Inr v \<and> b_data (bufs v 1) = (\<lambda>_. 1)"
proof -
  have i: "inside 0 {} two_requests"
    using inside_boot_bcache by (subst inside_cong [of _ boot_bcache]) (simp_all add: two_requests_def)
  have r: "ide_status (ide two_requests) = 0x40 # 0x40 # 0x40 # replicate 97 0x40"
    by (simp add: two_requests_def boot_bcache_def ftable.defs numeral_eq_Suc)
  have b: "bufs two_requests 0 = (bufs boot_bcache 0)\<lparr>b_flags := 6, b_dev := 1, b_blockno := 5, b_qnext := Some 1, b_data := (\<lambda>_. 1)\<rparr>"
      "bufs two_requests 1 = (bufs boot_bcache 1)\<lparr>b_dev := 1, b_blockno := 5\<rparr>" "idequeue two_requests = Some 0"
      "b_qnext (bufs boot_bcache 1) = None" "b_flags (bufs boot_bcache 1) = 0"
    by (simp_all add: two_requests_def boot_bcache_def ftable.defs)
  show ?thesis
    using ide_roundtrip [OF i _ _ b(3), of 1 "0x40" "0x40" "0x40" "replicate 97 0x40"] b r by (auto simp: buf_is_def)
qed

end
