(* ===== verification/Bio.thy ===== *)
theory Bio
  imports Ide
begin

text \<open>
  The block cache, \<open>bio.c\<close>: a doubly linked list of the buffers in order of use. A pointer to
  the list head is the index \<open>NBUF\<close>.
\<close>

section \<open>The code\<close>

definition binit_buf :: "nat \<Rightarrow> 'a bcache_scheme \<Rightarrow> 'a bcache_scheme" where
  "binit_buf b s =
     (let h = b_next (bufs s NBUF);
          s = upd_buf b (\<lambda>x. x\<lparr>b_next := h, b_prev := NBUF\<rparr>) s;
          s = initsleeplock (SL_buf b) ''buffer'' s;
          s = upd_buf h (\<lambda>x. x\<lparr>b_prev := b\<rparr>) s
      in upd_buf NBUF (\<lambda>x. x\<lparr>b_next := b\<rparr>) s)"

definition binit :: "'a bcache_scheme \<Rightarrow> 'a bcache_scheme" where
  "binit s =
     (let s = initlock L_bcache ''bcache'' s;
          s = upd_buf NBUF (\<lambda>x. x\<lparr>b_prev := NBUF, b_next := NBUF\<rparr>) s
      in fold binit_buf [0..<NBUF] s)"

text \<open>
  The two loops of \<open>bget\<close>: along \<open>next\<close> and along \<open>prev\<close>, up to the list head, which a list of
  \<open>NBUF\<close> buffers reaches after at most \<open>NBUF\<close> steps.
\<close>

fun scan :: "nat \<Rightarrow> (buf \<Rightarrow> nat) \<Rightarrow> (buf \<Rightarrow> bool) \<Rightarrow> nat \<Rightarrow> (nat \<Rightarrow> buf) \<Rightarrow> nat option res" where
  "scan n link P b B =
     (if b = NBUF then Inr None
      else if P (B b) then Inr (Some b)
      else case n of 0 \<Rightarrow> Inl Halt | Suc n \<Rightarrow> scan n link P (link (B b)) B)"

declare scan.simps [simp del]

definition bget_find :: "uint \<Rightarrow> uint \<Rightarrow> 'a bcache_scheme \<Rightarrow> (nat \<times> 'a bcache_scheme) res" where
  "bget_find dev blockno s =
     bnd (scan NBUF b_next (\<lambda>x. b_dev x = dev \<and> b_blockno x = blockno) (b_next (bufs s NBUF)) (bufs s)) (\<lambda>r.
     case r of
       Some b \<Rightarrow> Inr (b, upd_buf b (\<lambda>x. x\<lparr>b_refcnt := b_refcnt x + 1\<rparr>) s)
     | None \<Rightarrow>
         bnd (scan NBUF b_prev (\<lambda>x. b_refcnt x = 0 \<and> b_flags x AND B_DIRTY = 0) (b_prev (bufs s NBUF)) (bufs s)) (\<lambda>r.
         case r of
           Some b \<Rightarrow> Inr (b, upd_buf b (\<lambda>x. x\<lparr>b_dev := dev, b_blockno := blockno, b_flags := 0, b_refcnt := 1\<rparr>) s)
         | None \<Rightarrow> Inl (Panic ''bget: no buffers'')))"

definition bget :: "uint \<Rightarrow> uint \<Rightarrow> ('a bcache_scheme, nat) thr" where
  "bget dev blockno =
     tseq (act (acquire L_bcache))
     (tbnd (ask (bget_find dev blockno)) (\<lambda>b.
      tseq (act (release L_bcache))
     (tseq (acquiresleep (SL_buf b)) (ret b))))"

definition bread :: "uint \<Rightarrow> uint \<Rightarrow> ('a bcache_scheme, nat) thr" where
  "bread dev blockno =
     tbnd (bget dev blockno) (\<lambda>b.
     tbnd (look (buf_is B_VALID b)) (\<lambda>v.
     tseq (if v then ret () else iderw b) (ret b)))"

definition bwrite :: "nat \<Rightarrow> ('a bcache_scheme, unit) thr" where
  "bwrite b =
     tbnd (holdingsleep (SL_buf b)) (\<lambda>h.
     tseq (panic_when (\<not> h) ''bwrite'')
     (tseq (modify (upd_buf b (\<lambda>x. x\<lparr>b_flags := b_flags x OR B_DIRTY\<rparr>)))
     (iderw b)))"

text \<open>\<open>brelse\<close> moves a buffer that nobody uses to the front of the list.\<close>

definition unlink_buf :: "nat \<Rightarrow> (nat \<Rightarrow> buf) \<Rightarrow> nat \<Rightarrow> buf" where
  "unlink_buf b B =
     (let n = b_next (B b); p = b_prev (B b);
          B = B(n := (B n)\<lparr>b_prev := p\<rparr>)
      in B(p := (B p)\<lparr>b_next := n\<rparr>))"

definition push_buf :: "nat \<Rightarrow> (nat \<Rightarrow> buf) \<Rightarrow> nat \<Rightarrow> buf" where
  "push_buf b B =
     (let h = b_next (B NBUF);
          B = B(b := (B b)\<lparr>b_next := h, b_prev := NBUF\<rparr>);
          B = B(h := (B h)\<lparr>b_prev := b\<rparr>)
      in B(NBUF := (B NBUF)\<lparr>b_next := b\<rparr>))"

definition brelse_ref :: "nat \<Rightarrow> 'a bcache_scheme \<Rightarrow> 'a bcache_scheme" where
  "brelse_ref b s =
     (let s = upd_buf b (\<lambda>x. x\<lparr>b_refcnt := b_refcnt x - 1\<rparr>) s
      in if b_refcnt (bufs s b) = 0 then s\<lparr>bufs := push_buf b (unlink_buf b (bufs s))\<rparr> else s)"

definition brelse :: "nat \<Rightarrow> ('a bcache_scheme, unit) thr" where
  "brelse b =
     tbnd (holdingsleep (SL_buf b)) (\<lambda>h.
     tseq (panic_when (\<not> h) ''brelse'')
     (tseq (releasesleep (SL_buf b))
     (tseq (act (acquire L_bcache))
     (tseq (modify (brelse_ref b))
     (act (release L_bcache))))))"

section \<open>The list of buffers\<close>

text \<open>
  The links \<open>next\<close> and \<open>prev\<close> of the buffers \<open>B\<close>, with the list head \<open>NBUF\<close>, form the list \<open>l\<close>, most
  recently used first.
\<close>

fun chain :: "(nat \<Rightarrow> buf) \<Rightarrow> nat \<Rightarrow> nat list \<Rightarrow> nat \<Rightarrow> bool" where
  "chain B a [] z \<longleftrightarrow> b_next (B a) = z \<and> b_prev (B z) = a"
| "chain B a (b # l) z \<longleftrightarrow> b_next (B a) = b \<and> b_prev (B b) = a \<and> chain B b l z"

definition lru :: "(nat \<Rightarrow> buf) \<Rightarrow> nat list \<Rightarrow> bool" where
  "lru B l \<longleftrightarrow> chain B NBUF l NBUF \<and> distinct l \<and> set l = {..<NBUF}"

lemma chain_append: "chain B a (l @ c # m) z \<longleftrightarrow> chain B a l c \<and> chain B c m z"
  by (induction l arbitrary: a) auto

lemma chain_cong:
  "(\<forall>b\<in>insert a (set l). b_next (C b) = b_next (B b)) \<Longrightarrow> (\<forall>b\<in>insert z (set l). b_prev (C b) = b_prev (B b)) \<Longrightarrow>
     chain C a l z = chain B a l z"
  by (induction l arbitrary: a) auto

lemma scan_next:
  assumes "chain B a l NBUF" and "NBUF \<notin> set l" and "length l \<le> n"
  shows "scan n b_next P (b_next (B a)) B = Inr (find (\<lambda>b. P (B b)) l)"
  using assms
proof (induction l arbitrary: a n)
  case Nil
  then show ?case by (simp add: scan.simps)
next
  case (Cons b l)
  then obtain k where "n = Suc k" "length l \<le> k" by (cases n) auto
  with Cons show ?case by (simp add: scan.simps [of "Suc k"])
qed

lemma scan_prev:
  assumes "chain B NBUF l z" and "NBUF \<notin> set l" and "length l \<le> n"
  shows "scan n b_prev P (b_prev (B z)) B = Inr (find (\<lambda>b. P (B b)) (rev l))"
  using assms
proof (induction l arbitrary: z n rule: rev_induct)
  case Nil
  then show ?case by (simp add: scan.simps)
next
  case (snoc b l)
  then obtain k where "n = Suc k" "length l \<le> k" by (cases n) auto
  with snoc show ?case by (simp add: scan.simps [of "Suc k"] chain_append)
qed

text \<open>Putting a buffer at the front of the list, and moving it there.\<close>

lemma push_chain:
  assumes "chain U NBUF w NBUF" and "b \<notin> set w" "NBUF \<notin> set w" "distinct w" "b \<noteq> NBUF"
  shows "chain (push_buf b U) NBUF (b # w) NBUF"
proof (cases w)
  case Nil
  with assms show ?thesis by (simp add: push_buf_def Let_def)
next
  case (Cons y v)
  with assms show ?thesis
    by (auto simp: push_buf_def Let_def intro: chain_cong [THEN iffD2])
qed

lemma move_to_front:
  assumes l: "lru B l" and b: "b < NBUF"
  shows "lru (push_buf b (unlink_buf b B)) (b # remove1 b l)"
proof -
  have c: "chain B NBUF l NBUF" "distinct l" "set l = {..<NBUF}" using l by (simp_all add: lru_def)
  have "b \<in> set l" using b c(3) by simp
  then obtain u v where uv: "l = u @ b # v" by (meson split_list)
  have d: "b \<notin> set u" "b \<notin> set v" "set u \<inter> set v = {}" "distinct u" "distinct v" "NBUF \<notin> set u" "NBUF \<notin> set v" "b \<noteq> NBUF"
    using c(2,3) b uv by auto
  have rm: "remove1 b l = u @ v" using uv d(1) by (simp add: remove1_append)
  have cu: "chain B NBUF u b" "chain B b v NBUF" using c(1) uv by (simp_all add: chain_append)
  let ?U = "unlink_buf b B" and ?C = "push_buf b (unlink_buf b B)"
  have out: "chain ?U NBUF (u @ v) NBUF"
  proof (cases v)
    case Nil
    show ?thesis
    proof (cases u rule: rev_cases)
      case Nil
      with \<open>v = []\<close> cu show ?thesis by (simp add: unlink_buf_def Let_def)
    next
      case (snoc u' x)
      with \<open>v = []\<close> cu d show ?thesis
        by (auto simp: chain_append unlink_buf_def Let_def intro: chain_cong [THEN iffD2])
    qed
  next
    case (Cons y v')
    show ?thesis
    proof (cases u rule: rev_cases)
      case Nil
      with Cons cu d show ?thesis
        by (auto simp: unlink_buf_def Let_def intro: chain_cong [THEN iffD2])
    next
      case (snoc u' x)
      with Cons cu d show ?thesis
        by (auto simp: chain_append unlink_buf_def Let_def intro: chain_cong [THEN iffD2])
    qed
  qed
  have "chain ?C NBUF (b # u @ v) NBUF" using out d by (intro push_chain) auto
  moreover have "distinct (b # u @ v)" "set (b # u @ v) = {..<NBUF}" using c(2,3) uv d by auto
  ultimately show ?thesis by (simp add: lru_def rm)
qed

section \<open>The cache\<close>

text \<open>No block is cached twice. Device 0 marks the buffers that were never used.\<close>

definition cached :: "uint \<Rightarrow> uint \<Rightarrow> (nat \<Rightarrow> buf) \<Rightarrow> nat \<Rightarrow> bool" where
  "cached dev blockno B b \<longleftrightarrow> b_dev (B b) = dev \<and> b_blockno (B b) = blockno"

definition unused :: "(nat \<Rightarrow> buf) \<Rightarrow> nat \<Rightarrow> bool" where
  "unused B b \<longleftrightarrow> b_refcnt (B b) = 0 \<and> b_flags (B b) AND B_DIRTY = 0"

definition once :: "(nat \<Rightarrow> buf) \<Rightarrow> bool" where
  "once B \<longleftrightarrow> (\<forall>b<NBUF. \<forall>c<NBUF. b_dev (B b) \<noteq> 0 \<longrightarrow> b_dev (B b) = b_dev (B c) \<longrightarrow>
     b_blockno (B b) = b_blockno (B c) \<longrightarrow> b = c)"

lemma lru_cong: "(\<forall>b\<le>NBUF. b_next (C b) = b_next (B b) \<and> b_prev (C b) = b_prev (B b)) \<Longrightarrow> lru C l = lru B l"
  unfolding lru_def by (auto simp: chain_cong [of NBUF l C B NBUF])

lemma once_cong: "(\<forall>b<NBUF. b_dev (C b) = b_dev (B b) \<and> b_blockno (C b) = b_blockno (B b)) \<Longrightarrow> once C = once B"
  unfolding once_def by simp

lemma find_append: "find P (xs @ ys) = (case find P xs of None \<Rightarrow> find P ys | Some x \<Rightarrow> Some x)"
  by (induction xs) auto

lemma find_last: "find P (rev l) = Some b \<Longrightarrow> \<exists>u v. l = u @ b # v \<and> P b \<and> (\<forall>c\<in>set v. \<not> P c)"
proof (induction l)
  case (Cons a l)
  show ?case
  proof (cases "find P (rev l)")
    case None
    then have "\<forall>c\<in>set l. \<not> P c" by (simp add: find_None_iff)
    moreover have "a = b" "P b" using Cons.prems None by (auto simp: find_append split: if_splits)
    ultimately show ?thesis by (intro exI [of _ "[]"] exI [of _ l]) auto
  next
    case (Some c)
    then have "find P (rev l) = Some b" using Cons.prems by (auto simp: find_append)
    then obtain u v where "l = u @ b # v" "P b" "\<forall>c\<in>set v. \<not> P c" using Cons.IH by blast
    then show ?thesis by (intro exI [of _ "a # u"] exI [of _ v]) simp
  qed
qed simp

text \<open>
  The steps of the cache under its lock: a lookup, a release, and anything that keeps links and
  block numbers. The second argument is the list, most recently used first.
\<close>

inductive cache_hist :: "'a bcache_scheme \<Rightarrow> nat list \<Rightarrow> bool" where
  start: "\<forall>b<NBUF. b_dev (bufs s b) = 0 \<Longrightarrow> cache_hist (binit s) (rev [0..<NBUF])"
| get: "cache_hist s l \<Longrightarrow> dev \<noteq> 0 \<Longrightarrow> bget_find dev blockno s = Inr (b, t) \<Longrightarrow> cache_hist t l"
| rel: "cache_hist s l \<Longrightarrow> b < NBUF \<Longrightarrow>
    cache_hist (brelse_ref b s) (if b_refcnt (bufs s b) = 1 then b # remove1 b l else l)"
| other: "cache_hist s l \<Longrightarrow> \<forall>b\<le>NBUF. b_next (bufs t b) = b_next (bufs s b) \<and> b_prev (bufs t b) = b_prev (bufs s b) \<and>
    b_dev (bufs t b) = b_dev (bufs s b) \<and> b_blockno (bufs t b) = b_blockno (bufs s b) \<Longrightarrow> cache_hist t l"

lemma lru_scan:
  assumes "lru (bufs s) l"
  shows "scan NBUF b_next P (b_next (bufs s NBUF)) (bufs s) = Inr (find (\<lambda>b. P (bufs s b)) l)"
    "scan NBUF b_prev P (b_prev (bufs s NBUF)) (bufs s) = Inr (find (\<lambda>b. P (bufs s b)) (rev l))"
proof -
  have c: "chain (bufs s) NBUF l NBUF" "NBUF \<notin> set l" "length l \<le> NBUF"
    using assms distinct_card [of l] by (auto simp: lru_def)
  show "scan NBUF b_next P (b_next (bufs s NBUF)) (bufs s) = Inr (find (\<lambda>b. P (bufs s b)) l)"
    "scan NBUF b_prev P (b_prev (bufs s NBUF)) (bufs s) = Inr (find (\<lambda>b. P (bufs s b)) (rev l))"
    using scan_next [OF c] scan_prev [OF c] by simp_all
qed

lemma bget_find_eq:
  assumes "lru (bufs s) l"
  shows "bget_find dev blockno s =
    (case find (cached dev blockno (bufs s)) l of
       Some b \<Rightarrow> Inr (b, upd_buf b (\<lambda>x. x\<lparr>b_refcnt := b_refcnt x + 1\<rparr>) s)
     | None \<Rightarrow>
        (case find (unused (bufs s)) (rev l) of
           Some b \<Rightarrow> Inr (b, upd_buf b (\<lambda>x. x\<lparr>b_dev := dev, b_blockno := blockno, b_flags := 0, b_refcnt := 1\<rparr>) s)
         | None \<Rightarrow> Inl (Panic ''bget: no buffers'')))"
proof -
  have "cached dev blockno (bufs s) = (\<lambda>b. b_dev (bufs s b) = dev \<and> b_blockno (bufs s b) = blockno)"
    "unused (bufs s) = (\<lambda>b. b_refcnt (bufs s b) = 0 \<and> b_flags (bufs s b) AND B_DIRTY = 0)"
    by (simp_all add: fun_eq_iff cached_def unused_def)
  then show ?thesis by (simp add: bget_find_def lru_scan [OF assms] split: option.splits)
qed

lemma bget_find_keeps:
  assumes l: "lru (bufs s) l" and u: "once (bufs s)" and "dev \<noteq> 0" and g: "bget_find dev blockno s = Inr (b, t)"
  shows "lru (bufs t) l \<and> once (bufs t) \<and> b < NBUF \<and> cached dev blockno (bufs t) b"
proof (cases "find (cached dev blockno (bufs s)) l")
  case (Some c)
  then have c: "c \<in> set l" "cached dev blockno (bufs s) c" by (auto simp: find_Some_iff)
  have t: "b = c" "t = upd_buf c (\<lambda>x. x\<lparr>b_refcnt := b_refcnt x + 1\<rparr>) s"
    using g Some by (auto simp: bget_find_eq [OF l])
  have "lru (bufs t) l" using l unfolding t by (subst lru_cong [of _ "bufs s"]) simp_all
  moreover have "once (bufs t)" using u unfolding t by (subst once_cong [of _ "bufs s"]) simp_all
  moreover have "c < NBUF" using c(1) l by (auto simp: lru_def)
  ultimately show ?thesis using t c(2) by (simp add: cached_def)
next
  case None
  then obtain c where c: "find (unused (bufs s)) (rev l) = Some c"
    using g by (auto simp: bget_find_eq [OF l] split: option.splits)
  then have t: "b = c" "t = upd_buf c (\<lambda>x. x\<lparr>b_dev := dev, b_blockno := blockno, b_flags := 0, b_refcnt := 1\<rparr>) s"
    using g None by (auto simp: bget_find_eq [OF l])
  have s: "set l = {..<NBUF}" using l by (simp add: lru_def)
  have "c \<in> set (rev l)" using c by (auto simp: find_Some_iff simp del: set_rev)
  then have cN: "c < NBUF" using s by simp
  have n: "\<not> (b_dev (bufs s d) = dev \<and> b_blockno (bufs s d) = blockno)" if "d < NBUF" for d
    using None that s by (auto simp: find_None_iff cached_def)
  have "lru (bufs t) l" using l unfolding t by (subst lru_cong [of _ "bufs s"]) simp_all
  moreover have "once (bufs t)" using u n unfolding t once_def upd_buf_def by (simp add: fun_upd_def) metis
  ultimately show ?thesis using t cN by (simp add: cached_def)
qed

lemma bufs_upd_slock [simp]: "bufs (upd_slock l f s) = bufs s"
  by (simp add: upd_slock_def)

lemma bufs_binit_buf [simp]: "bufs (binit_buf b s) = push_buf b (bufs s)"
  by (simp add: binit_buf_def push_buf_def Let_def upd_buf_def initsleeplock_def initlock_def)

lemma push_buf_simps [simp]:
  "b_dev (push_buf b B c) = b_dev (B c)" "b_blockno (push_buf b B c) = b_blockno (B c)"
  "b_refcnt (push_buf b B c) = b_refcnt (B c)" "b_flags (push_buf b B c) = b_flags (B c)"
  by (simp_all add: push_buf_def Let_def)

lemma brelse_ref_lru:
  assumes "lru (bufs s) l" and "once (bufs s)" and b: "b < NBUF"
  shows "lru (bufs (brelse_ref b s)) (if b_refcnt (bufs s b) = 1 then b # remove1 b l else l)" "once (bufs (brelse_ref b s))"
proof -
  let ?B = "(bufs s)(b := (bufs s b)\<lparr>b_refcnt := b_refcnt (bufs s b) - 1\<rparr>)"
  have l: "lru ?B l" using assms(1) by (subst lru_cong [of _ "bufs s"]) simp_all
  have r: "bufs (brelse_ref b s) = (if b_refcnt (bufs s b) = 1 then push_buf b (unlink_buf b ?B) else ?B)"
    by (simp add: brelse_ref_def Let_def upd_buf_def)
  show "lru (bufs (brelse_ref b s)) (if b_refcnt (bufs s b) = 1 then b # remove1 b l else l)"
    using move_to_front [OF l b] l unfolding r by (simp only: if_True if_False split: if_split) blast
  have "b_dev (unlink_buf b ?B c) = b_dev (bufs s c) \<and> b_blockno (unlink_buf b ?B c) = b_blockno (bufs s c)" for c
    by (simp add: unlink_buf_def Let_def)
  then show "once (bufs (brelse_ref b s))"
    using assms(2) unfolding r by (subst once_cong [of _ "bufs s"]) auto
qed

lemma binit_chain:
  "chain (bufs s) NBUF [] NBUF \<Longrightarrow> n \<le> NBUF \<Longrightarrow> chain (bufs (fold binit_buf [0..<n] s)) NBUF (rev [0..<n]) NBUF"
proof (induction n)
  case (Suc n)
  then have "chain (push_buf n (bufs (fold binit_buf [0..<n] s))) NBUF (n # rev [0..<n]) NBUF"
    by (intro push_chain) simp_all
  then show ?case by simp
qed simp

lemma binit_lru: "lru (bufs (binit s)) (rev [0..<NBUF])"
proof -
  have "chain (bufs (binit s)) NBUF (rev [0..<NBUF]) NBUF"
    unfolding binit_def Let_def by (rule binit_chain) simp_all
  then show ?thesis by (auto simp: lru_def)
qed

lemma binit_keeps [simp]:
  "b_dev (bufs (binit s) b) = b_dev (bufs s b)" "b_refcnt (bufs (binit s) b) = b_refcnt (bufs s b)"
  "b_flags (bufs (binit s) b) = b_flags (bufs s b)"
proof -
  have "b_dev (bufs (fold binit_buf bs t) b) = b_dev (bufs t b)" "b_refcnt (bufs (fold binit_buf bs t) b) = b_refcnt (bufs t b)"
    "b_flags (bufs (fold binit_buf bs t) b) = b_flags (bufs t b)" for bs and t :: "'a bcache_scheme"
    by (induction bs arbitrary: t) simp_all
  then show "b_dev (bufs (binit s) b) = b_dev (bufs s b)" "b_refcnt (bufs (binit s) b) = b_refcnt (bufs s b)"
    "b_flags (bufs (binit s) b) = b_flags (bufs s b)"
    by (simp_all add: binit_def Let_def initlock_def upd_buf_def)
qed

text \<open>
  C11: the block cache. From \<open>binit\<close> on, whatever blocks are looked up and released, the links of the
  buffers form a list of all the buffers in the order of their last release, most recent first, and no
  block is cached in two buffers.
\<close>

theorem cache_coherent:
  "cache_hist s l \<Longrightarrow> lru (bufs s) l \<and> once (bufs s)"
proof (induction rule: cache_hist.induct)
  case (start s)
  then have "once (bufs (binit s))" by (simp add: once_def)
  then show ?case using binit_lru by blast
next
  case (get s l dev blockno b t)
  then show ?case using bget_find_keeps by blast
next
  case (rel s l b)
  then show ?case using brelse_ref_lru by blast
next
  case (other s l t)
  then show ?case using lru_cong [of "bufs t" "bufs s" l] once_cong [of "bufs t" "bufs s"] by simp
qed

text \<open>
  C40: \<open>bget\<close> returns the buffer of the block when the block is cached; otherwise it recycles the least
  recently used buffer that nobody references and that is clean, and panics if there is none.
\<close>

theorem bget_least_recent:
  assumes "lru (bufs s) l" and "once (bufs s)" and "dev \<noteq> 0"
  shows "if \<exists>b<NBUF. cached dev blockno (bufs s) b
    then \<exists>b<NBUF. cached dev blockno (bufs s) b \<and>
      bget_find dev blockno s = Inr (b, upd_buf b (\<lambda>x. x\<lparr>b_refcnt := b_refcnt x + 1\<rparr>) s)
    else if \<exists>b<NBUF. unused (bufs s) b
    then \<exists>u b v. l = u @ b # v \<and> unused (bufs s) b \<and> (\<forall>c\<in>set v. \<not> unused (bufs s) c) \<and>
      bget_find dev blockno s = Inr (b, upd_buf b (\<lambda>x. x\<lparr>b_dev := dev, b_blockno := blockno, b_flags := 0, b_refcnt := 1\<rparr>) s)
    else bget_find dev blockno s = Inl (Panic ''bget: no buffers'')"
proof -
  have s: "set l = {..<NBUF}" using assms(1) by (simp add: lru_def)
  note e = bget_find_eq [OF assms(1), of dev blockno]
  show ?thesis
  proof (cases "find (cached dev blockno (bufs s)) l")
    case (Some b)
    then have b: "b < NBUF" "cached dev blockno (bufs s) b" using s by (auto simp: find_Some_iff)
    then have "\<exists>b<NBUF. cached dev blockno (bufs s) b" by blast
    moreover have "bget_find dev blockno s = Inr (b, upd_buf b (\<lambda>x. x\<lparr>b_refcnt := b_refcnt x + 1\<rparr>) s)"
      unfolding e Some by (simp only: option.case)
    ultimately show ?thesis using b by (simp only: if_True) blast
  next
    case c: None
    then have n: "\<not> (\<exists>b<NBUF. cached dev blockno (bufs s) b)" using s by (auto simp: find_None_iff)
    show ?thesis
    proof (cases "find (unused (bufs s)) (rev l)")
      case (Some b)
      then have "b \<in> set (rev l)" "unused (bufs s) b" by (auto simp: find_Some_iff simp del: set_rev)
      then have "\<exists>b<NBUF. unused (bufs s) b" using s by auto
      moreover have "bget_find dev blockno s = Inr (b, upd_buf b (\<lambda>x. x\<lparr>b_dev := dev, b_blockno := blockno, b_flags := 0, b_refcnt := 1\<rparr>) s)"
        unfolding e c Some by (simp only: option.case)
      ultimately show ?thesis using n find_last [OF Some] by (simp only: if_True if_False) blast
    next
      case None
      then have "\<not> (\<exists>b<NBUF. unused (bufs s) b)" using s by (auto simp: find_None_iff)
      with n show ?thesis unfolding e c None by (simp only: if_False option.case)
    qed
  qed
qed

lemma boot_cache: "cache_hist (binit boot_bcache) (rev [0..<NBUF])"
  by (rule cache_hist.start) (simp add: boot_bcache_def ftable.defs)

theorem cache_coherent_witness: "lru (bufs (binit boot_bcache)) (rev [0..<NBUF]) \<and> once (bufs (binit boot_bcache))"
  by (rule cache_coherent [OF boot_cache])

theorem bget_least_recent_witness:
  "bget_find 1 5 (binit boot_bcache) =
     Inr (0, upd_buf 0 (\<lambda>x. x\<lparr>b_dev := 1, b_blockno := 5, b_flags := 0, b_refcnt := 1\<rparr>) (binit boot_bcache))"
proof -
  let ?s = "binit boot_bcache"
  have u: "unused (bufs ?s) b" for b by (simp add: unused_def boot_bcache_def ftable.defs)
  have d: "b_dev (bufs ?s b) = 0" for b by (simp add: boot_bcache_def ftable.defs)
  then have "\<not> cached 1 5 (bufs ?s) b" "once (bufs ?s)" for b by (simp_all add: cached_def once_def)
  moreover have "\<exists>b<NBUF. unused (bufs ?s) b" using u by (intro exI [of _ 0]) simp
  ultimately have "\<exists>us b v. rev [0..<NBUF] = us @ b # v \<and> unused (bufs ?s) b \<and> (\<forall>c\<in>set v. \<not> unused (bufs ?s) c) \<and>
      bget_find 1 5 ?s = Inr (b, upd_buf b (\<lambda>x. x\<lparr>b_dev := 1, b_blockno := 5, b_flags := 0, b_refcnt := 1\<rparr>) ?s)"
    using bget_least_recent [OF binit_lru, of boot_bcache 1 5] by (simp only: if_True if_False) simp
  then obtain us b v where "rev [0..<NBUF] = us @ b # v" "\<forall>c\<in>set v. \<not> unused (bufs ?s) c"
      "bget_find 1 5 ?s = Inr (b, upd_buf b (\<lambda>x. x\<lparr>b_dev := 1, b_blockno := 5, b_flags := 0, b_refcnt := 1\<rparr>) ?s)"
    by blast
  moreover from this have "v = []" using u by (cases v) auto
  ultimately have "b = last (rev [0..<NBUF])" by simp
  then have "b = 0" by (simp add: last_rev)
  with \<open>bget_find 1 5 ?s = Inr (b, _)\<close> show ?thesis by simp
qed

end
