(* ===== verification/Log.thy ===== *)
theory Log
  imports Bio
begin

text \<open>
  The write-ahead log, \<open>log.c\<close>, with the super block of \<open>fs.c\<close> that says where it is. The
  in-memory header \<open>log.lh\<close> is a number of blocks and their home locations.
\<close>

section \<open>Words in blocks\<close>

definition rd16 :: "block \<Rightarrow> nat \<Rightarrow> ushort" where
  "rd16 d i = ucast (d i) OR push_bit 8 (ucast (d (i + 1)))"

definition wr16 :: "block \<Rightarrow> nat \<Rightarrow> ushort \<Rightarrow> block" where
  "wr16 d i w = d(i := ucast w, i + 1 := ucast (drop_bit 8 w))"

definition rd32 :: "block \<Rightarrow> nat \<Rightarrow> uint" where
  "rd32 d i = ucast (d i) OR push_bit 8 (ucast (d (i + 1))) OR push_bit 16 (ucast (d (i + 2))) OR
     push_bit 24 (ucast (d (i + 3)))"

definition wr32 :: "block \<Rightarrow> nat \<Rightarrow> uint \<Rightarrow> block" where
  "wr32 d i w = d(i := ucast w, i + 1 := ucast (drop_bit 8 w), i + 2 := ucast (drop_bit 16 w),
     i + 3 := ucast (drop_bit 24 w))"

section \<open>Data\<close>

record superblock =
  sb_size :: uint
  sb_nblocks :: uint
  sb_ninodes :: uint
  sb_nlog :: uint
  sb_logstart :: uint
  sb_inodestart :: uint
  sb_bmapstart :: uint

record log = bcache +
  lg_start :: uint
  lg_size :: int
  lg_outstanding :: int
  lg_committing :: bool
  lg_dev :: uint
  lh_n :: int
  lh_block :: "nat \<Rightarrow> uint"
  sb :: superblock

abbreviation (input) LOGSIZE :: int where "LOGSIZE \<equiv> 30"
abbreviation (input) MAXOPBLOCKS :: int where "MAXOPBLOCKS \<equiv> 10"

abbreviation data_of :: "nat \<Rightarrow> ('a bcache_scheme, block) thr" where
  "data_of b \<equiv> look (\<lambda>s. b_data (bufs s b))"

abbreviation set_data :: "nat \<Rightarrow> block \<Rightarrow> ('a bcache_scheme, unit) thr" where
  "set_data b d \<equiv> modify (upd_buf b (\<lambda>x. x\<lparr>b_data := d\<rparr>))"

section \<open>The code\<close>

definition sb_of :: "block \<Rightarrow> superblock" where
  "sb_of d = \<lparr>sb_size = rd32 d 0, sb_nblocks = rd32 d 4, sb_ninodes = rd32 d 8, sb_nlog = rd32 d 12,
     sb_logstart = rd32 d 16, sb_inodestart = rd32 d 20, sb_bmapstart = rd32 d 24\<rparr>"

definition readsb :: "uint \<Rightarrow> ('a bcache_scheme, superblock) thr" where
  "readsb dev =
     tbnd (bread dev 1) (\<lambda>bp.
     tbnd (data_of bp) (\<lambda>d.
     tseq (brelse bp) (ret (sb_of d))))"

definition install_block :: "nat \<Rightarrow> ('a log_scheme, unit) thr" where
  "install_block tail =
     tbnd (look (\<lambda>s. (lg_dev s, lg_start s, lh_block s tail))) (\<lambda>(dev, start, home).
     tbnd (bread dev (start + of_nat tail + 1)) (\<lambda>lbuf.
     tbnd (bread dev home) (\<lambda>dbuf.
     tbnd (data_of lbuf) (\<lambda>d.
     tseq (set_data dbuf d)
     (tseq (bwrite dbuf)
     (tseq (brelse lbuf)
     (brelse dbuf)))))))"

definition install_trans :: "('a log_scheme, unit) thr" where
  "install_trans = tbnd (look lh_n) (\<lambda>n. tfold install_block [0..<nat n])"

text \<open>The header block: \<open>n\<close> and then the block numbers. A header with more than \<open>LOGSIZE\<close> entries
  would be copied past the end of \<open>log.lh\<close>.\<close>

definition header_in :: "block \<Rightarrow> (nat \<Rightarrow> uint) \<Rightarrow> nat \<Rightarrow> uint" where
  "header_in d old i = (if int i < sint (rd32 d 0) then rd32 d (4 + 4 * i) else old i)"

definition header_out :: "int \<Rightarrow> (nat \<Rightarrow> uint) \<Rightarrow> block \<Rightarrow> block" where
  "header_out n home d = fold (\<lambda>i d. wr32 d (4 + 4 * i) (home i)) [0..<nat n] (wr32 d 0 (of_int n))"

definition read_head :: "('a log_scheme, unit) thr" where
  "read_head =
     tbnd (look (\<lambda>s. (lg_dev s, lg_start s))) (\<lambda>(dev, start).
     tbnd (bread dev start) (\<lambda>b.
     tbnd (data_of b) (\<lambda>d.
     tseq (if sint (rd32 d 0) > LOGSIZE then fail (Undefined ''log header'')
           else modify (\<lambda>s. s\<lparr>lh_n := sint (rd32 d 0), lh_block := header_in d (lh_block s)\<rparr>))
     (brelse b))))"

definition write_head :: "('a log_scheme, unit) thr" where
  "write_head =
     tbnd (look (\<lambda>s. (lg_dev s, lg_start s))) (\<lambda>(dev, start).
     tbnd (bread dev start) (\<lambda>b.
     tbnd (look (\<lambda>s. header_out (lh_n s) (lh_block s) (b_data (bufs s b)))) (\<lambda>d.
     tseq (set_data b d)
     (tseq (bwrite b)
     (brelse b)))))"

definition recover_from_log :: "('a log_scheme, unit) thr" where
  "recover_from_log =
     tseq read_head
     (tseq install_trans
     (tseq (modify (\<lambda>s. s\<lparr>lh_n := 0\<rparr>))
     write_head))"

definition initlog :: "uint \<Rightarrow> ('a log_scheme, unit) thr" where
  "initlog dev =
     tseq (modify (initlock L_log ''log''))
     (tbnd (readsb dev) (\<lambda>x.
      tseq (modify (\<lambda>s. s\<lparr>lg_start := sb_logstart x, lg_size := sint (sb_nlog x), lg_dev := dev\<rparr>))
      recover_from_log))"

definition begin_wait :: "'a log_scheme \<Rightarrow> (unit option \<times> 'a log_scheme) res" where
  "begin_wait s =
     (if lg_committing s then Inr (None, s)
      else if lh_n s + (lg_outstanding s + 1) * MAXOPBLOCKS > LOGSIZE then Inr (None, s)
      else Inr (Some (), s\<lparr>lg_outstanding := lg_outstanding s + 1\<rparr>))"

definition begin_op :: "('a log_scheme, unit) thr" where
  "begin_op =
     tseq (act (acquire L_log))
     (tseq (sleep_loop begin_wait Ch_log L_log)
     (act (release L_log)))"

definition write_block :: "nat \<Rightarrow> ('a log_scheme, unit) thr" where
  "write_block tail =
     tbnd (look (\<lambda>s. (lg_dev s, lg_start s, lh_block s tail))) (\<lambda>(dev, start, home).
     tbnd (bread dev (start + of_nat tail + 1)) (\<lambda>to.
     tbnd (bread dev home) (\<lambda>from.
     tbnd (data_of from) (\<lambda>d.
     tseq (set_data to d)
     (tseq (bwrite to)
     (tseq (brelse from)
     (brelse to)))))))"

definition write_log :: "('a log_scheme, unit) thr" where
  "write_log = tbnd (look lh_n) (\<lambda>n. tfold write_block [0..<nat n])"

definition commit :: "('a log_scheme, unit) thr" where
  "commit =
     tbnd (look lh_n) (\<lambda>n.
     if n > 0
     then tseq write_log
          (tseq write_head
          (tseq install_trans
          (tseq (modify (\<lambda>s. s\<lparr>lh_n := 0\<rparr>))
          write_head)))
     else ret ())"

text \<open>The first critical section of \<open>end_op\<close>; its result is \<open>do_commit\<close>.\<close>

definition end_op_count :: "'a log_scheme \<Rightarrow> (bool \<times> 'a log_scheme) res" where
  "end_op_count s =
     (let s = s\<lparr>lg_outstanding := lg_outstanding s - 1\<rparr>
      in bnd (panic_if (lg_committing s) ''log.committing'') (\<lambda>_.
         if lg_outstanding s = 0 then Inr (True, s\<lparr>lg_committing := True\<rparr>)
         else bnd (wakeup Ch_log s) (\<lambda>s. Inr (False, s))))"

definition end_op :: "('a log_scheme, unit) thr" where
  "end_op =
     tseq (act (acquire L_log))
     (tbnd (ask end_op_count) (\<lambda>do_commit.
      tseq (act (release L_log))
     (if do_commit
      then tseq commit
           (tseq (act (acquire L_log))
           (tseq (modify (\<lambda>s. s\<lparr>lg_committing := False\<rparr>))
           (tseq (act (wakeup Ch_log))
           (act (release L_log)))))
      else ret ())))"

text \<open>\<open>log_write\<close>: a block that is in the transaction already keeps its slot.\<close>

definition log_slot :: "uint \<Rightarrow> 'a log_scheme \<Rightarrow> nat" where
  "log_slot bno s = (case find (\<lambda>i. lh_block s i = bno) [0..<nat (lh_n s)] of Some i \<Rightarrow> i | None \<Rightarrow> nat (lh_n s))"

definition log_add :: "nat \<Rightarrow> 'a log_scheme \<Rightarrow> 'a log_scheme" where
  "log_add b s =
     (let bno = b_blockno (bufs s b); i = log_slot bno s;
          n = (if i = nat (lh_n s) then lh_n s + 1 else lh_n s);
          s = s\<lparr>lh_block := (lh_block s)(i := bno), lh_n := n\<rparr>
      in upd_buf b (\<lambda>x. x\<lparr>b_flags := b_flags x OR B_DIRTY\<rparr>) s)"

definition log_write :: "nat \<Rightarrow> 'a log_scheme \<Rightarrow> 'a log_scheme res" where
  "log_write b s =
     bnd (panic_if (lh_n s \<ge> LOGSIZE \<or> lh_n s \<ge> lg_size s - 1) ''too big a transaction'') (\<lambda>_.
     bnd (panic_if (lg_outstanding s < 1) ''log_write outside of trans'') (\<lambda>_.
     bnd (acquire L_log s) (\<lambda>s.
     release L_log (log_add b s))))"

section \<open>A concrete state\<close>

text \<open>The log of a fresh file system, between transactions.\<close>

definition boot_log :: log where
  "boot_log = bcache.extend boot_bcache
     \<lparr>lg_start = 2, lg_size = 30, lg_outstanding = 0, lg_committing = False, lg_dev = 1, lh_n = 0,
      lh_block = (\<lambda>_. 0),
      sb = \<lparr>sb_size = 1000, sb_nblocks = 941, sb_ninodes = 200, sb_nlog = 30, sb_logstart = 2,
        sb_inodestart = 32, sb_bmapstart = 58\<rparr>\<rparr>"

lemma boot_log_simps [simp]:
  "procs boot_log = procs boot_bcache" "ticks boot_log = 0" "mem boot_log = (\<lambda>_. 0)"
  "cpus boot_log = cpus boot_bcache" "locks boot_log = boot_locks" "ncpu boot_log = 2"
  "this_cpu boot_log = 0" "lapic_id boot_log = of_nat" "\<not> panicked boot_log" "cons_locking boot_log"
  "con boot_log = boot_con" "slocks boot_log = slocks boot_bcache" "bufs boot_log = bufs boot_bcache"
  "lh_n boot_log = 0" "lg_outstanding boot_log = 0" "lg_size boot_log = 30" "\<not> lg_committing boot_log"
  by (simp_all add: boot_log_def bcache.defs)

lemma inside_boot_log: "inside 0 {} boot_log"
  using inside_boot_bcache by (simp add: inside_def con_ok_def cpu_ok_def cpus_wf_def)

section \<open>Words in blocks are read back\<close>

lemma rd32_wr32 [simp]: "rd32 (wr32 d i w) i = w"
  using load32_store32 [of "\<lambda>_. 0" 0 w] by (simp add: load32_def store32_def rd32_def wr32_def)

lemma rd32_wr32_other: "j + 4 \<le> i \<or> i + 4 \<le> j \<Longrightarrow> rd32 (wr32 d i w) j = rd32 d j"
  unfolding rd32_def wr32_def by auto

lemma rd16_wr16 [simp]: "rd16 (wr16 d i w) i = w"
  unfolding rd16_def wr16_def
  by (rule bit_word_eqI)
    (auto simp: bit_or_iff bit_push_bit_iff bit_drop_bit_eq bit_ucast_iff less_diff_conv not_less le_diff_conv2)

lemma rd16_wr16_other: "j + 2 \<le> i \<or> i + 2 \<le> j \<Longrightarrow> rd16 (wr16 d i w) j = rd16 d j"
  unfolding rd16_def wr16_def by auto

lemma sint_of_small: "- (2 ^ 31) \<le> n \<Longrightarrow> n < 2 ^ 31 \<Longrightarrow> sint (of_int n :: uint) = n"
  by (simp add: signed_of_int signed_take_bit_int_eq_self)

text \<open>An array of words that starts at byte \<open>a\<close>.\<close>

lemma wr32_fold_outside:
  "b < a \<or> a + 4 * n \<le> b \<Longrightarrow> fold (\<lambda>i d. wr32 d (a + 4 * i) (f i)) [0..<n] d b = d b"
  by (induction n) (auto simp: wr32_def)

lemma wr32_fold_nth:
  "i < n \<Longrightarrow> rd32 (fold (\<lambda>i d. wr32 d (a + 4 * i) (f i)) [0..<n] d) (a + 4 * i) = f i"
proof (induction n)
  case (Suc n)
  show ?case
  proof (cases "i = n")
    case False
    then have "a + 4 * i + 4 \<le> a + 4 * n" using Suc.prems by simp
    with False Suc show ?thesis by (simp add: rd32_wr32_other)
  qed simp
qed simp

text \<open>
  C29: the log header survives the disk. The block that \<open>write_head\<close> fills in for a header of at most
  \<open>LOGSIZE\<close> entries gives \<open>read_head\<close> the same number of blocks and the same home locations,
  whatever the block held before; so recovery installs the blocks that were committed.
\<close>

theorem log_header_roundtrip:
  assumes "0 \<le> n" and "n \<le> LOGSIZE"
  shows "sint (rd32 (header_out n home d) 0) = n \<and>
    (\<forall>i. header_in (header_out n home d) old i = (if int i < n then home i else old i))"
proof -
  have n: "sint (rd32 (header_out n home d) 0) = n"
    using assms wr32_fold_outside [of _ 4 "nat n" home "wr32 d 0 (of_int n)"] rd32_wr32 [of d 0 "of_int n"]
    by (simp add: header_out_def rd32_def sint_of_small)
  have "rd32 (header_out n home d) (4 + 4 * i) = home i" if "int i < n" for i
    using that wr32_fold_nth [of i "nat n" 4 home] by (simp add: header_out_def zless_nat_eq_int_zless)
  then show ?thesis by (simp add: header_in_def n)
qed

theorem log_header_roundtrip_witness:
  "sint (rd32 (header_out 3 (\<lambda>i. of_nat (100 + i)) (\<lambda>_. 7)) 0) = 3 \<and>
   header_in (header_out 3 (\<lambda>i. of_nat (100 + i)) (\<lambda>_. 7)) (\<lambda>_. 0) 2 = 102"
  using log_header_roundtrip [of 3 "\<lambda>i. of_nat (100 + i)" "\<lambda>_. 7" "\<lambda>_. 0"] by simp

section \<open>Room in the log\<close>

text \<open>
  The steps on the log under its lock. \<open>U\<close> lists, for the system calls in progress, how many blocks
  each has added to the transaction; the promise of a system call is that it adds at most
  \<open>MAXOPBLOCKS\<close>.
\<close>

definition same_log :: "'a log_scheme \<Rightarrow> 'a log_scheme \<Rightarrow> bool" where
  "same_log s t \<longleftrightarrow> lh_n t = lh_n s \<and> lh_block t = lh_block s \<and> lg_outstanding t = lg_outstanding s \<and>
     lg_committing t = lg_committing s \<and> lg_size t = lg_size s"

definition fresh_block :: "nat \<Rightarrow> 'a log_scheme \<Rightarrow> bool" where
  "fresh_block b s \<longleftrightarrow> log_slot (b_blockno (bufs s b)) s = nat (lh_n s)"

inductive log_hist :: "'a log_scheme \<Rightarrow> nat list \<Rightarrow> bool" where
  start: "lh_n s = 0 \<Longrightarrow> lg_outstanding s = 0 \<Longrightarrow> \<not> lg_committing s \<Longrightarrow> log_hist s []"
| op_begin: "log_hist s U \<Longrightarrow> begin_wait s = Inr (Some (), t) \<Longrightarrow> log_hist t (0 # U)"
| op_write: "log_hist s U \<Longrightarrow> k < length U \<Longrightarrow> U ! k < nat MAXOPBLOCKS \<Longrightarrow> log_write b s = Inr t \<Longrightarrow>
    log_hist t (U[k := U ! k + (if fresh_block b s then 1 else 0)])"
| op_end: "log_hist s U \<Longrightarrow> k < length U \<Longrightarrow> end_op_count s = Inr (c, t) \<Longrightarrow> log_hist t (take k U @ drop (Suc k) U)"
| clear: "log_hist s U \<Longrightarrow> lg_committing s \<Longrightarrow> log_hist (s\<lparr>lh_n := 0\<rparr>) U"
| committed: "log_hist s U \<Longrightarrow> lg_committing s \<Longrightarrow> lh_n s = 0 \<Longrightarrow> log_hist (s\<lparr>lg_committing := False\<rparr>) U"
| other: "log_hist s U \<Longrightarrow> same_log s t \<Longrightarrow> log_hist t U"

definition room :: "nat list \<Rightarrow> int" where
  "room U = (\<Sum>u\<leftarrow>U. MAXOPBLOCKS - int u)"

definition log_inv :: "'a log_scheme \<Rightarrow> nat list \<Rightarrow> bool" where
  "log_inv s U \<longleftrightarrow> lg_outstanding s = int (length U) \<and> 0 \<le> lh_n s \<and> lh_n s + room U \<le> LOGSIZE \<and>
     (\<forall>u\<in>set U. int u \<le> MAXOPBLOCKS) \<and> (lg_committing s \<longrightarrow> U = []) \<and>
     distinct (map (lh_block s) [0..<nat (lh_n s)])"

lemma room_simps [simp]: "room [] = 0" "room (u # U) = MAXOPBLOCKS - int u + room U" "room (U @ V) = room U + room V"
  by (simp_all add: room_def)

lemma room_bounds: "\<forall>u\<in>set U. int u \<le> MAXOPBLOCKS \<Longrightarrow> 0 \<le> room U \<and> room U \<le> MAXOPBLOCKS * int (length U)"
  by (induction U) auto

lemma room_split: "k < length U \<Longrightarrow> room U = room (take k U) + (MAXOPBLOCKS - int (U ! k)) + room (drop (Suc k) U)"
  by (subst id_take_nth_drop [of k U]) simp_all

lemma room_update: "k < length U \<Longrightarrow> room (U[k := v]) = room U + int (U ! k) - int v"
  by (simp add: room_split [of k U] upd_conv_take_nth_drop)

lemma same_log_inv: "same_log s t \<Longrightarrow> log_inv s U \<Longrightarrow> log_inv t U"
  by (simp add: same_log_def log_inv_def)

lemma log_slot_le: "0 \<le> lh_n s \<Longrightarrow> log_slot bno s \<le> nat (lh_n s)"
  by (auto simp: log_slot_def find_upt_Some_iff split: option.splits)

lemma log_slot_old:
  assumes "log_slot bno s < nat (lh_n s)"
  shows "lh_block s (log_slot bno s) = bno"
proof (cases "find (\<lambda>i. lh_block s i = bno) [0..<nat (lh_n s)]")
  case None
  with assms show ?thesis by (simp add: log_slot_def)
next
  case (Some i)
  then have "lh_block s i = bno" by (simp add: find_upt_Some_iff)
  with Some show ?thesis by (simp add: log_slot_def)
qed

lemma log_slot_new:
  assumes "log_slot bno s = nat (lh_n s)"
  shows "bno \<notin> set (map (lh_block s) [0..<nat (lh_n s)])"
proof (cases "find (\<lambda>i. lh_block s i = bno) [0..<nat (lh_n s)]")
  case None
  then show ?thesis by (auto simp: find_None_iff)
next
  case (Some i)
  with assms show ?thesis by (auto simp: log_slot_def find_upt_Some_iff)
qed

lemma log_slot_cong: "lh_n t = lh_n s \<Longrightarrow> lh_block t = lh_block s \<Longrightarrow> log_slot bno t = log_slot bno s"
  unfolding log_slot_def by metis

text \<open>What \<open>log_write\<close> does to the header.\<close>

lemma log_add_log:
  assumes "0 \<le> lh_n s"
  shows "lh_n (log_add b s) = lh_n s + (if fresh_block b s then 1 else 0)"
    "lh_block (log_add b s) = (if fresh_block b s then (lh_block s)(nat (lh_n s) := b_blockno (bufs s b)) else lh_block s)"
    "lg_outstanding (log_add b s) = lg_outstanding s" "lg_committing (log_add b s) = lg_committing s"
    "lg_size (log_add b s) = lg_size s"
  using log_slot_le [OF assms, of "b_blockno (bufs s b)"] log_slot_old [of "b_blockno (bufs s b)" s]
  by (auto simp: log_add_def Let_def upd_buf_def fresh_block_def)

lemma log_write_log:
  assumes "log_write b s = Inr t"
  shows "lh_n s < LOGSIZE \<and> lg_outstanding s \<ge> 1 \<and> same_log (log_add b s) t"
proof -
  obtain u where u: "lh_n s < LOGSIZE" "lg_outstanding s \<ge> 1" "acquire L_log s = Inr u" "release L_log (log_add b u) = Inr t"
    using assms by (auto simp: log_write_def res_iff)
  have "u = s\<lparr>cpus := cpus u, locks := locks u\<rparr>" using acquire_frame [OF u(3)] .
  then obtain c l where "u = s\<lparr>cpus := c, locks := l\<rparr>" by blast
  then have "same_log (log_add b s) (log_add b u)"
    by (simp add: same_log_def log_add_def Let_def upd_buf_def log_slot_cong [of "s\<lparr>cpus := c, locks := l\<rparr>" s])
  moreover obtain c l where "t = (log_add b u)\<lparr>cpus := c, locks := l\<rparr>" using release_frame [OF u(4)] by blast
  ultimately show ?thesis using u by (simp add: same_log_def)
qed

lemma wakeup_log:
  assumes "wakeup ch s = Inr t"
  shows "same_log s t"
proof -
  obtain u where u: "acquire L_ptable s = Inr u" "release L_ptable (wakeup1 (Some ch) u) = Inr t"
    using assms by (auto simp: wakeup_def res_iff)
  obtain c l where "u = s\<lparr>cpus := c, locks := l\<rparr>" using acquire_frame [OF u(1)] by blast
  moreover obtain c l where "t = (wakeup1 (Some ch) u)\<lparr>cpus := c, locks := l\<rparr>" using release_frame [OF u(2)] by blast
  ultimately show ?thesis by (simp add: same_log_def wakeup1_eq)
qed

lemma end_op_count_log:
  assumes "end_op_count s = Inr (c, t)"
  shows "\<not> lg_committing s \<and> same_log (s\<lparr>lg_outstanding := lg_outstanding s - 1, lg_committing := lg_outstanding s = 1\<rparr>) t"
proof (cases "lg_outstanding s = 1")
  case True
  with assms show ?thesis by (auto simp: end_op_count_def Let_def res_iff same_log_def)
next
  case False
  then obtain u where "\<not> lg_committing s" "wakeup Ch_log (s\<lparr>lg_outstanding := lg_outstanding s - 1\<rparr>) = Inr u" "t = u"
    using assms by (auto simp: end_op_count_def Let_def res_iff)
  with False wakeup_log [of Ch_log "s\<lparr>lg_outstanding := lg_outstanding s - 1\<rparr>"] show ?thesis
    by (auto simp: same_log_def)
qed

lemma log_write_inv:
  assumes i: "log_inv s U" and k: "k < length U" "U ! k < nat MAXOPBLOCKS" and w: "log_write b s = Inr t"
  shows "log_inv t (U[k := U ! k + (if fresh_block b s then 1 else 0)])"
proof (rule same_log_inv)
  note i = i [unfolded log_inv_def]
  have n: "0 \<le> lh_n s" using i by simp
  show "same_log (log_add b s) t" using log_write_log [OF w] by blast
  let ?U = "U[k := U ! k + (if fresh_block b s then 1 else 0)]"
  have "distinct (map (lh_block (log_add b s)) [0..<nat (lh_n (log_add b s))])"
  proof (cases "fresh_block b s")
    case True
    then have "b_blockno (bufs s b) \<notin> set (map (lh_block s) [0..<nat (lh_n s)])"
      by (intro log_slot_new) (simp add: fresh_block_def)
    with True i n show ?thesis by (simp add: log_add_log nat_add_distrib)
  next
    case False
    with i n show ?thesis by (simp add: log_add_log)
  qed
  moreover have "\<forall>u\<in>set ?U. int u \<le> MAXOPBLOCKS" using i k by (auto dest!: set_update_subset_insert [THEN subsetD])
  moreover have "lh_n (log_add b s) + room ?U \<le> LOGSIZE" using i n k by (simp add: log_add_log room_update)
  ultimately show "log_inv (log_add b s) ?U" using i n k by (auto simp: log_inv_def log_add_log)
qed

lemma log_end_inv:
  assumes i: "log_inv s U" and k: "k < length U" and e: "end_op_count s = Inr (c, t)"
  shows "log_inv t (take k U @ drop (Suc k) U)"
proof (rule same_log_inv)
  note i = i [unfolded log_inv_def]
  let ?s = "s\<lparr>lg_outstanding := lg_outstanding s - 1, lg_committing := lg_outstanding s = 1\<rparr>"
  show "same_log ?s t" using end_op_count_log [OF e] by blast
  have "int (U ! k) \<le> MAXOPBLOCKS" using i k by simp
  then have "lh_n s + room (take k U @ drop (Suc k) U) \<le> LOGSIZE" using i room_split [OF k] by simp
  moreover have "\<forall>u\<in>set (take k U @ drop (Suc k) U). int u \<le> MAXOPBLOCKS"
    using i by (auto dest: in_set_takeD in_set_dropD)
  ultimately show "log_inv ?s (take k U @ drop (Suc k) U)" using i k by (auto simp: log_inv_def)
qed

lemma log_hist_inv: "log_hist s U \<Longrightarrow> log_inv s U"
proof (induction rule: log_hist.induct)
  case (start s)
  then show ?case by (simp add: log_inv_def)
next
  case (op_begin s U t)
  then have "\<not> lg_committing s" "lh_n s + (lg_outstanding s + 1) * MAXOPBLOCKS \<le> LOGSIZE"
    "t = s\<lparr>lg_outstanding := lg_outstanding s + 1\<rparr>"
    by (auto simp: begin_wait_def split: if_splits)
  with op_begin.IH room_bounds [of U] show ?case by (auto simp: log_inv_def)
next
  case (clear s U)
  then show ?case by (auto simp: log_inv_def)
next
  case (committed s U)
  then show ?case by (auto simp: log_inv_def)
qed (blast intro: log_write_inv log_end_inv same_log_inv)+

lemma log_write_inside:
  assumes "inside p H s" and "L_log \<notin> H"
  shows "log_write b s =
    (if lh_n s \<ge> LOGSIZE \<or> lh_n s \<ge> lg_size s - 1 then Inl (Panic ''too big a transaction'')
     else if lg_outstanding s < 1 then Inl (Panic ''log_write outside of trans'')
     else Inr (log_add b (synced s)))"
proof -
  have "bnd (acquire L_log s) (\<lambda>s. release L_log (log_add b s)) = Inr (log_add b (synced s))"
    using assms
    by (rule crit_section)
      (simp_all add: log_add_def Let_def upd_buf_def log_slot_cong [of "s\<lparr>cpus := _, locks := _\<rparr>" s])
  then show ?thesis by (simp add: log_write_def panic_if_def)
qed

text \<open>
  C6: the reservations of \<open>begin_op\<close> keep the log from overflowing. As long as no system call adds more
  than \<open>MAXOPBLOCKS\<close> blocks, a log of more than \<open>LOGSIZE\<close> blocks, header included, never makes
  \<open>log_write\<close> panic, however calls begin, write and end; the header never holds more than \<open>LOGSIZE\<close>
  blocks, no block twice, and \<open>end_op\<close> never finds a commit in progress.
\<close>

theorem log_never_overflows:
  assumes "log_hist s U"
  shows "0 \<le> lh_n s \<and> lh_n s \<le> LOGSIZE \<and> distinct (map (lh_block s) [0..<nat (lh_n s)]) \<and>
    (U \<noteq> [] \<longrightarrow> \<not> lg_committing s) \<and>
    (\<forall>p H k b. inside p H s \<and> L_log \<notin> H \<and> k < length U \<and> U ! k < nat MAXOPBLOCKS \<and> LOGSIZE < lg_size s \<longrightarrow>
       log_write b s = Inr (log_add b (synced s)))"
proof -
  note i = log_hist_inv [OF assms, unfolded log_inv_def]
  then have "0 \<le> room U" using room_bounds by blast
  moreover have "lh_n s < LOGSIZE" "1 \<le> lg_outstanding s" if k: "k < length U" "U ! k < nat MAXOPBLOCKS" for k
  proof -
    have "0 \<le> room (take k U)" "0 \<le> room (drop (Suc k) U)"
      using i room_bounds by (blast dest: in_set_takeD in_set_dropD)+
    then show "lh_n s < LOGSIZE" using i room_split [OF k(1)] k(2) by linarith
    show "1 \<le> lg_outstanding s" using i k(1) by linarith
  qed
  moreover from calculation have "log_write b s = Inr (log_add b (synced s))"
    if "inside p H s" "L_log \<notin> H" "k < length U" "U ! k < nat MAXOPBLOCKS" "LOGSIZE < lg_size s" for p H k b
    using that by (simp add: log_write_inside [OF that(1,2)]) force
  ultimately show ?thesis using i by force
qed

lemma inside_log_fields:
  "inside p H (s\<lparr>lg_size := z\<rparr>) = inside p H s" "inside p H (s\<lparr>lg_outstanding := k\<rparr>) = inside p H s"
  "inside p H (log_add b s) = inside p H s"
  "inside p H (upd_buf b f s) = inside p H s"
  by (rule inside_cong; simp add: log_add_def Let_def upd_buf_def)+

theorem log_never_overflows_witness:
  "let s = boot_log\<lparr>lg_size := 31, lg_outstanding := 1\<rparr> in log_write 4 s = Inr (log_add 4 (synced s))"
proof -
  let ?s = "boot_log\<lparr>lg_size := 31, lg_outstanding := 0\<rparr>" and ?t = "boot_log\<lparr>lg_size := 31, lg_outstanding := 1\<rparr>"
  have "log_hist ?s []" by (rule log_hist.start) simp_all
  then have "log_hist ?t [0]" by (rule log_hist.op_begin) (simp add: begin_wait_def)
  from log_never_overflows [OF this] have "log_write 4 ?t = Inr (log_add 4 (synced ?t))"
    using inside_boot_log unfolding inside_log_fields
    by (elim conjE allE [of _ 0] allE [of _ "{}"] allE [of _ 4]) simp
  then show ?thesis by (simp only: Let_def)
qed

text \<open>
  The log that \<open>mkfs\<close> makes has \<open>LOGSIZE\<close> blocks, one of them the header, so it is one block too
  short for three system calls that use their whole reservation.
\<close>

lemma log_fills:
  "n \<le> 29 \<Longrightarrow> \<exists>s :: log. log_hist s [min n 10, min (n - 10) 10, n - 20] \<and> inside 0 {} s \<and> lg_size s = 30 \<and>
     lh_n s = int n \<and> lg_outstanding s = 3 \<and> (\<forall>i<n. lh_block s i = of_nat i)"
proof (induction n)
  case 0
  have "log_hist boot_log []" by (rule log_hist.start) simp_all
  then have "log_hist (boot_log\<lparr>lg_outstanding := 1\<rparr>) [0]"
    by (rule log_hist.op_begin) (simp add: begin_wait_def)
  then have "log_hist (boot_log\<lparr>lg_outstanding := 2\<rparr>) [0, 0]"
    by (rule log_hist.op_begin) (simp add: begin_wait_def)
  then have "log_hist (boot_log\<lparr>lg_outstanding := 3\<rparr>) [0, 0, 0]"
    by (rule log_hist.op_begin) (simp add: begin_wait_def)
  moreover have "inside 0 {} (boot_log\<lparr>lg_outstanding := 3\<rparr>)"
    using inside_boot_log by (simp only: inside_log_fields)
  ultimately show ?case by (intro exI [of _ "boot_log\<lparr>lg_outstanding := 3\<rparr>"]) simp
next
  case (Suc n)
  let ?U = "[min n 10, min (n - 10) 10, n - 20]"
  obtain s :: log where s: "log_hist s ?U" "inside 0 {} s" "lg_size s = 30" "lh_n s = int n" "lg_outstanding s = 3"
      "\<forall>i<n. lh_block s i = of_nat i"
    using Suc by auto
  let ?t = "upd_buf 0 (\<lambda>x. x\<lparr>b_blockno := of_nat n\<rparr>) s"
  let ?u = "log_add 0 (synced ?t)" and ?k = "if n < 10 then 0 else if n < 20 then 1 else 2 :: nat"
  have t: "log_hist ?t ?U" by (rule log_hist.other [OF s(1)]) (simp add: same_log_def upd_buf_def)
  have tin: "inside 0 {} ?t" using s(2) by (simp add: inside_log_fields)
  have w: "log_write 0 ?t = Inr ?u"
    using log_write_inside [OF tin, of 0] s Suc.prems by (simp add: upd_buf_def)
  have ne: "of_nat i \<noteq> (of_nat n :: uint)" if "i < n" for i
    using that Suc.prems by (simp add: word_unat_eq_iff unat_of_nat take_bit_nat_eq_self)
  have f: "fresh_block 0 v" if "lh_n v = int n" "lh_block v = lh_block s" "b_blockno (bufs v 0) = of_nat n" for v :: log
    using that s(6) ne by (auto simp: fresh_block_def log_slot_def find_upt_Some_iff split: option.splits)
  have v: "lh_n (synced ?t) = int n" "lh_block (synced ?t) = lh_block s" "b_blockno (bufs (synced ?t) 0) = of_nat n"
    "lg_size (synced ?t) = 30" "lg_outstanding (synced ?t) = 3"
    using s by (simp_all add: upd_buf_def upd_cpu_def)
  have "?U[?k := ?U ! ?k + (if fresh_block 0 ?t then 1 else 0)] = [min (Suc n) 10, min (Suc n - 10) 10, Suc n - 20]"
    using f [of ?t] s(4) Suc.prems by (auto simp: upd_buf_def min_def)
  moreover have "?k < length ?U" "?U ! ?k < nat MAXOPBLOCKS" using Suc.prems by auto
  ultimately have "log_hist ?u [min (Suc n) 10, min (Suc n - 10) 10, Suc n - 20]"
    using log_hist.op_write [OF t _ _ w, of ?k] by simp
  moreover have "inside 0 {} ?u"
    using s(2) synced_inside [OF tin] by (simp add: inside_log_fields)
  moreover have "lh_n ?u = int (Suc n)" "lg_size ?u = 30" "lg_outstanding ?u = 3"
    "\<forall>i<Suc n. lh_block ?u i = of_nat i"
    using f [OF v(1-3)] s(6) v by (simp_all add: log_add_log less_Suc_eq)
  ultimately show ?case by blast
qed

text \<open>
  C35: three concurrent system calls that keep their promise of at most \<open>MAXOPBLOCKS\<close> blocks each can
  make \<open>log_write\<close> panic on the file system that \<open>mkfs\<close> makes (\<open>nlog = LOGSIZE\<close>): \<open>begin_op\<close> admits
  \<open>LOGSIZE\<close> blocks, but \<open>log_write\<close> stops at \<open>log.size - 1\<close>.
\<close>

theorem log_reservation_off_by_one:
  "\<exists>(s :: log) U k. log_hist s U \<and> lg_size s = LOGSIZE \<and> k < length U \<and> U ! k < nat MAXOPBLOCKS \<and>
     inside 0 {} s \<and> log_write 0 s = Inl (Panic ''too big a transaction'')"
proof -
  obtain s :: log where s: "log_hist s [10, 10, 9]" "inside 0 {} s" "lg_size s = 30" "lh_n s = 29"
    using log_fills [of 29] by auto
  then have "log_write 0 s = Inl (Panic ''too big a transaction'')" by (simp add: log_write_inside [of 0 "{}"])
  with s show ?thesis by (intro exI [of _ s] exI [of _ "[10, 10, 9]"] exI [of _ 2]) simp
qed

end
