(* ===== verification/Inode.thy ===== *)
theory Inode
  imports Log
begin

text \<open>
  The lower half of \<open>fs.c\<close>: the block allocator and inodes. A \<open>struct inode *\<close> is an index into
  \<open>icache.inode\<close>. The \<open>short\<close> fields of an inode are 16-bit words.
\<close>

section \<open>Data\<close>

record inode =
  i_dev :: uint
  i_inum :: uint
  i_ref :: int
  i_valid :: bool
  i_type :: ushort
  i_major :: ushort
  i_minor :: ushort
  i_nlink :: ushort
  i_size :: uint
  i_addrs :: "nat \<Rightarrow> uint"

abbreviation (input) NINODE :: nat where "NINODE \<equiv> 50"
abbreviation (input) NDIRECT :: nat where "NDIRECT \<equiv> 12"
abbreviation (input) NINDIRECT :: nat where "NINDIRECT \<equiv> 128"
abbreviation (input) BSIZE :: uint where "BSIZE \<equiv> 512"
abbreviation (input) BPB :: uint where "BPB \<equiv> 4096"
abbreviation (input) IPB :: uint where "IPB \<equiv> 8"
abbreviation (input) T_DIR :: ushort where "T_DIR \<equiv> 1"
abbreviation (input) T_FILE :: ushort where "T_FILE \<equiv> 2"
abbreviation (input) T_DEV :: ushort where "T_DEV \<equiv> 3"

record icache = log +
  inodes :: "nat \<Rightarrow> inode"

definition upd_inode :: "nat \<Rightarrow> (inode \<Rightarrow> inode) \<Rightarrow> 'a icache_scheme \<Rightarrow> 'a icache_scheme" where
  "upd_inode i f s = s\<lparr>inodes := (inodes s)(i := f (inodes s i))\<rparr>"

abbreviation inode_of :: "nat \<Rightarrow> ('a icache_scheme, inode) thr" where
  "inode_of i \<equiv> look (\<lambda>s. inodes s i)"

abbreviation set_inode :: "nat \<Rightarrow> (inode \<Rightarrow> inode) \<Rightarrow> ('a icache_scheme, unit) thr" where
  "set_inode i f \<equiv> modify (upd_inode i f)"

definition IBLOCK :: "uint \<Rightarrow> superblock \<Rightarrow> uint" where
  "IBLOCK i x = i div IPB + sb_inodestart x"

definition BBLOCK :: "uint \<Rightarrow> superblock \<Rightarrow> uint" where
  "BBLOCK b x = b div BPB + sb_bmapstart x"

section \<open>The block allocator\<close>

definition bzero :: "uint \<Rightarrow> uint \<Rightarrow> ('a log_scheme, unit) thr" where
  "bzero dev bno =
     tbnd (bread dev bno) (\<lambda>bp.
     tseq (set_data bp (\<lambda>_. 0))
     (tseq (act (log_write bp))
     (brelse bp)))"

text \<open>Bit \<open>bi\<close> of a bitmap block.\<close>

definition bm_used :: "block \<Rightarrow> nat \<Rightarrow> bool" where
  "bm_used d bi \<longleftrightarrow> d (bi div 8) AND push_bit (bi mod 8) 1 \<noteq> 0"

definition bm_set :: "nat \<Rightarrow> block \<Rightarrow> block" where
  "bm_set bi d = d(bi div 8 := d (bi div 8) OR push_bit (bi mod 8) 1)"

definition bm_clear :: "nat \<Rightarrow> block \<Rightarrow> block" where
  "bm_clear bi d = d(bi div 8 := d (bi div 8) AND NOT (push_bit (bi mod 8) 1))"

text \<open>One round of the outer loop of \<open>balloc\<close>, for the bitmap block of block \<open>b\<close>.\<close>

definition balloc_at :: "uint \<Rightarrow> nat \<Rightarrow> ('a log_scheme, uint option) thr" where
  "balloc_at dev b =
     tbnd (look sb) (\<lambda>x.
     tbnd (bread dev (BBLOCK (of_nat b) x)) (\<lambda>bp.
     tbnd (data_of bp) (\<lambda>d.
     case find (\<lambda>bi. \<not> bm_used d bi) [0..<min 4096 (unat (sb_size x) - b)] of
       Some bi \<Rightarrow>
         tseq (set_data bp (bm_set bi d))
         (tseq (act (log_write bp))
         (tseq (brelse bp)
         (tseq (bzero dev (of_nat (b + bi)))
         (ret (Some (of_nat (b + bi)))))))
     | None \<Rightarrow> tseq (brelse bp) (ret None))))"

definition balloc :: "uint \<Rightarrow> ('a log_scheme, uint) thr" where
  "balloc dev =
     tbnd (look sb) (\<lambda>x.
     tbnd (tfind (balloc_at dev) (map (\<lambda>k. 4096 * k) [0..<(unat (sb_size x) + 4095) div 4096])) (\<lambda>r.
     case r of Some b \<Rightarrow> ret b | None \<Rightarrow> fail (Panic ''balloc: out of blocks'')))"

definition bfree :: "uint \<Rightarrow> uint \<Rightarrow> ('a log_scheme, unit) thr" where
  "bfree dev b =
     tbnd (look sb) (\<lambda>x.
     tbnd (bread dev (BBLOCK b x)) (\<lambda>bp.
     tbnd (data_of bp) (\<lambda>d.
     tseq (panic_when (\<not> bm_used d (unat (b mod BPB))) ''freeing free block'')
     (tseq (set_data bp (bm_clear (unat (b mod BPB)) d))
     (tseq (act (log_write bp))
     (brelse bp))))))"

section \<open>Inodes on disk\<close>

text \<open>\<open>struct dinode\<close> has 64 bytes: four shorts, the size and 13 block numbers.\<close>

definition dinode_in :: "block \<Rightarrow> nat \<Rightarrow> inode \<Rightarrow> inode" where
  "dinode_in d k x = x\<lparr>i_type := rd16 d (64 * k), i_major := rd16 d (64 * k + 2),
     i_minor := rd16 d (64 * k + 4), i_nlink := rd16 d (64 * k + 6), i_size := rd32 d (64 * k + 8),
     i_addrs := (\<lambda>j. if j < 13 then rd32 d (64 * k + 12 + 4 * j) else i_addrs x j)\<rparr>"

definition dinode_out :: "inode \<Rightarrow> nat \<Rightarrow> block \<Rightarrow> block" where
  "dinode_out x k d =
     (let d = wr16 d (64 * k) (i_type x); d = wr16 d (64 * k + 2) (i_major x);
          d = wr16 d (64 * k + 4) (i_minor x); d = wr16 d (64 * k + 6) (i_nlink x);
          d = wr32 d (64 * k + 8) (i_size x)
      in fold (\<lambda>j d. wr32 d (64 * k + 12 + 4 * j) (i_addrs x j)) [0..<13] d)"

section \<open>The inode cache\<close>

definition iinit :: "uint \<Rightarrow> ('a icache_scheme, unit) thr" where
  "iinit dev =
     tseq (modify (initlock L_icache ''icache''))
     (tseq (modify (fold (\<lambda>i. initsleeplock (SL_inode i) ''inode'') [0..<NINODE]))
     (tbnd (readsb dev) (\<lambda>x.
      tseq (modify (\<lambda>s. s\<lparr>sb := x\<rparr>))
      (act (cprintf (''sb: size %d nblocks %d ninodes %d nlog %d logstart %d inodestart %d bmap start %d'' @ nl)
        (map Aint [sb_size x, sb_nblocks x, sb_ninodes x, sb_nlog x, sb_logstart x, sb_inodestart x,
           sb_bmapstart x]))))))"

definition iget :: "uint \<Rightarrow> uint \<Rightarrow> 'a icache_scheme \<Rightarrow> (nat \<times> 'a icache_scheme) res" where
  "iget dev inum s =
     bnd (acquire L_icache s) (\<lambda>s.
     case find (\<lambda>i. i_ref (inodes s i) > 0 \<and> i_dev (inodes s i) = dev \<and> i_inum (inodes s i) = inum) [0..<NINODE] of
       Some i \<Rightarrow> bnd (release L_icache (upd_inode i (\<lambda>x. x\<lparr>i_ref := i_ref x + 1\<rparr>) s)) (\<lambda>s. Inr (i, s))
     | None \<Rightarrow>
         (case find (\<lambda>i. i_ref (inodes s i) = 0) [0..<NINODE] of
            None \<Rightarrow> Inl (Panic ''iget: no inodes'')
          | Some i \<Rightarrow>
              bnd (release L_icache (upd_inode i (\<lambda>x. x\<lparr>i_dev := dev, i_inum := inum, i_ref := 1, i_valid := False\<rparr>) s))
                (\<lambda>s. Inr (i, s))))"

definition ialloc_at :: "uint \<Rightarrow> ushort \<Rightarrow> nat \<Rightarrow> ('a icache_scheme, nat option) thr" where
  "ialloc_at dev type inum =
     tbnd (look sb) (\<lambda>x.
     tbnd (bread dev (IBLOCK (of_nat inum) x)) (\<lambda>bp.
     tbnd (data_of bp) (\<lambda>d.
     if rd16 d (64 * (inum mod 8)) = 0
     then tseq (set_data bp (wr16 (\<lambda>i. if 64 * (inum mod 8) \<le> i \<and> i < 64 * (inum mod 8) + 64 then 0 else d i)
                    (64 * (inum mod 8)) type))
          (tseq (act (log_write bp))
          (tseq (brelse bp)
          (tbnd (ask (iget dev (of_nat inum))) (\<lambda>ip. ret (Some ip)))))
     else tseq (brelse bp) (ret None))))"

definition ialloc :: "uint \<Rightarrow> ushort \<Rightarrow> ('a icache_scheme, nat) thr" where
  "ialloc dev type =
     tbnd (look sb) (\<lambda>x.
     tbnd (tfind (ialloc_at dev type) [1..<unat (sb_ninodes x)]) (\<lambda>r.
     case r of Some ip \<Rightarrow> ret ip | None \<Rightarrow> fail (Panic ''ialloc: no inodes'')))"

definition iupdate :: "nat \<Rightarrow> ('a icache_scheme, unit) thr" where
  "iupdate ip =
     tbnd (inode_of ip) (\<lambda>x.
     tbnd (look sb) (\<lambda>y.
     tbnd (bread (i_dev x) (IBLOCK (i_inum x) y)) (\<lambda>bp.
     tbnd (look (\<lambda>s. (inodes s ip, b_data (bufs s bp)))) (\<lambda>(x, d).
     tseq (set_data bp (dinode_out x (unat (i_inum x mod IPB)) d))
     (tseq (act (log_write bp))
     (brelse bp))))))"

definition idup :: "nat \<Rightarrow> 'a icache_scheme \<Rightarrow> (nat \<times> 'a icache_scheme) res" where
  "idup ip s =
     bnd (acquire L_icache s) (\<lambda>s.
     bnd (release L_icache (upd_inode ip (\<lambda>x. x\<lparr>i_ref := i_ref x + 1\<rparr>) s)) (\<lambda>s. Inr (ip, s)))"

definition ilock :: "nat option \<Rightarrow> ('a icache_scheme, unit) thr" where
  "ilock ipo =
     (case ipo of
        None \<Rightarrow> fail (Panic ''ilock'')
      | Some ip \<Rightarrow>
          tbnd (inode_of ip) (\<lambda>x.
          tseq (panic_when (i_ref x < 1) ''ilock'')
          (tseq (acquiresleep (SL_inode ip))
          (tbnd (inode_of ip) (\<lambda>x.
           if i_valid x then ret ()
           else tbnd (look sb) (\<lambda>y.
                tbnd (bread (i_dev x) (IBLOCK (i_inum x) y)) (\<lambda>bp.
                tbnd (data_of bp) (\<lambda>d.
                tseq (set_inode ip (\<lambda>x. dinode_in d (unat (i_inum x mod IPB)) x))
                (tseq (brelse bp)
                (tseq (set_inode ip (\<lambda>x. x\<lparr>i_valid := True\<rparr>))
                (tbnd (inode_of ip) (\<lambda>x.
                 panic_when (i_type x = 0) ''ilock: no type''))))))))))))"

definition iunlock :: "nat option \<Rightarrow> ('a icache_scheme, unit) thr" where
  "iunlock ipo =
     (case ipo of
        None \<Rightarrow> fail (Panic ''iunlock'')
      | Some ip \<Rightarrow>
          tbnd (holdingsleep (SL_inode ip)) (\<lambda>h.
          tbnd (inode_of ip) (\<lambda>x.
          tseq (panic_when (\<not> h \<or> i_ref x < 1) ''iunlock'')
          (releasesleep (SL_inode ip)))))"

section \<open>Contents\<close>

definition bmap :: "nat \<Rightarrow> nat \<Rightarrow> ('a icache_scheme, uint) thr" where
  "bmap ip bn =
     tbnd (inode_of ip) (\<lambda>x.
     if bn < NDIRECT
     then if i_addrs x bn = 0
          then tbnd (balloc (i_dev x)) (\<lambda>addr.
               tseq (set_inode ip (\<lambda>x. x\<lparr>i_addrs := (i_addrs x)(bn := addr)\<rparr>)) (ret addr))
          else ret (i_addrs x bn)
     else let bn = bn - NDIRECT
          in if bn < NINDIRECT
             then tbnd (if i_addrs x NDIRECT = 0
                        then tbnd (balloc (i_dev x)) (\<lambda>addr.
                             tseq (set_inode ip (\<lambda>x. x\<lparr>i_addrs := (i_addrs x)(NDIRECT := addr)\<rparr>)) (ret addr))
                        else ret (i_addrs x NDIRECT)) (\<lambda>addr.
                  tbnd (bread (i_dev x) addr) (\<lambda>bp.
                  tbnd (data_of bp) (\<lambda>d.
                  tbnd (if rd32 d (4 * bn) = 0
                        then tbnd (balloc (i_dev x)) (\<lambda>addr.
                             tseq (modify (upd_buf bp (\<lambda>y. y\<lparr>b_data := wr32 (b_data y) (4 * bn) addr\<rparr>)))
                             (tseq (act (log_write bp)) (ret addr)))
                        else ret (rd32 d (4 * bn))) (\<lambda>addr.
                  tseq (brelse bp) (ret addr)))))
             else fail (Panic ''bmap: out of range''))"

definition itrunc_direct :: "nat \<Rightarrow> nat \<Rightarrow> ('a icache_scheme, unit) thr" where
  "itrunc_direct ip i =
     tbnd (inode_of ip) (\<lambda>x.
     if i_addrs x i \<noteq> 0
     then tseq (bfree (i_dev x) (i_addrs x i)) (set_inode ip (\<lambda>x. x\<lparr>i_addrs := (i_addrs x)(i := 0)\<rparr>))
     else ret ())"

definition itrunc :: "nat \<Rightarrow> ('a icache_scheme, unit) thr" where
  "itrunc ip =
     tseq (tfold (itrunc_direct ip) [0..<NDIRECT])
     (tbnd (inode_of ip) (\<lambda>x.
      tseq (if i_addrs x NDIRECT \<noteq> 0
            then tbnd (bread (i_dev x) (i_addrs x NDIRECT)) (\<lambda>bp.
                 tseq (tfold (\<lambda>j. tbnd (data_of bp) (\<lambda>d.
                         if rd32 d (4 * j) \<noteq> 0 then bfree (i_dev x) (rd32 d (4 * j)) else ret ())) [0..<NINDIRECT])
                 (tseq (brelse bp)
                 (tseq (bfree (i_dev x) (i_addrs x NDIRECT))
                 (set_inode ip (\<lambda>x. x\<lparr>i_addrs := (i_addrs x)(NDIRECT := 0)\<rparr>)))))
            else ret ())
      (tseq (set_inode ip (\<lambda>x. x\<lparr>i_size := 0\<rparr>))
      (iupdate ip))))"

definition iput :: "nat \<Rightarrow> ('a icache_scheme, unit) thr" where
  "iput ip =
     tseq (acquiresleep (SL_inode ip))
     (tbnd (inode_of ip) (\<lambda>x.
      tseq (if i_valid x \<and> i_nlink x = 0
            then tseq (act (acquire L_icache))
                 (tbnd (inode_of ip) (\<lambda>x.
                  tseq (act (release L_icache))
                  (if i_ref x = 1
                   then tseq (itrunc ip)
                        (tseq (set_inode ip (\<lambda>x. x\<lparr>i_type := 0\<rparr>))
                        (tseq (iupdate ip)
                        (set_inode ip (\<lambda>x. x\<lparr>i_valid := False\<rparr>))))
                   else ret ())))
            else ret ())
      (tseq (releasesleep (SL_inode ip))
      (tseq (act (acquire L_icache))
      (tseq (set_inode ip (\<lambda>x. x\<lparr>i_ref := i_ref x - 1\<rparr>))
      (act (release L_icache)))))))"

definition iunlockput :: "nat \<Rightarrow> ('a icache_scheme, unit) thr" where
  "iunlockput ip = tseq (iunlock (Some ip)) (iput ip)"

record stat =
  st_type :: ushort
  st_dev :: uint
  st_ino :: uint
  st_nlink :: ushort
  st_size :: uint

definition stati :: "inode \<Rightarrow> stat" where
  "stati x = \<lparr>st_type = i_type x, st_dev = i_dev x, st_ino = i_inum x, st_nlink = i_nlink x, st_size = i_size x\<rparr>"

section \<open>Bits and inodes are kept apart\<close>

text \<open>
  The block bitmap: marking a block as used or free changes the state of that block and of no
  other block of the same bitmap block, so a freed block can be allocated again and allocating one
  block never takes another.
\<close>

lemma bitmap_update:
  "bm_used (bm_set bi d) bj = (bj = bi \<or> bm_used d bj) \<and> bm_used (bm_clear bi d) bj = (bj \<noteq> bi \<and> bm_used d bj)"
proof -
  have bit: "bm_used d bj = bit (d (bj div 8)) (bj mod 8)" for d bj
    by (simp add: bm_used_def bit_iff_and_push_bit_not_eq_0)
  show ?thesis
  proof (cases "bj div 8 = bi div 8")
    case True
    then have "bj mod 8 = bi mod 8 \<longleftrightarrow> bj = bi" by (metis div_mult_mod_eq)
    with True show ?thesis
      unfolding bit bm_set_def bm_clear_def
      by (auto simp: bit_or_iff bit_and_iff bit_not_iff bit_exp_iff)
  next
    case False
    then show ?thesis unfolding bit bm_set_def bm_clear_def by auto
  qed
qed

lemma rd32_cong: "(\<And>j. i \<le> j \<Longrightarrow> j < i + 4 \<Longrightarrow> d j = e j) \<Longrightarrow> rd32 d i = rd32 e i"
  by (simp add: rd32_def)

lemma rd16_cong: "(\<And>j. i \<le> j \<Longrightarrow> j < i + 2 \<Longrightarrow> d j = e j) \<Longrightarrow> rd16 d i = rd16 e i"
  by (simp add: rd16_def)

lemma rd16_wr32_other: "j + 2 \<le> i \<or> i + 4 \<le> j \<Longrightarrow> rd16 (wr32 d i w) j = rd16 d j"
  unfolding rd16_def wr32_def by auto

lemma dinode_out_outside: "b < 64 * k \<or> 64 * k + 64 \<le> b \<Longrightarrow> dinode_out x k d b = d b"
  unfolding dinode_out_def Let_def by (subst wr32_fold_outside) (auto simp: wr16_def wr32_def)

lemma dinode_in_cong:
  assumes "\<And>b. 64 * k \<le> b \<Longrightarrow> b < 64 * k + 64 \<Longrightarrow> d b = e b"
  shows "dinode_in d k x = dinode_in e k x"
proof -
  have "rd16 d (64 * k + j) = rd16 e (64 * k + j)" if "j < 8" for j
    using that assms by (intro rd16_cong) simp
  from this [of 0] this [of 2] this [of 4] this [of 6]
  have "rd16 d (64 * k) = rd16 e (64 * k)" "rd16 d (64 * k + 2) = rd16 e (64 * k + 2)"
    "rd16 d (64 * k + 4) = rd16 e (64 * k + 4)" "rd16 d (64 * k + 6) = rd16 e (64 * k + 6)" by simp_all
  moreover have "rd32 d (64 * k + 8) = rd32 e (64 * k + 8)" using assms by (intro rd32_cong) simp
  moreover have "rd32 d (64 * k + 12 + 4 * j) = rd32 e (64 * k + 12 + 4 * j)" if "j < 13" for j
    using that assms by (intro rd32_cong) simp
  ultimately show ?thesis by (simp add: dinode_in_def cong: if_cong)
qed

text \<open>
  C30: inodes on disk. What \<open>iupdate\<close> writes into slot \<open>k\<close> of a block is what \<open>ilock\<close> reads back from
  it, and the other inodes of the block stay as they are.
\<close>

theorem dinode_roundtrip:
  "dinode_in (dinode_out x k d) k y = y\<lparr>i_type := i_type x, i_major := i_major x, i_minor := i_minor x,
     i_nlink := i_nlink x, i_size := i_size x, i_addrs := (\<lambda>j. if j < 13 then i_addrs x j else i_addrs y j)\<rparr> \<and>
   (\<forall>l. l \<noteq> k \<longrightarrow> dinode_in (dinode_out x k d) l y = dinode_in d l y)"
proof (intro conjI allI impI)
  fix l assume "l \<noteq> k"
  then have "b < 64 * k \<or> 64 * k + 64 \<le> b" if "64 * l \<le> b" "b < 64 * l + 64" for b
    using that by linarith
  then show "dinode_in (dinode_out x k d) l y = dinode_in d l y"
    by (intro dinode_in_cong dinode_out_outside)
next
  let ?e = "let d = wr16 d (64 * k) (i_type x); d = wr16 d (64 * k + 2) (i_major x);
          d = wr16 d (64 * k + 4) (i_minor x); d = wr16 d (64 * k + 6) (i_nlink x)
      in wr32 d (64 * k + 8) (i_size x)"
  have o: "dinode_out x k d b = ?e b" if "b < 64 * k + 12" for b
    unfolding dinode_out_def Let_def using that by (subst wr32_fold_outside) simp_all
  have "rd16 (dinode_out x k d) (64 * k + j) = rd16 ?e (64 * k + j)" if "j \<le> 6" for j
    using that by (intro rd16_cong o) simp
  from this [of 0] this [of 2] this [of 4] this [of 6]
  have "rd16 (dinode_out x k d) (64 * k) = i_type x" "rd16 (dinode_out x k d) (64 * k + 2) = i_major x"
    "rd16 (dinode_out x k d) (64 * k + 4) = i_minor x" "rd16 (dinode_out x k d) (64 * k + 6) = i_nlink x"
    by (simp_all add: Let_def rd16_wr16_other rd16_wr32_other)
  moreover have "rd32 (dinode_out x k d) (64 * k + 8) = rd32 ?e (64 * k + 8)" by (intro rd32_cong o) simp
  moreover have "rd32 (dinode_out x k d) (64 * k + 12 + 4 * j) = i_addrs x j" if "j < 13" for j
    unfolding dinode_out_def Let_def using that by (rule wr32_fold_nth)
  ultimately show "dinode_in (dinode_out x k d) k y = y\<lparr>i_type := i_type x, i_major := i_major x, i_minor := i_minor x,
     i_nlink := i_nlink x, i_size := i_size x, i_addrs := (\<lambda>j. if j < 13 then i_addrs x j else i_addrs y j)\<rparr>"
    by (simp add: dinode_in_def Let_def cong: if_cong)
qed

theorem dinode_roundtrip_witness:
  "let x = \<lparr>i_dev = 1, i_inum = 9, i_ref = 1, i_valid = True, i_type = T_FILE, i_major = 0, i_minor = 0,
     i_nlink = 1, i_size = 700, i_addrs = (\<lambda>j. if j < 2 then 60 + of_nat j else 0)\<rparr>
   in dinode_in (dinode_out x 1 (\<lambda>_. 0)) 1 x = x \<and> dinode_in (dinode_out x 1 (\<lambda>_. 0)) 2 x = dinode_in (\<lambda>_. 0) 2 x"
  unfolding Let_def by (simp add: dinode_roundtrip fun_eq_iff)

section \<open>The cache of inodes\<close>

text \<open>An inode that is referenced has one entry.\<close>

definition one_entry :: "(nat \<Rightarrow> inode) \<Rightarrow> bool" where
  "one_entry I \<longleftrightarrow> (\<forall>i<NINODE. \<forall>j<NINODE. 0 < i_ref (I i) \<longrightarrow> 0 < i_ref (I j) \<longrightarrow> i_dev (I i) = i_dev (I j) \<longrightarrow>
     i_inum (I i) = i_inum (I j) \<longrightarrow> i = j) \<and> (\<forall>i<NINODE. 0 \<le> i_ref (I i))"

definition entry_for :: "uint \<Rightarrow> uint \<Rightarrow> (nat \<Rightarrow> inode) \<Rightarrow> nat \<Rightarrow> bool" where
  "entry_for dev inum I i \<longleftrightarrow> 0 < i_ref (I i) \<and> i_dev (I i) = dev \<and> i_inum (I i) = inum"

lemma iget_inside:
  assumes "inside p H s" and "L_icache \<notin> H"
  shows "iget dev inum s =
    (case find (entry_for dev inum (inodes s)) [0..<NINODE] of
       Some i \<Rightarrow> Inr (i, upd_inode i (\<lambda>x. x\<lparr>i_ref := i_ref x + 1\<rparr>) (synced s))
     | None \<Rightarrow>
         (case find (\<lambda>i. i_ref (inodes s i) = 0) [0..<NINODE] of
            None \<Rightarrow> Inl (Panic ''iget: no inodes'')
          | Some i \<Rightarrow> Inr (i, upd_inode i (\<lambda>x. x\<lparr>i_dev := dev, i_inum := inum, i_ref := 1, i_valid := False\<rparr>) (synced s))))"
proof -
  have e: "entry_for dev inum I = (\<lambda>i. i_ref (I i) > 0 \<and> i_dev (I i) = dev \<and> i_inum (I i) = inum)" for I
    by (simp add: entry_for_def fun_eq_iff)
  have c: "bnd (release L_icache (upd_inode i f (acquired L_icache s))) (\<lambda>s. Inr (i, s)) = Inr (i, upd_inode i f (synced s))" for i f
  proof -
    have "bnd (acquire L_icache s) (\<lambda>s. release L_icache (upd_inode i f s)) = Inr (upd_inode i f (synced s))"
      using assms by (rule crit_section) (simp_all add: upd_inode_def)
    then show ?thesis using acquire_inside(1) [OF assms] by simp
  qed
  have "inodes (acquired L_icache s) = inodes s" by (simp add: acquired_def upd_cpu_def)
  then show ?thesis
    unfolding iget_def e acquire_inside(1) [OF assms, simplified]
    by (simp add: c cong: option.case_cong)
qed

lemma idup_inside:
  assumes "inside p H s" and "L_icache \<notin> H"
  shows "idup i s = Inr (i, upd_inode i (\<lambda>x. x\<lparr>i_ref := i_ref x + 1\<rparr>) (synced s))"
proof -
  let ?f = "upd_inode i (\<lambda>x. x\<lparr>i_ref := i_ref x + 1\<rparr>)"
  have "bnd (acquire L_icache s) (\<lambda>s. release L_icache (?f s)) = Inr (?f (synced s))"
    using assms by (rule crit_section) (simp_all add: upd_inode_def)
  then show ?thesis using acquire_inside(1) [OF assms] by (simp add: idup_def)
qed

text \<open>
  The steps on the table: \<open>iget\<close> and \<open>idup\<close>, the decrement at the end of \<open>iput\<close>, and whatever keeps
  references, devices and inode numbers.
\<close>

inductive icache_hist :: "'a icache_scheme \<Rightarrow> bool" where
  start: "\<forall>i<NINODE. i_ref (inodes s i) = 0 \<Longrightarrow> icache_hist s"
| get: "icache_hist s \<Longrightarrow> inside p H s \<Longrightarrow> L_icache \<notin> H \<Longrightarrow> iget dev inum s = Inr (i, t) \<Longrightarrow> icache_hist t"
| dup: "icache_hist s \<Longrightarrow> inside p H s \<Longrightarrow> L_icache \<notin> H \<Longrightarrow> 0 < i_ref (inodes s i) \<Longrightarrow> idup i s = Inr (j, t) \<Longrightarrow> icache_hist t"
| put: "icache_hist s \<Longrightarrow> 0 < i_ref (inodes s i) \<Longrightarrow> icache_hist (upd_inode i (\<lambda>x. x\<lparr>i_ref := i_ref x - 1\<rparr>) s)"
| other: "icache_hist s \<Longrightarrow> \<forall>i<NINODE. i_ref (inodes t i) = i_ref (inodes s i) \<and> i_dev (inodes t i) = i_dev (inodes s i) \<and>
    i_inum (inodes t i) = i_inum (inodes s i) \<Longrightarrow> icache_hist t"

lemma one_entry_mono:
  assumes "one_entry I" and "\<And>j. i_dev (J j) = i_dev (I j) \<and> i_inum (J j) = i_inum (I j) \<and> (0 < i_ref (J j) \<longrightarrow> 0 < i_ref (I j))"
    and "\<And>j. j < NINODE \<Longrightarrow> 0 \<le> i_ref (J j)"
  shows "one_entry J"
  using assms unfolding one_entry_def by metis

lemma one_entry_ref:
  assumes "one_entry I" and "0 < i_ref (I i)" and "0 \<le> r"
  shows "one_entry (I(i := (I i)\<lparr>i_ref := r\<rparr>))"
proof (rule one_entry_mono [OF assms(1)])
  show "0 \<le> i_ref ((I(i := (I i)\<lparr>i_ref := r\<rparr>)) j)" if "j < NINODE" for j
    using assms that by (simp add: one_entry_def)
qed (use assms(2) in simp)

lemma one_entry_new:
  assumes "one_entry I" and "\<forall>j<NINODE. \<not> entry_for dev inum I j"
  shows "one_entry (I(i := (I i)\<lparr>i_dev := dev, i_inum := inum, i_ref := 1, i_valid := False\<rparr>))"
  using assms unfolding one_entry_def entry_for_def by (simp) blast

lemma iget_step:
  assumes s: "inside p H s" "L_icache \<notin> H" and o: "one_entry (inodes s)" and g: "iget dev inum s = Inr (i, t)"
  shows "one_entry (inodes t) \<and> i < NINODE \<and> entry_for dev inum (inodes t) i \<and>
    (\<forall>j<NINODE. entry_for dev inum (inodes s) j \<longrightarrow> j = i \<and> i_ref (inodes t i) = i_ref (inodes s i) + 1)"
proof (cases "find (entry_for dev inum (inodes s)) [0..<NINODE]")
  case (Some k)
  then have k: "k < NINODE" "entry_for dev inum (inodes s) k" by (simp_all add: find_upt_Some_iff)
  have e: "i = k" "t = upd_inode k (\<lambda>x. x\<lparr>i_ref := i_ref x + 1\<rparr>) (synced s)"
    using g Some by (auto simp: iget_inside [OF s])
  have I: "inodes t = (inodes s)(k := (inodes s k)\<lparr>i_ref := i_ref (inodes s k) + 1\<rparr>)"
    unfolding e(2) by (simp add: upd_inode_def upd_cpu_def)
  have "one_entry (inodes t)" unfolding I using o k(2) by (intro one_entry_ref) (simp_all add: entry_for_def)
  moreover have "j = k" if "j < NINODE" "entry_for dev inum (inodes s) j" for j
    using o k that unfolding one_entry_def entry_for_def by simp
  moreover have "entry_for dev inum (inodes t) k" "i_ref (inodes t k) = i_ref (inodes s k) + 1"
    using k(2) by (simp_all add: I entry_for_def)
  ultimately show ?thesis using k(1) e(1) by blast
next
  case None
  then have n: "\<forall>j<NINODE. \<not> entry_for dev inum (inodes s) j" by (simp add: find_upt_None_iff)
  obtain k where f: "find (\<lambda>i. i_ref (inodes s i) = 0) [0..<NINODE] = Some k"
    using g None by (auto simp: iget_inside [OF s] split: option.splits)
  have e: "i = k" "t = upd_inode k (\<lambda>x. x\<lparr>i_dev := dev, i_inum := inum, i_ref := 1, i_valid := False\<rparr>) (synced s)"
    using g None f by (auto simp: iget_inside [OF s])
  have I: "inodes t = (inodes s)(k := (inodes s k)\<lparr>i_dev := dev, i_inum := inum, i_ref := 1, i_valid := False\<rparr>)"
    unfolding e(2) by (simp add: upd_inode_def upd_cpu_def)
  have "one_entry (inodes t)" unfolding I by (rule one_entry_new [OF o n])
  moreover have "k < NINODE" using f by (simp add: find_upt_Some_iff)
  moreover have "entry_for dev inum (inodes t) k" by (simp add: I entry_for_def)
  ultimately show ?thesis using n e(1) by blast
qed

lemma inodes_upd_inode: "inodes (upd_inode i f s) = (inodes s)(i := f (inodes s i))"
  by (simp add: upd_inode_def)

lemma icache_hist_one: "icache_hist s \<Longrightarrow> one_entry (inodes s)"
proof (induction rule: icache_hist.induct)
  case (start s)
  then show ?case by (simp add: one_entry_def)
next
  case (get s p H dev inum i t)
  then show ?case using iget_step by blast
next
  case (dup s p H i j t)
  then have "inodes t = (inodes s)(i := (inodes s i)\<lparr>i_ref := i_ref (inodes s i) + 1\<rparr>)"
    using idup_inside [OF dup.hyps(2,3)] by (auto simp: upd_inode_def upd_cpu_def)
  moreover have "0 \<le> i_ref (inodes s i) + 1" using dup.hyps(4) by simp
  ultimately show ?case using one_entry_ref [OF dup.IH dup.hyps(4)] by metis
next
  case (put s i)
  then have "0 \<le> i_ref (inodes s i) - 1" by simp
  from one_entry_ref [OF put.IH put.hyps(2) this] show ?case unfolding inodes_upd_inode .
next
  case (other s t)
  then show ?case by (simp add: one_entry_def)
qed


definition boot_icache :: icache where
  "boot_icache = log.extend boot_log
     \<lparr>inodes = (\<lambda>_. \<lparr>i_dev = 0, i_inum = 0, i_ref = 0, i_valid = False, i_type = 0,
        i_major = 0, i_minor = 0, i_nlink = 0, i_size = 0, i_addrs = (\<lambda>_. 0)\<rparr>)\<rparr>"

lemma inside_boot_icache: "inside 0 {} boot_icache"
  using inside_boot_bcache by (simp add: boot_icache_def log.defs inside_def con_ok_def cpu_ok_def cpus_wf_def)


end
