(* ===== verification/Conin.thy ===== *)
theory Conin
  imports Inode
begin

text \<open>
  Console input: the line editor of \<open>console.c\<close>, the keyboard of \<open>kbd.c\<close>, the receiving side of
  \<open>uart.c\<close>, and the device routines \<open>consoleread\<close> and \<open>consolewrite\<close>. \<open>kbd_in\<close> and \<open>uart_in\<close> are
  the bytes that wait in the two devices.
\<close>

section \<open>Data\<close>

record conin = icache +
  in_buf :: "nat \<Rightarrow> uchar"
  in_r :: uint
  in_w :: uint
  in_e :: uint
  kbd_shift :: uint
  kbd_in :: "uchar list"
  uart_in :: "uchar list"
  devsw :: "nat \<Rightarrow> bool"

abbreviation (input) INPUT_BUF :: uint where "INPUT_BUF \<equiv> 128"

text \<open>
  Where a read delivers its bytes: at an address of the current address space, or in a variable
  of the caller, which gets the bytes as part of the result. Where a write takes them from.
\<close>

datatype dst = Mem uint | Loc
datatype src = From uint | Bytes "uchar list"

definition deliver :: "dst \<Rightarrow> nat \<Rightarrow> uchar list \<Rightarrow> ('a machine_scheme, unit) thr" where
  "deliver d off bs = (case d of Mem a \<Rightarrow> act (ustores (a + of_nat off) bs) | Loc \<Rightarrow> ret ())"

definition fetch :: "src \<Rightarrow> nat \<Rightarrow> nat \<Rightarrow> ('a machine_scheme, uchar list) thr" where
  "fetch d off n = (case d of
     From a \<Rightarrow> ask (\<lambda>s. bnd (uloads (a + of_nat off) n s) (\<lambda>bs. Inr (bs, s)))
   | Bytes bs \<Rightarrow> ret (take n (drop off bs)))"

section \<open>The keyboard\<close>

text \<open>
  The tables of \<open>kbd.h\<close>: the entries up to \<open>0x57\<close> in order, and the extended keys, the same in all
  maps but for Enter and the slash of the keypad.
\<close>

definition shiftcode :: "nat \<Rightarrow> uint" where
  "shiftcode d = (if d = 0x1D \<or> d = 0x9D then 2 else if d = 0x2A \<or> d = 0x36 then 1
     else if d = 0x38 \<or> d = 0xB8 then 4 else 0)"

definition togglecode :: "nat \<Rightarrow> uint" where
  "togglecode d = (if d = 0x3A then 8 else if d = 0x45 then 16 else if d = 0x46 then 32 else 0)"

definition ext_key :: "uint \<Rightarrow> uint \<Rightarrow> nat \<Rightarrow> uint" where
  "ext_key enter slash d =
     (case map_of [(0x9C, enter), (0xB5, slash), (0xC8, 0xE2), (0xD0, 0xE3), (0xC9, 0xE6), (0xD1, 0xE7),
        (0xCB, 0xE4), (0xCD, 0xE5), (0x97, 0xE0), (0xCF, 0xE1), (0xD2, 0xE8), (0xD3, 0xE9)] d of
        Some k \<Rightarrow> k | None \<Rightarrow> 0)"

definition key_row :: "string \<Rightarrow> uint list" where
  "key_row cs = map of_char cs"

definition normalmap :: "nat \<Rightarrow> uint" where
  "normalmap d =
     (let row = [0, 0x1B] @ key_row ''1234567890-='' @ [8, 9] @ key_row ''qwertyuiop[]'' @ [10, 0] @
            key_row ''asdfghjkl;'' @ [39, 96, 0, 92] @ key_row ''zxcvbnm,./'' @ [0, 42, 0, 32] @
            replicate 13 0 @ key_row ''789-456+1230.''
      in if d < length row then row ! d else ext_key 10 47 d)"

definition shiftmap :: "nat \<Rightarrow> uint" where
  "shiftmap d =
     (let row = [0, 27] @ key_row ''!@#$%^&*()_+'' @ [8, 9] @ key_row ''QWERTYUIOP{}'' @ [10, 0] @
            key_row ''ASDFGHJKL:'' @ [34, 126, 0, 124] @ key_row ''ZXCVBNM<>?'' @ [0, 42, 0, 32] @
            replicate 13 0 @ key_row ''789-456+1230.''
      in if d < length row then row ! d else ext_key 10 47 d)"

definition ctl :: "uint \<Rightarrow> uint" where "ctl x = x - 64"

definition ctlmap :: "nat \<Rightarrow> uint" where
  "ctlmap d =
     (let row = replicate 16 0 @ map ctl (key_row ''QWERTYUIOP'') @ [0, 0, 13, 0] @
            map ctl (key_row ''ASDFGHJKL'') @ [0, 0, 0, 0, ctl 92] @ map ctl (key_row ''ZXCVBNM'') @
            [0, 0, ctl 47, 0, 0]
      in if d < length row then row ! d AND 0xFF else ext_key 13 (ctl 47 AND 0xFF) d)"

definition charcode :: "uint \<Rightarrow> nat \<Rightarrow> uint" where
  "charcode m = (if m = 0 then normalmap else if m = 1 then shiftmap else ctlmap)"

text \<open>What a byte from the keyboard means, in the shift state: a character, or 0, and the new shift state.\<close>

definition kbd_decode :: "uint \<Rightarrow> nat \<Rightarrow> uint \<times> uint" where
  "kbd_decode shift data =
     (if data = 0xE0 then (0, shift OR 64)
      else if 0x80 \<le> data
      then let data = (if shift AND 64 \<noteq> 0 then data else data - 0x80)
           in (0, shift AND NOT (shiftcode data OR 64))
      else let data = (if shift AND 64 \<noteq> 0 then data + 0x80 else data);
               shift = shift AND NOT 64;
               shift = (shift OR shiftcode data) XOR togglecode data;
               c = charcode (shift AND 3) data;
               c = (if shift AND 8 \<noteq> 0
                    then if 97 \<le> c \<and> c \<le> 122 then c - 32
                         else if 65 \<le> c \<and> c \<le> 90 then c + 32 else c
                    else c)
           in (c, shift))"

definition kbdgetc :: "'a conin_scheme \<Rightarrow> int \<times> 'a conin_scheme" where
  "kbdgetc s =
     (case kbd_in s of
        [] \<Rightarrow> (- 1, s)
      | b # bs \<Rightarrow> (case kbd_decode (kbd_shift s) (unat b) of (c, h) \<Rightarrow> (uint c, s\<lparr>kbd_in := bs, kbd_shift := h\<rparr>)))"

definition uartgetc :: "'a conin_scheme \<Rightarrow> int \<times> 'a conin_scheme" where
  "uartgetc s =
     (if \<not> uart (con s) then (- 1, s)
      else case uart_in s of [] \<Rightarrow> (- 1, s) | b # bs \<Rightarrow> (uint b, s\<lparr>uart_in := bs\<rparr>))"

section \<open>Line editing\<close>

text \<open>\<open>C('U')\<close>: at most \<open>e - w\<close> characters are erased.\<close>

fun kill_line :: "nat \<Rightarrow> 'a conin_scheme \<Rightarrow> 'a conin_scheme res" where
  "kill_line 0 s = Inr s"
| "kill_line (Suc n) s =
     (if in_buf s (unat ((in_e s - 1) mod INPUT_BUF)) \<noteq> 10
      then bnd (consputc BACKSPACE (s\<lparr>in_e := in_e s - 1\<rparr>)) (kill_line n)
      else Inr s)"

definition key_in :: "uint \<Rightarrow> 'a conin_scheme \<Rightarrow> 'a conin_scheme res" where
  "key_in c s =
     (if c \<noteq> 0 \<and> in_e s - in_r s < INPUT_BUF
      then let c = (if c = 13 then 10 else c);
               s = s\<lparr>in_buf := (in_buf s)(unat (in_e s mod INPUT_BUF) := ucast c), in_e := in_e s + 1\<rparr>
           in bnd (consputc c s) (\<lambda>s.
              if c = 10 \<or> c = 4 \<or> in_e s = in_r s + INPUT_BUF
              then wakeup Ch_input (s\<lparr>in_w := in_e s\<rparr>)
              else Inr s)
      else Inr s)"

text \<open>
  The loop of \<open>consoleintr\<close> ends when \<open>getc\<close> has no more input; \<open>n\<close> bounds the number of
  rounds. The result says whether \<open>C('P')\<close> was typed.
\<close>

fun consoleintr_loop :: "nat \<Rightarrow> ('a conin_scheme \<Rightarrow> int \<times> 'a conin_scheme) \<Rightarrow> bool \<Rightarrow>
    'a conin_scheme \<Rightarrow> (bool \<times> 'a conin_scheme) res" where
  "consoleintr_loop 0 getc dump s = Inl Halt"
| "consoleintr_loop (Suc n) getc dump s =
     (case getc s of (c, s) \<Rightarrow>
        if c < 0 then Inr (dump, s)
        else if c = 16 then consoleintr_loop n getc True s
        else if c = 21 then bnd (kill_line (unat (in_e s - in_w s)) s) (consoleintr_loop n getc dump)
        else if c = 8 \<or> c = 127
        then if in_e s \<noteq> in_w s
             then bnd (consputc BACKSPACE (s\<lparr>in_e := in_e s - 1\<rparr>)) (consoleintr_loop n getc dump)
             else consoleintr_loop n getc dump s
        else bnd (key_in (of_int c) s) (consoleintr_loop n getc dump))"

definition consoleintr :: "nat \<Rightarrow> ('a conin_scheme \<Rightarrow> int \<times> 'a conin_scheme) \<Rightarrow> 'a conin_scheme \<Rightarrow> 'a conin_scheme res" where
  "consoleintr n getc s =
     bnd (acquire L_cons s) (\<lambda>s.
     bnd (consoleintr_loop n getc False s) (\<lambda>(dump, s).
     bnd (release L_cons s) (\<lambda>s.
     if dump then procdump s else Inr s)))"

definition kbdintr :: "'a conin_scheme \<Rightarrow> 'a conin_scheme res" where
  "kbdintr s = consoleintr (Suc (length (kbd_in s))) kbdgetc s"

definition uartintr :: "'a conin_scheme \<Rightarrow> 'a conin_scheme res" where
  "uartintr s = consoleintr (Suc (length (uart_in s))) uartgetc s"

section \<open>The console as a device\<close>

definition input_wait :: "'a conin_scheme \<Rightarrow> (bool option \<times> 'a conin_scheme) res" where
  "input_wait s =
     (if in_r s = in_w s
      then bnd (curproc s) (\<lambda>(me, s). Inr (if p_killed (procs s me) then Some False else None, s))
      else Inr (Some True, s))"

text \<open>
  The loop of \<open>consoleread\<close>, \<open>n\<close> bytes before its end: the number of bytes still missing at the
  end, or \<^term>\<open>None\<close> when the process was killed, and the bytes delivered.
\<close>

fun consoleread_loop :: "dst \<Rightarrow> nat \<Rightarrow> nat \<Rightarrow> ('a conin_scheme, nat option \<times> uchar list) thr" where
  "consoleread_loop d target 0 = ret (Some 0, [])"
| "consoleread_loop d target (Suc n) =
     tbnd (sleep_loop input_wait Ch_input L_cons) (\<lambda>ok.
     if \<not> ok then ret (None, [])
     else tbnd (look (\<lambda>s. in_buf s (unat (in_r s mod INPUT_BUF)))) (\<lambda>c.
          tseq (modify (\<lambda>s. s\<lparr>in_r := in_r s + 1\<rparr>))
          (if c = 4
           then tseq (if Suc n < target then modify (\<lambda>s. s\<lparr>in_r := in_r s - 1\<rparr>) else ret ())
                (ret (Some (Suc n), []))
           else tseq (deliver d (target - Suc n) [c])
                (if c = 10 then ret (Some n, [c])
                 else tbnd (consoleread_loop d target n) (\<lambda>(r, bs). ret (r, c # bs))))))"

definition consoleread :: "nat \<Rightarrow> dst \<Rightarrow> int \<Rightarrow> ('a conin_scheme, int \<times> uchar list) thr" where
  "consoleread ip d n =
     tseq (iunlock (Some ip))
     (tseq (act (acquire L_cons))
     (tbnd (consoleread_loop d (nat n) (nat n)) (\<lambda>(r, bs).
      tseq (act (release L_cons))
     (tseq (ilock (Some ip))
     (case r of None \<Rightarrow> ret (- 1, bs) | Some left \<Rightarrow> ret (int (nat n - left), bs))))))"

fun consolewrite_loop :: "src \<Rightarrow> nat \<Rightarrow> nat \<Rightarrow> ('a conin_scheme, unit) thr" where
  "consolewrite_loop d i 0 = ret ()"
| "consolewrite_loop d i (Suc n) =
     tbnd (fetch d i 1) (\<lambda>bs.
     tseq (act (consputc (ucast (hd bs))))
     (consolewrite_loop d (Suc i) n))"

definition consolewrite :: "nat \<Rightarrow> src \<Rightarrow> int \<Rightarrow> ('a conin_scheme, int) thr" where
  "consolewrite ip d n =
     tseq (iunlock (Some ip))
     (tseq (act (acquire L_cons))
     (tseq (consolewrite_loop d 0 (nat n))
     (tseq (act (release L_cons))
     (tseq (ilock (Some ip))
     (ret n)))))"

definition consoleinit :: "'a conin_scheme \<Rightarrow> 'a conin_scheme" where
  "consoleinit s =
     (let s = initlock L_cons ''console'' s;
          s = s\<lparr>devsw := (devsw s)(1 := True), cons_locking := True\<rparr>
      in ioapicenable 1 0 s)"

text \<open>
  \<open>uartinit\<close>; \<open>there\<close> says whether the status port shows a device. The line parameters it sets are
  not part of the device's state here.
\<close>

definition uartinit :: "bool \<Rightarrow> 'a conin_scheme \<Rightarrow> 'a conin_scheme" where
  "uartinit there s =
     (if \<not> there then s
      else let s = s\<lparr>con := (con s)\<lparr>uart := True\<rparr>, uart_in := tl (uart_in s)\<rparr>;
               s = ioapicenable 4 0 s
           in s\<lparr>con := fold (\<lambda>c d. uartputc (ucast c) d) (str (''xv6...'' @ nl)) (con s)\<rparr>)"

section \<open>A concrete state\<close>

text \<open>No inode is cached and nothing has been typed.\<close>

definition boot_conin :: conin where
  "boot_conin = icache.extend boot_icache
     \<lparr>in_buf = (\<lambda>_. 0), in_r = 0, in_w = 0, in_e = 0, kbd_shift = 0, kbd_in = [], uart_in = [],
      devsw = (\<lambda>_. False)\<rparr>"

lemma boot_conin_simps [simp]:
  "procs boot_conin = procs boot_bcache" "ticks boot_conin = 0" "mem boot_conin = (\<lambda>_. 0)"
  "cpus boot_conin = cpus boot_bcache" "locks boot_conin = boot_locks" "ncpu boot_conin = 2"
  "this_cpu boot_conin = 0" "lapic_id boot_conin = of_nat" "\<not> panicked boot_conin" "cons_locking boot_conin"
  "con boot_conin = boot_con" "in_buf boot_conin = (\<lambda>_. 0)" "in_r boot_conin = 0" "in_w boot_conin = 0"
  "in_e boot_conin = 0"
  by (simp_all add: boot_conin_def boot_icache_def icache.defs log.defs)

lemma inside_boot_conin: "inside 0 {} boot_conin"
  using inside_boot_bcache by (simp add: inside_def con_ok_def cpu_ok_def cpus_wf_def)

section \<open>The lines that were typed\<close>

text \<open>
  The ring buffer holds the complete input that a reader may take, between \<open>r\<close> and \<open>w\<close>, and the
  line that is being edited, between \<open>w\<close> and \<open>e\<close>.
\<close>

definition ring :: "(nat \<Rightarrow> uchar) \<Rightarrow> uint \<Rightarrow> nat \<Rightarrow> uchar list" where
  "ring B a n = map (\<lambda>i. B (unat ((a + of_nat i) mod INPUT_BUF))) [0..<n]"

definition ready :: "'a conin_scheme \<Rightarrow> uchar list" where
  "ready s = ring (in_buf s) (in_r s) (unat (in_w s - in_r s))"

definition pending :: "'a conin_scheme \<Rightarrow> uchar list" where
  "pending s = ring (in_buf s) (in_w s) (unat (in_e s - in_w s))"

definition line_ok :: "'a conin_scheme \<Rightarrow> bool" where
  "line_ok s \<longleftrightarrow> unat (in_w s - in_r s) + unat (in_e s - in_w s) \<le> 128 \<and> 10 \<notin> set (pending s)"

text \<open>The line editor: complete input and current line, after one more character.\<close>

definition edit :: "int \<Rightarrow> uchar list \<times> uchar list \<Rightarrow> uchar list \<times> uchar list" where
  "edit c l = (case l of (a, b) \<Rightarrow>
     if c = 16 then (a, b)
     else if c = 21 then (a, [])
     else if c = 8 \<or> c = 127 then (a, butlast b)
     else if c = 0 \<or> length a + length b = 128 then (a, b)
     else let c = (if c = 13 then 10 else c); b = b @ [of_int c]
          in if c = 10 \<or> c = 4 \<or> length a + length b = 128 then (a @ b, []) else (a, b))"

lemma length_ring [simp]: "length (ring B a n) = n"
  by (simp add: ring_def)

lemma ring_Suc: "ring B a (Suc n) = ring B a n @ [B (unat ((a + of_nat n) mod INPUT_BUF))]"
  by (simp add: ring_def)

lemma ring_add: "ring B a (n + m) = ring B a n @ ring B (a + of_nat n) m"
  by (induction m) (simp_all add: ring_Suc ring_def [of B a 0] ring_def [of B _ 0] add.assoc)

lemma ring_slot: "unat ((a + of_nat i :: uint) mod 128) = (unat a + i) mod 128"
proof -
  have "unat ((a + of_nat i :: uint) mod 128) = (unat a + i) mod 2 ^ 32 mod 128"
    by (simp add: unat_mod unat_word_ariths unat_of_nat mod_simps)
  also have "\<dots> = (unat a + i) mod 128" by (rule mod_mod_cancel) simp
  finally show ?thesis .
qed

lemma ring_slot_inj:
  assumes "i < k" and "k - i < 128"
  shows "(a + i) mod 128 \<noteq> (a + k) mod (128 :: nat)"
proof
  assume "(a + i) mod 128 = (a + k) mod (128 :: nat)"
  then have "128 dvd k - i" using assms(1) mod_eq_dvd_iff_nat [of "a + i" "a + k" 128] by simp
  with assms show False by (auto dest: dvd_imp_le)
qed

lemma ring_upd:
  assumes "n \<le> k" and "k < 128"
  shows "ring (B(unat ((a + of_nat k) mod INPUT_BUF) := c)) a n = ring B a n"
proof -
  have "unat ((a + of_nat i) mod INPUT_BUF) \<noteq> unat ((a + of_nat k) mod INPUT_BUF)" if "i < n" for i
    unfolding ring_slot using that assms by (intro ring_slot_inj) auto
  then show ?thesis by (simp add: ring_def)
qed

text \<open>The state in which the interrupt handler edits: console and process table are usable.\<close>

definition editing :: "'a conin_scheme \<Rightarrow> bool" where
  "editing s \<longleftrightarrow> cpu_ok s \<and> 0 < ncli (cur s) \<and> \<not> panicked s \<and> condev_ok (con s) \<and> free_lock L_ptable s \<and> line_ok s"

text \<open>What an editing step may change.\<close>

definition edits :: "'a conin_scheme \<Rightarrow> 'a conin_scheme \<Rightarrow> bool" where
  "edits s t \<longleftrightarrow> editing t \<and> kbd_in t = kbd_in s \<and> kbd_shift t = kbd_shift s \<and> uart_in t = uart_in s \<and>
     uart (con t) = uart (con s) \<and> locks t = locks s \<and> this_cpu t = this_cpu s \<and> cpus t = cpus s \<and>
     ncpu t = ncpu s \<and> lapic_id t = lapic_id s \<and> cons_locking t = cons_locking s"

lemma edits_refl: "editing s \<Longrightarrow> edits s s"
  by (simp add: edits_def)

lemma edits_trans: "edits s t \<Longrightarrow> edits t u \<Longrightarrow> edits s u"
  by (simp add: edits_def)

lemma ready_cong: "in_buf t = in_buf s \<Longrightarrow> in_r t = in_r s \<Longrightarrow> in_w t = in_w s \<Longrightarrow> ready t = ready s"
  by (simp add: ready_def)

lemma pending_cong: "in_buf t = in_buf s \<Longrightarrow> in_e t = in_e s \<Longrightarrow> in_w t = in_w s \<Longrightarrow> pending t = pending s"
  by (simp add: pending_def)

lemma consputc_uart: "consputc c s = Inr t \<Longrightarrow> uart (con t) = uart (con s)"
  by (auto simp: consputc_def uartputc_def Let_def res_iff dest!: cgaputc_uart split: if_splits)

lemma consputc_edits:
  assumes "editing s"
  shows "\<exists>d. consputc c s = Inr (s\<lparr>con := d\<rparr>) \<and> edits s (s\<lparr>con := d\<rparr>) \<and> ready (s\<lparr>con := d\<rparr>) = ready s \<and>
    pending (s\<lparr>con := d\<rparr>) = pending s"
proof -
  have "con_step s (consputc c s)" using assms by (intro consputc_ok) (simp_all add: editing_def)
  then obtain d where d: "consputc c s = Inr (s\<lparr>con := d\<rparr>)" "condev_ok d" by (auto simp: con_step_def)
  have p: "pending (s\<lparr>con := d\<rparr>) = pending s" by (rule pending_cong) simp_all
  moreover have "ready (s\<lparr>con := d\<rparr>) = ready s" by (rule ready_cong) simp_all
  moreover have "uart d = uart (con s)" using consputc_uart [OF d(1)] by simp
  ultimately show ?thesis
    using d assms by (auto simp: edits_def editing_def line_ok_def cpu_ok_def cpus_wf_def)
qed

lemma wakeup_edits:
  assumes "editing s"
  shows "\<exists>t. wakeup ch s = Inr t \<and> edits s t \<and> ready t = ready s \<and> pending t = pending s"
proof -
  let ?t = "wakeup1 (Some ch) s"
  have "wakeup ch s = Inr ?t"
    using assms by (subst wakeup_eq) (simp_all add: editing_def upd_cpu_id sync_cpu_id)
  moreover have p: "pending ?t = pending s" by (rule pending_cong) (simp_all add: wakeup1_eq)
  moreover have "ready ?t = ready s" by (rule ready_cong) (simp_all add: wakeup1_eq)
  moreover have "edits s ?t"
    using assms p unfolding edits_def editing_def line_ok_def by (auto simp: wakeup1_eq cpu_ok_def cpus_wf_def)
  ultimately show ?thesis by blast
qed

lemma line_lengths:
  assumes "line_ok s"
  shows "length (ready s) = unat (in_w s - in_r s)" "length (pending s) = unat (in_e s - in_w s)"
    "length (ready s) + length (pending s) \<le> 128" "unat (in_e s - in_r s) = length (ready s) + length (pending s)"
proof -
  have l: "unat (in_w s - in_r s) + unat (in_e s - in_w s) \<le> 128" using assms by (simp add: line_ok_def)
  show "length (ready s) = unat (in_w s - in_r s)" "length (pending s) = unat (in_e s - in_w s)"
    by (simp_all add: ready_def pending_def)
  moreover have "unat ((in_w s - in_r s) + (in_e s - in_w s)) = unat (in_w s - in_r s) + unat (in_e s - in_w s)"
    using l by (intro unat_add_lem [THEN iffD1]) simp
  ultimately show "length (ready s) + length (pending s) \<le> 128" "unat (in_e s - in_r s) = length (ready s) + length (pending s)"
    using l by simp_all
qed

text \<open>Erasing the last character of the line.\<close>

lemma erase_edits:
  assumes s: "editing s" and ne: "in_e s \<noteq> in_w s"
  shows "\<exists>t. consputc BACKSPACE (s\<lparr>in_e := in_e s - 1\<rparr>) = Inr t \<and> edits s t \<and> ready t = ready s \<and>
    pending t = butlast (pending s) \<and> in_w t = in_w s \<and> in_e t = in_e s - 1"
proof -
  let ?s = "s\<lparr>in_e := in_e s - 1\<rparr>"
  have ok: "line_ok s" using s by (simp add: editing_def)
  have "in_e s - in_w s \<noteq> 0" using ne by simp
  then obtain n where n: "unat (in_e s - in_w s) = Suc n" "unat (in_e s - in_w s - 1) = n"
    by (metis not0_implies_Suc unat_eq_zero unat_minus_one diff_Suc_1)
  have p: "pending ?s = butlast (pending s)"
    using n by (simp add: pending_def ring_Suc algebra_simps)
  moreover have "ready ?s = ready s" by (rule ready_cong) simp_all
  moreover have "editing ?s" "edits s ?s"
    using s n p by (auto simp: edits_def editing_def line_ok_def cpu_ok_def cpus_wf_def algebra_simps dest: in_set_butlastD)
  ultimately obtain d where d: "consputc BACKSPACE ?s = Inr (?s\<lparr>con := d\<rparr>)" "edits ?s (?s\<lparr>con := d\<rparr>)"
      "ready (?s\<lparr>con := d\<rparr>) = ready s" "pending (?s\<lparr>con := d\<rparr>) = butlast (pending s)"
    using consputc_edits [of ?s BACKSPACE] by auto
  then show ?thesis using edits_trans [OF \<open>edits s ?s\<close>] by (intro exI [of _ "?s\<lparr>con := d\<rparr>"]) simp
qed

lemma last_pending:
  assumes "editing s" and "in_e s \<noteq> in_w s"
  shows "in_buf s (unat ((in_e s - 1) mod INPUT_BUF)) \<in> set (pending s)"
proof -
  have "in_e s - in_w s \<noteq> 0" using assms(2) by simp
  then obtain n where n: "unat (in_e s - in_w s) = Suc n" by (metis not0_implies_Suc unat_eq_zero)
  then have "of_nat (Suc n) = in_e s - in_w s" by (simp flip: n)
  then have "in_w s + of_nat n = in_e s - 1" by (simp add: algebra_simps)
  then show ?thesis using n by (simp add: pending_def ring_Suc)
qed

lemma kill_line_edits:
  "editing s \<Longrightarrow> n = length (pending s) \<Longrightarrow> \<exists>t. kill_line n s = Inr t \<and> edits s t \<and> ready t = ready s \<and> pending t = []"
proof (induction n arbitrary: s)
  case 0
  then show ?case by (auto intro: edits_refl)
next
  case (Suc n)
  then have ok: "line_ok s" by (simp add: editing_def)
  have ne: "in_e s \<noteq> in_w s" using Suc.prems line_lengths(2) [OF ok] by auto
  then have c: "in_buf s (unat ((in_e s - 1) mod INPUT_BUF)) \<noteq> 10"
    using last_pending [OF Suc.prems(1)] ok by (auto simp: line_ok_def)
  obtain t where t: "consputc BACKSPACE (s\<lparr>in_e := in_e s - 1\<rparr>) = Inr t" "edits s t" "ready t = ready s"
      "pending t = butlast (pending s)"
    using erase_edits [OF Suc.prems(1) ne] by blast
  have "editing t" "n = length (pending t)" using t Suc.prems by (auto simp: edits_def)
  then obtain u where "kill_line n t = Inr u" "edits t u" "ready u = ready t" "pending u = []" using Suc.IH by blast
  with t c show ?case by (auto intro: edits_trans)
qed

text \<open>A character that is not an editing key.\<close>

lemma small_word_eq:
  assumes "0 \<le> c" "c < 256" "0 \<le> k" "k < 256"
  shows "(of_int c :: uint) = of_int k \<longleftrightarrow> c = k"
proof -
  have "(of_int c :: uint) = of_int k \<longleftrightarrow> uint (of_int c :: uint) = uint (of_int k :: uint)" by (simp only: word_uint_eq_iff)
  then show ?thesis using assms by (simp add: uint_word_of_int)
qed

lemma full_ring:
  assumes "n \<le> 128"
  shows "a + of_nat n + 1 = a + (128 :: uint) \<longleftrightarrow> n = 127"
proof -
  have "a + of_nat n + 1 = a + (128 :: uint) \<longleftrightarrow> (of_int (int n) :: uint) = of_int 127"
    by (simp add: algebra_simps)
  then show ?thesis using small_word_eq [of "int n" 127] assms by simp
qed

lemma key_in_edits:
  assumes s: "editing s" and c: "0 \<le> c" "c < 256" "c \<notin> {8, 16, 21, 127}"
  shows "\<exists>t. key_in (of_int c) s = Inr t \<and> edits s t \<and> (ready t, pending t) = edit c (ready s, pending s)"
proof -
  have ok: "line_ok s" using s by (simp add: editing_def)
  note l = line_lengths [OF ok]
  have wc: "(of_int c :: uint) = of_int k \<longleftrightarrow> c = k" if "0 \<le> k" "k < 256" for k
    using small_word_eq c that by simp
  have full: "in_e s - in_r s < INPUT_BUF \<longleftrightarrow> length (ready s) + length (pending s) \<noteq> 128"
    using l(3,4) by (auto simp: word_less_nat_alt)
  show ?thesis
  proof (cases "c = 0 \<or> length (ready s) + length (pending s) = 128")
    case True
    then have "key_in (of_int c) s = Inr s" using full wc [of 0] by (auto simp: key_in_def)
    with True c s show ?thesis by (auto simp: edit_def intro: edits_refl)
  next
    case False
    define k :: int where "k = (if c = 13 then 10 else c)"
    have k: "0 \<le> k" "k < 256" using c by (simp_all add: k_def)
    let ?s = "s\<lparr>in_buf := (in_buf s)(unat (in_e s mod INPUT_BUF) := of_int k), in_e := in_e s + 1\<rparr>"
    have kk: "(if (of_int c :: uint) = 13 then 10 else of_int c) = (of_int k :: uint)" using wc [of 13] by (simp add: k_def)
    have e: "in_e s = in_r s + of_nat (length (ready s) + length (pending s))" "in_e s = in_w s + of_nat (length (pending s))"
    proof -
      have "of_nat (unat (in_e s - in_r s)) = in_e s - in_r s" "of_nat (unat (in_e s - in_w s)) = in_e s - in_w s" by simp_all
      then show "in_e s = in_r s + of_nat (length (ready s) + length (pending s))" "in_e s = in_w s + of_nat (length (pending s))"
        unfolding l(2) [symmetric] l(4) by (simp_all del: of_nat_add)
    qed
    have lt: "length (ready s) + length (pending s) < 128" using False l(3) by simp
    have "ring (in_buf ?s) (in_r s) (length (ready s)) = ring (in_buf s) (in_r s) (length (ready s))"
      using ring_upd [OF le_add1 lt, of "in_buf s" "in_r s" "of_int k"] e(1) by simp
    then have rd: "ready ?s = ready s" unfolding ready_def [of ?s] by (simp add: ready_def l(1))
    have np: "unat (in_e s - in_w s + 1) = Suc (length (pending s))"
      using l(2,3) by (simp add: unat_word_ariths)
    then have pd: "pending ?s = pending s @ [of_int k]"
    proof -
      have "length (pending s) < 128" using lt by simp
      then have "ring (in_buf ?s) (in_w s) (length (pending s)) = ring (in_buf s) (in_w s) (length (pending s))"
        using ring_upd [OF order_refl, of "length (pending s)" "in_buf s" "in_w s" "of_int k"] e(2) by simp
      moreover have "in_buf ?s (unat ((in_w s + of_nat (length (pending s))) mod INPUT_BUF)) = of_int k" using e(2) by simp
      moreover have "pending ?s = ring (in_buf ?s) (in_w s) (Suc (length (pending s)))"
        using np unfolding pending_def [of ?s] by (simp add: algebra_simps)
      ultimately show ?thesis unfolding ring_Suc by (simp add: pending_def l(2))
    qed
    obtain d where d: "consputc (of_int k) ?s = Inr (?s\<lparr>con := d\<rparr>)" "condev_ok d"
      using consputc_ok [of ?s "of_int k"] s by (auto simp: con_step_def editing_def)
    have ud: "uart d = uart (con s)" using consputc_uart [OF d(1)] by simp
    have uc: "(ucast (of_int k :: uint) :: uchar) = of_int k"
      by (rule bit_word_eqI) (simp add: bit_ucast_iff bit_word_of_int_iff)
    have fu: "in_e s + 1 = in_r s + INPUT_BUF \<longleftrightarrow> length (ready s) + length (pending s) = 127"
      using full_ring [of "length (ready s) + length (pending s)" "in_r s"] l(3) e(1) by simp
    have k10: "(of_int k :: uint) = 10 \<longleftrightarrow> k = 10" "(of_int k :: uint) = 4 \<longleftrightarrow> k = 4"
      using small_word_eq [of k 10] small_word_eq [of k 4] k by simp_all
    let ?commit = "k = 10 \<or> k = 4 \<or> length (ready s) + length (pending s) = 127"
    have key: "key_in (of_int c) s = (if ?commit then wakeup Ch_input (?s\<lparr>con := d, in_w := in_e s + 1\<rparr>) else Inr (?s\<lparr>con := d\<rparr>))"
      using False full wc [of 0] kk d(1) uc fu k10 by (simp add: key_in_def Let_def)
    have ed: "edit c (ready s, pending s) =
        (if ?commit then (ready s @ pending s @ [of_int k], []) else (ready s, pending s @ [of_int k]))"
      using False c by (simp add: edit_def Let_def flip: k_def)
    show ?thesis
    proof (cases ?commit)
      case True
      let ?t = "?s\<lparr>con := d, in_w := in_e s + 1\<rparr>"
      have nt: "unat (in_e s - in_r s + 1) = length (ready s) + Suc (length (pending s))"
        using l(3,4) by (simp add: unat_word_ariths)
      have w: "in_r s + of_nat (length (ready s)) = in_w s" by (simp add: l(1))
      have "ready ?t = ring (in_buf ?s) (in_r s) (length (ready s) + Suc (length (pending s)))"
        using nt unfolding ready_def [of ?t] by (simp add: algebra_simps)
      then have "ready ?t = ready ?s @ pending ?s"
        using np unfolding ring_add w ready_def [of ?s] pending_def [of ?s] by (simp add: l(1) algebra_simps)
      then have t: "ready ?t = ready s @ pending s @ [of_int k]" "pending ?t = []"
        using rd pd by (simp_all add: pending_def ring_def)
      have "line_ok ?t" using nt l(3) False t by (simp add: line_ok_def algebra_simps)
      then have "edits s ?t" "editing ?t"
        using s d(2) ud by (auto simp: edits_def editing_def cpu_ok_def cpus_wf_def)
      then show ?thesis using wakeup_edits [of ?t Ch_input] t True by (auto simp: key ed intro: edits_trans)
    next
      case nc: False
      let ?t = "?s\<lparr>con := d\<rparr>"
      have t: "ready ?t = ready s" "pending ?t = pending s @ [of_int k]"
        using rd pd ready_cong [of ?t ?s] pending_cong [of ?t ?s] by simp_all
      have "(of_int k :: uchar) \<noteq> 10"
      proof
        assume "(of_int k :: uchar) = 10"
        then have "uint (of_int k :: uchar) = 10" by simp
        with nc k show False by (simp add: uint_word_of_int)
      qed
      then have "line_ok ?t" using np l False t ok by (simp add: line_ok_def algebra_simps)
      then have "edits s ?t" using s d(2) ud by (auto simp: edits_def editing_def cpu_ok_def cpus_wf_def)
      then show ?thesis using t nc by (auto simp: key ed)
    qed
  qed
qed

section \<open>Sources of characters\<close>

text \<open>
  What \<open>consoleintr\<close> relies on: \<open>getc\<close> delivers the characters that wait in its device one by one,
  changes nothing but the device, and reports the end.
\<close>

locale char_source =
  fixes getc :: "'a conin_scheme \<Rightarrow> int \<times> 'a conin_scheme" and chars :: "'a conin_scheme \<Rightarrow> int list"
  assumes getc_none: "chars s = [] \<Longrightarrow> getc s = (- 1, s)"
    and getc_some: "chars s = c # cs \<Longrightarrow> \<exists>k h u. getc s = (c, s\<lparr>kbd_in := k, kbd_shift := h, uart_in := u\<rparr>) \<and>
      chars (s\<lparr>kbd_in := k, kbd_shift := h, uart_in := u\<rparr>) = cs"
    and chars_range: "c \<in> set (chars s) \<Longrightarrow> 0 \<le> c \<and> c < 256"
    and chars_cong: "kbd_in t = kbd_in s \<Longrightarrow> kbd_shift t = kbd_shift s \<Longrightarrow> uart_in t = uart_in s \<Longrightarrow>
      uart (con t) = uart (con s) \<Longrightarrow> chars t = chars s"
begin

lemma edit_step:
  assumes s: "editing s" and c: "chars s = c # cs" and n: "length (chars s) < Suc n"
  shows "\<exists>t. consoleintr_loop (Suc n) getc d s = consoleintr_loop n getc (d \<or> c = 16) t \<and> editing t \<and> chars t = cs \<and>
    (ready t, pending t) = edit c (ready s, pending s) \<and> cpus t = cpus s \<and> locks t = locks s \<and>
    this_cpu t = this_cpu s \<and> ncpu t = ncpu s \<and> lapic_id t = lapic_id s \<and> cons_locking t = cons_locking s"
proof -
  obtain k h u where g: "getc s = (c, s\<lparr>kbd_in := k, kbd_shift := h, uart_in := u\<rparr>)"
      "chars (s\<lparr>kbd_in := k, kbd_shift := h, uart_in := u\<rparr>) = cs"
    using getc_some [OF c] by blast
  let ?s = "s\<lparr>kbd_in := k, kbd_shift := h, uart_in := u\<rparr>"
  have r: "0 \<le> c" "c < 256" using chars_range [of c s] c by simp_all
  have same: "ready ?s = ready s" "pending ?s = pending s"
    by (rule ready_cong, simp_all) (rule pending_cong, simp_all)
  have e: "editing ?s" using s same by (auto simp: editing_def line_ok_def cpu_ok_def cpus_wf_def)
  have go: ?thesis if "consoleintr_loop (Suc n) getc d s = consoleintr_loop n getc (d \<or> c = 16) t" "edits ?s t"
      "(ready t, pending t) = edit c (ready ?s, pending ?s)" for t
  proof -
    have "chars t = cs" using that(2) chars_cong [of t ?s] g(2) by (simp add: edits_def)
    with that same show ?thesis by (intro exI [of _ t]) (simp add: edits_def)
  qed
  consider "c = 16" | "c = 21" | "c = 8 \<or> c = 127" "in_e ?s \<noteq> in_w ?s" | "c = 8 \<or> c = 127" "in_e ?s = in_w ?s" |
    "c \<notin> {8, 16, 21, 127}" by blast
  then show ?thesis
  proof cases
    case 1
    then show ?thesis using e g r by (intro go [of ?s]) (simp_all add: edits_refl edit_def)
  next
    case 2
    have "unat (in_e ?s - in_w ?s) = length (pending ?s)" using e line_lengths(2) [of ?s] by (simp add: editing_def)
    then obtain t where t: "kill_line (unat (in_e ?s - in_w ?s)) ?s = Inr t" "edits ?s t" "ready t = ready ?s" "pending t = []"
      using kill_line_edits [OF e refl] by metis
    then show ?thesis using 2 g r by (intro go [of t]) (simp_all add: edit_def)
  next
    case 3
    obtain t where t: "consputc BACKSPACE (?s\<lparr>in_e := in_e ?s - 1\<rparr>) = Inr t" "edits ?s t" "ready t = ready ?s"
        "pending t = butlast (pending ?s)"
      using erase_edits [OF e 3(2)] by blast
    have "consoleintr_loop (Suc n) getc d s = consoleintr_loop n getc (d \<or> c = 16) t" using 3 g r t(1) by auto
    then show ?thesis using 3 t by (intro go [of t]) (auto simp: edit_def)
  next
    case 4
    have "length (pending ?s) = 0" using 4(2) e line_lengths(2) [of ?s] by (simp add: editing_def)
    moreover have "consoleintr_loop (Suc n) getc d s = consoleintr_loop n getc (d \<or> c = 16) ?s" using 4 g r by auto
    ultimately show ?thesis using 4 e by (intro go [of ?s]) (auto simp: edit_def edits_refl)
  next
    case 5
    obtain t where t: "key_in (of_int c) ?s = Inr t" "edits ?s t" "(ready t, pending t) = edit c (ready ?s, pending ?s)"
      using key_in_edits [OF e r 5] by blast
    have "consoleintr_loop (Suc n) getc d s = consoleintr_loop n getc (d \<or> c = 16) t" using 5 g r t(1) by simp
    then show ?thesis using t by (intro go [of t]) simp_all
  qed
qed

lemma edit_loop:
  "editing s \<Longrightarrow> length (chars s) < n \<Longrightarrow>
   \<exists>t. consoleintr_loop n getc d s = Inr (d \<or> 16 \<in> set (chars s), t) \<and> editing t \<and> chars t = [] \<and>
     (ready t, pending t) = fold edit (chars s) (ready s, pending s) \<and> cpus t = cpus s \<and> locks t = locks s \<and>
     this_cpu t = this_cpu s \<and> ncpu t = ncpu s \<and> lapic_id t = lapic_id s \<and> cons_locking t = cons_locking s"
proof (induction n arbitrary: s d)
  case (Suc n)
  show ?case
  proof (cases "chars s")
    case Nil
    with Suc.prems getc_none [OF Nil] show ?thesis by auto
  next
    case (Cons c cs)
    obtain t where t: "consoleintr_loop (Suc n) getc d s = consoleintr_loop n getc (d \<or> c = 16) t" "editing t" "chars t = cs"
        "(ready t, pending t) = edit c (ready s, pending s)" "cpus t = cpus s" "locks t = locks s"
        "this_cpu t = this_cpu s" "ncpu t = ncpu s" "lapic_id t = lapic_id s" "cons_locking t = cons_locking s"
      using edit_step [OF Suc.prems(1) Cons Suc.prems(2)] by blast
    have "length (chars t) < n" using Suc.prems(2) Cons t(3) by simp
    from Suc.IH [OF t(2) this, of "d \<or> c = 16"] obtain u where u: "consoleintr_loop n getc (d \<or> c = 16) t = Inr ((d \<or> c = 16) \<or> 16 \<in> set cs, u)"
        "editing u" "chars u = []" "(ready u, pending u) = fold edit cs (ready t, pending t)" "cpus u = cpus t" "locks u = locks t"
        "this_cpu u = this_cpu t" "ncpu u = ncpu t" "lapic_id u = lapic_id t" "cons_locking u = cons_locking t"
      unfolding t(3) by blast
    have "((d \<or> c = 16) \<or> 16 \<in> set cs) = (d \<or> 16 \<in> set (chars s))" using Cons by auto
    then show ?thesis using t u Cons by (intro exI [of _ u]) simp
  qed
qed simp

lemma edit_interrupt:
  assumes s: "inside p H s" "L_ptable \<notin> H" and l: "line_ok s" and n: "length (chars s) < n" and d: "16 \<notin> set (chars s)"
  shows "\<exists>t. consoleintr n getc s = Inr t \<and> line_ok t \<and> chars t = [] \<and>
    (ready t, pending t) = fold edit (chars s) (ready s, pending s) \<and> locks t = locks s"
proof -
  let ?a = "acquired L_cons s"
  have f: "cpu_ok s" "free_lock L_cons s" "free_lock L_ptable s" "\<not> panicked s" "condev_ok (con s)"
    using s by (auto simp: inside_def con_ok_def)
  have a: "ready ?a = ready s" "pending ?a = pending s" "chars ?a = chars s"
    by (rule ready_cong pending_cong chars_cong; simp add: acquired_def upd_cpu_def)+
  have "0 < ncli (cur ?a)" using cpu_ok_ncli [OF f(1)] by simp
  then have "editing ?a"
    using f l a cpu_ok_acquired [OF f(1)] by (auto simp: editing_def line_ok_def acquired_def upd_cpu_def)
  from edit_loop [OF this, of n False] n d obtain t where t: "consoleintr_loop n getc False ?a = Inr (False, t)" "editing t"
      "chars t = []" "(ready t, pending t) = fold edit (chars s) (ready s, pending s)" "cpus t = cpus ?a" "locks t = locks ?a"
      "this_cpu t = this_cpu ?a" "ncpu t = ncpu ?a" "lapic_id t = lapic_id ?a"
    unfolding a by auto
  let ?t = "t\<lparr>cpus := (cpus s)(this_cpu s := sync_cpu (cur s)), locks := locks s\<rparr>"
  have "release L_cons t = Inr ?t" using t by (intro crit_exit [OF f(1,2)]) simp_all
  then have "consoleintr n getc s = Inr ?t" using t(1) acquire_eq [OF f(1,2)] by (simp add: consoleintr_def)
  moreover have u: "ready ?t = ready t" "pending ?t = pending t" "chars ?t = chars t"
    by (rule ready_cong pending_cong chars_cong; simp)+
  moreover have "line_ok ?t" using t(2) u by (simp add: editing_def line_ok_def)
  ultimately show ?thesis using t(3,4) by (intro exI [of _ ?t]) simp
qed

end

section \<open>Keyboard and serial line\<close>

primrec decode_all :: "uint \<Rightarrow> uchar list \<Rightarrow> int list" where
  "decode_all h [] = []"
| "decode_all h (b # bs) = (case kbd_decode h (unat b) of (c, h) \<Rightarrow> uint c # decode_all h bs)"

definition kbd_chars :: "'a conin_scheme \<Rightarrow> int list" where
  "kbd_chars s = decode_all (kbd_shift s) (kbd_in s)"

definition uart_chars :: "'a conin_scheme \<Rightarrow> int list" where
  "uart_chars s = (if uart (con s) then map uint (uart_in s) else [])"

lemma length_decode_all [simp]: "length (decode_all h bs) = length bs"
  by (induction bs arbitrary: h) (simp_all split: prod.split)

lemma list_all_replicate [simp]: "list_all P (replicate n x) \<longleftrightarrow> n = 0 \<or> P x"
  by (induction n) auto

lemma row_less: "list_all (\<lambda>x. x < 256) row \<Longrightarrow> \<forall>x. f x < 256 \<Longrightarrow> (if d < length row then row ! d else f d) < (256 :: uint)"
  by (simp add: list_all_length)

lemma ext_key_less: "e < 256 \<Longrightarrow> l < 256 \<Longrightarrow> ext_key e l d < 256"
  by (simp add: ext_key_def)

lemma charcode_less: "charcode m d < 256"
proof -
  have "normalmap d < 256" unfolding normalmap_def Let_def
    by (rule row_less) (simp_all add: key_row_def ext_key_less)
  moreover have "shiftmap d < 256" unfolding shiftmap_def Let_def
    by (rule row_less) (simp_all add: key_row_def ext_key_less)
  moreover have "ctlmap d < 256"
  proof -
    have "x AND 0xFF < 256" for x :: uint by (rule le_less_trans [OF word_and_le1]) simp
    then show ?thesis by (simp add: ctlmap_def Let_def ext_key_less)
  qed
  ultimately show ?thesis by (simp add: charcode_def)
qed

lemma kbd_decode_less: "fst (kbd_decode h d) < 256"
proof -
  have "c - 32 < 256" if "97 \<le> c" "c \<le> 122" for c :: uint using that by (simp add: word_less_nat_alt word_le_nat_alt unat_sub)
  moreover have "c + 32 < 256" if "c \<le> 90" for c :: uint using that by (simp add: word_less_nat_alt word_le_nat_alt unat_word_ariths)
  ultimately show ?thesis using charcode_less by (simp add: kbd_decode_def Let_def)
qed

interpretation kbd: char_source kbdgetc kbd_chars
proof
  fix s t :: "'a conin_scheme" and c cs
  show "kbd_chars s = [] \<Longrightarrow> kbdgetc s = (- 1, s)"
    by (cases "kbd_in s") (simp_all add: kbd_chars_def kbdgetc_def split: prod.splits)
  show "\<exists>k h u. kbdgetc s = (c, s\<lparr>kbd_in := k, kbd_shift := h, uart_in := u\<rparr>) \<and>
      kbd_chars (s\<lparr>kbd_in := k, kbd_shift := h, uart_in := u\<rparr>) = cs" if e: "kbd_chars s = c # cs"
  proof -
    obtain b bs where b: "kbd_in s = b # bs" using e by (cases "kbd_in s") (simp_all add: kbd_chars_def)
    obtain x h where x: "kbd_decode (kbd_shift s) (unat b) = (x, h)" by fastforce
    have "kbdgetc s = (c, s\<lparr>kbd_in := bs, kbd_shift := h, uart_in := uart_in s\<rparr>)"
      "kbd_chars (s\<lparr>kbd_in := bs, kbd_shift := h, uart_in := uart_in s\<rparr>) = cs"
      using e b x by (simp_all add: kbd_chars_def kbdgetc_def)
    then show ?thesis by blast
  qed
  show "0 \<le> c \<and> c < 256" if "c \<in> set (kbd_chars s)"
  proof -
    have "\<forall>c\<in>set (decode_all h bs). 0 \<le> c \<and> c < 256" for h bs
    proof (induction bs arbitrary: h)
      case (Cons b bs)
      have "fst (kbd_decode h (unat b)) < 256" by (rule kbd_decode_less)
      then have "uint (fst (kbd_decode h (unat b))) < 256" by (simp add: word_less_def)
      with Cons show ?case by (cases "kbd_decode h (unat b)") simp
    qed simp
    with that show ?thesis by (simp add: kbd_chars_def)
  qed
  show "kbd_chars t = kbd_chars s" if "kbd_in t = kbd_in s" "kbd_shift t = kbd_shift s"
    using that by (simp add: kbd_chars_def)
qed

interpretation serial: char_source uartgetc uart_chars
proof
  fix s t :: "'a conin_scheme" and c cs
  show "uart_chars s = [] \<Longrightarrow> uartgetc s = (- 1, s)"
    by (auto simp: uart_chars_def uartgetc_def split: if_splits list.splits)
  show "\<exists>k h u. uartgetc s = (c, s\<lparr>kbd_in := k, kbd_shift := h, uart_in := u\<rparr>) \<and>
      uart_chars (s\<lparr>kbd_in := k, kbd_shift := h, uart_in := u\<rparr>) = cs" if e: "uart_chars s = c # cs"
  proof -
    obtain b bs where b: "uart_in s = b # bs" "uart (con s)" "c = uint b" "cs = map uint bs"
      using e by (auto simp: uart_chars_def split: if_splits)
    then have "uartgetc s = (c, s\<lparr>kbd_in := kbd_in s, kbd_shift := kbd_shift s, uart_in := bs\<rparr>)"
      "uart_chars (s\<lparr>kbd_in := kbd_in s, kbd_shift := kbd_shift s, uart_in := bs\<rparr>) = cs"
      by (simp_all add: uart_chars_def uartgetc_def)
    then show ?thesis by blast
  qed
  show "0 \<le> c \<and> c < 256" if "c \<in> set (uart_chars s)"
    using that by (auto simp: uart_chars_def split: if_splits intro: order.strict_trans2 [OF uint_lt2p])
  show "uart_chars t = uart_chars s" if "uart_in t = uart_in s" "uart (con t) = uart (con s)"
    using that by (simp add: uart_chars_def)
qed



end
