(* ===== verification/Fs.thy ===== *)
theory Fs
  imports Conin
begin

text \<open>
  The upper half of \<open>fs.c\<close>: reading and writing inodes, directories and path names. A C string is
  the list of its bytes, without the final zero.
\<close>

section \<open>Reading and writing\<close>

definition slice :: "block \<Rightarrow> nat \<Rightarrow> nat \<Rightarrow> uchar list" where
  "slice d off n = map (\<lambda>i. d (off + i)) [0..<n]"

definition splice :: "block \<Rightarrow> nat \<Rightarrow> uchar list \<Rightarrow> block" where
  "splice d off bs = (\<lambda>i. if off \<le> i \<and> i < off + length bs then bs ! (i - off) else d i)"

text \<open>The size of the next transfer of the loops of \<open>readi\<close> and \<open>writei\<close>.\<close>

definition chunk :: "uint \<Rightarrow> uint \<Rightarrow> uint \<Rightarrow> uint" where
  "chunk off tot n = min (n - tot) (BSIZE - off mod BSIZE)"

lemma chunk_progress:
  assumes "tot < n"
  shows "unat (n - (tot + chunk off tot n)) < unat (n - tot)"
proof -
  have "off mod 512 < 512" by (simp add: word_mod_less_divisor)
  then have "BSIZE - off mod BSIZE \<noteq> 0" by auto
  moreover have "n - tot \<noteq> 0" using assms by auto
  ultimately have "chunk off tot n \<noteq> 0" "chunk off tot n \<le> n - tot"
    by (auto simp: chunk_def min_def)
  moreover from this have "0 < unat (chunk off tot n)" by (simp add: unat_gt_0)
  ultimately have "unat (n - tot - chunk off tot n) < unat (n - tot)"
    by (simp add: unat_sub word_le_nat_alt)
  then show ?thesis by (simp add: algebra_simps)
qed

function readi_loop :: "nat \<Rightarrow> dst \<Rightarrow> uint \<Rightarrow> uint \<Rightarrow> uint \<Rightarrow> ('a conin_scheme, uchar list) thr" where
  "readi_loop ip d off tot n =
     (if tot < n
      then tbnd (inode_of ip) (\<lambda>x.
           tbnd (bmap ip (unat (off div BSIZE))) (\<lambda>addr.
           tbnd (bread (i_dev x) addr) (\<lambda>bp.
           tbnd (look (\<lambda>s. slice (b_data (bufs s bp)) (unat (off mod BSIZE)) (unat (chunk off tot n)))) (\<lambda>bs.
           tseq (deliver d (unat tot) bs)
           (tseq (brelse bp)
           (tbnd (readi_loop ip d (off + chunk off tot n) (tot + chunk off tot n) n) (\<lambda>cs.
            ret (bs @ cs))))))))
      else ret [])"
  by pat_completeness auto
termination
  by (relation "measure (\<lambda>(ip, d, off, tot, n). unat (n - tot))") (simp_all add: chunk_progress)

declare readi_loop.simps [simp del]

text \<open>\<open>readi\<close>: the return value, and the bytes that were read.\<close>

definition readi :: "nat \<Rightarrow> dst \<Rightarrow> uint \<Rightarrow> uint \<Rightarrow> ('a conin_scheme, int \<times> uchar list) thr" where
  "readi ip d off n =
     tbnd (inode_of ip) (\<lambda>x.
     if i_type x = T_DEV
     then tbnd (look devsw) (\<lambda>dv.
          if sint (i_major x) < 0 \<or> sint (i_major x) \<ge> 10 \<or> \<not> dv (unat (i_major x)) then ret (- 1, [])
          else consoleread ip d (sint n))
     else if off > i_size x \<or> off + n < off then ret (- 1, [])
     else let n = (if off + n > i_size x then i_size x - off else n)
          in tbnd (readi_loop ip d off 0 n) (\<lambda>bs. ret (sint n, bs)))"

function writei_loop :: "nat \<Rightarrow> src \<Rightarrow> uint \<Rightarrow> uint \<Rightarrow> uint \<Rightarrow> ('a conin_scheme, uint) thr" where
  "writei_loop ip d off tot n =
     (if tot < n
      then tbnd (inode_of ip) (\<lambda>x.
           tbnd (bmap ip (unat (off div BSIZE))) (\<lambda>addr.
           tbnd (bread (i_dev x) addr) (\<lambda>bp.
           tbnd (fetch d (unat tot) (unat (chunk off tot n))) (\<lambda>bs.
           tseq (modify (upd_buf bp (\<lambda>y. y\<lparr>b_data := splice (b_data y) (unat (off mod BSIZE)) bs\<rparr>)))
           (tseq (act (log_write bp))
           (tseq (brelse bp)
           (writei_loop ip d (off + chunk off tot n) (tot + chunk off tot n) n)))))))
      else ret off)"
  by pat_completeness auto
termination
  by (relation "measure (\<lambda>(ip, d, off, tot, n). unat (n - tot))") (simp_all add: chunk_progress)

declare writei_loop.simps [simp del]

definition writei :: "nat \<Rightarrow> src \<Rightarrow> uint \<Rightarrow> uint \<Rightarrow> ('a conin_scheme, int) thr" where
  "writei ip d off n =
     tbnd (inode_of ip) (\<lambda>x.
     if i_type x = T_DEV
     then tbnd (look devsw) (\<lambda>dv.
          if sint (i_major x) < 0 \<or> sint (i_major x) \<ge> 10 \<or> \<not> dv (unat (i_major x)) then ret (- 1)
          else consolewrite ip d (sint n))
     else if off > i_size x \<or> off + n < off then ret (- 1)
     else if off + n > 140 * BSIZE then ret (- 1)
     else tbnd (writei_loop ip d off 0 n) (\<lambda>off.
          tbnd (inode_of ip) (\<lambda>x.
          tseq (if n > 0 \<and> off > i_size x
                then tseq (set_inode ip (\<lambda>x. x\<lparr>i_size := off\<rparr>)) (iupdate ip)
                else ret ())
          (ret (sint n)))))"

section \<open>Directories\<close>

text \<open>\<open>strncmp\<close> on the bytes of two strings, where the list ends at the final zero.\<close>

fun lstrncmp :: "nat \<Rightarrow> uchar list \<Rightarrow> uchar list \<Rightarrow> int" where
  "lstrncmp 0 s t = 0"
| "lstrncmp (Suc n) s t =
     (let p = (case s of [] \<Rightarrow> 0 | a # _ \<Rightarrow> a); q = (case t of [] \<Rightarrow> 0 | b # _ \<Rightarrow> b)
      in if p \<noteq> 0 \<and> p = q then lstrncmp n (tl s) (tl t) else uint p - uint q)"

abbreviation (input) DIRSIZ :: nat where "DIRSIZ \<equiv> 14"

definition namecmp :: "uchar list \<Rightarrow> uchar list \<Rightarrow> int" where
  "namecmp s t = lstrncmp DIRSIZ s t"

text \<open>A directory entry: two bytes of inode number and 14 bytes of name.\<close>

definition de_inum :: "uchar list \<Rightarrow> uint" where
  "de_inum bs = ucast (bs ! 0) OR push_bit 8 (ucast (bs ! 1))"

definition de_name :: "uchar list \<Rightarrow> uchar list" where
  "de_name bs = take DIRSIZ (drop 2 bs)"

definition dirent :: "uint \<Rightarrow> uchar list \<Rightarrow> uchar list" where
  "dirent inum name = [ucast inum, ucast (drop_bit 8 inum)] @ take DIRSIZ (name @ replicate DIRSIZ 0)"

definition read_dirent :: "nat \<Rightarrow> nat \<Rightarrow> string \<Rightarrow> ('a conin_scheme, uchar list) thr" where
  "read_dirent dp off msg =
     tbnd (readi dp Loc (of_nat off) 16) (\<lambda>(r, bs).
     tseq (panic_when (r \<noteq> 16) msg) (ret bs))"

definition dir_offsets :: "inode \<Rightarrow> nat list" where
  "dir_offsets x = map (\<lambda>k. 16 * k) [0..<(unat (i_size x) + 15) div 16]"

text \<open>\<open>dirlookup\<close>: the inode and the offset of its entry.\<close>

definition dirlookup_at :: "nat \<Rightarrow> uchar list \<Rightarrow> nat \<Rightarrow> ('a conin_scheme, (nat \<times> uint) option) thr" where
  "dirlookup_at dp name off =
     tbnd (read_dirent dp off ''dirlookup read'') (\<lambda>de.
     if de_inum de = 0 then ret None
     else if namecmp name (de_name de) = 0
     then tbnd (inode_of dp) (\<lambda>x.
          tbnd (ask (iget (i_dev x) (de_inum de))) (\<lambda>ip. ret (Some (ip, of_nat off))))
     else ret None)"

definition dirlookup :: "nat \<Rightarrow> uchar list \<Rightarrow> ('a conin_scheme, (nat \<times> uint) option) thr" where
  "dirlookup dp name =
     tbnd (inode_of dp) (\<lambda>x.
     tseq (panic_when (i_type x \<noteq> T_DIR) ''dirlookup not DIR'')
     (tfind (dirlookup_at dp name) (dir_offsets x)))"

definition dirlink :: "nat \<Rightarrow> uchar list \<Rightarrow> uint \<Rightarrow> ('a conin_scheme, int) thr" where
  "dirlink dp name inum =
     tbnd (dirlookup dp name) (\<lambda>r.
     case r of
       Some (ip, _) \<Rightarrow> tseq (iput ip) (ret (- 1))
     | None \<Rightarrow>
         tbnd (inode_of dp) (\<lambda>x.
         tbnd (tfind (\<lambda>off. tbnd (read_dirent dp off ''dirlink read'') (\<lambda>de.
                 ret (if de_inum de = 0 then Some off else None))) (dir_offsets x)) (\<lambda>r.
         let off = (case r of Some off \<Rightarrow> off | None \<Rightarrow> 16 * length (dir_offsets x))
         in tbnd (writei dp (Bytes (dirent inum name)) (of_nat off) 16) (\<lambda>r.
            tseq (panic_when (r \<noteq> 16) ''dirlink'') (ret 0)))))"

section \<open>Path names\<close>

abbreviation (input) slash :: uchar where "slash \<equiv> 47"

text \<open>\<open>skipelem\<close>: the element, cut to \<open>DIRSIZ\<close> bytes, and the rest of the path.\<close>

definition skipelem :: "uchar list \<Rightarrow> (uchar list \<times> uchar list) option" where
  "skipelem path =
     (let path = dropWhile (\<lambda>c. c = slash) path
      in if path = [] then None
         else Some (take DIRSIZ (takeWhile (\<lambda>c. c \<noteq> slash) path),
                    dropWhile (\<lambda>c. c = slash) (dropWhile (\<lambda>c. c \<noteq> slash) path)))"

lemma length_dropWhile_less: "xs \<noteq> [] \<Longrightarrow> P (hd xs) \<Longrightarrow> length (dropWhile P xs) < length xs"
  by (cases xs) (auto simp: le_imp_less_Suc length_dropWhile_le)

lemma skipelem_shorter: "skipelem path = Some (name, rest) \<Longrightarrow> length rest < length path"
proof -
  assume s: "skipelem path = Some (name, rest)"
  let ?p = "dropWhile (\<lambda>c. c = slash) path"
  have p: "?p \<noteq> []" "rest = dropWhile (\<lambda>c. c = slash) (dropWhile (\<lambda>c. c \<noteq> slash) ?p)"
    using s by (auto simp: skipelem_def Let_def split: if_splits)
  have "hd ?p \<noteq> slash" using hd_dropWhile [OF p(1)] .
  then have "length (dropWhile (\<lambda>c. c \<noteq> slash) ?p) < length ?p" by (rule length_dropWhile_less [OF p(1)])
  then show ?thesis
    using length_dropWhile_le [of "\<lambda>c. c = slash" path]
      length_dropWhile_le [of "\<lambda>c. c = slash" "dropWhile (\<lambda>c. c \<noteq> slash) ?p"]
    unfolding p(2) by linarith
qed

function namex_loop :: "bool \<Rightarrow> uchar list \<Rightarrow> uchar list \<Rightarrow> nat \<Rightarrow> ('a conin_scheme, (nat \<times> uchar list) option) thr" where
  "namex_loop par path elem ip =
     (case skipelem path of
        None \<Rightarrow> if par then tseq (iput ip) (ret None) else ret (Some (ip, elem))
      | Some (name, rest) \<Rightarrow>
          tseq (ilock (Some ip))
          (tbnd (inode_of ip) (\<lambda>x.
           if i_type x \<noteq> T_DIR then tseq (iunlockput ip) (ret None)
           else if par \<and> rest = [] then tseq (iunlock (Some ip)) (ret (Some (ip, name)))
           else tbnd (dirlookup ip name) (\<lambda>r.
                case r of
                  None \<Rightarrow> tseq (iunlockput ip) (ret None)
                | Some (next, _) \<Rightarrow> tseq (iunlockput ip) (namex_loop par rest name next)))))"
  by pat_completeness auto
termination
  by (relation "measure (\<lambda>(par, path, elem, ip). length path)") (auto dest: skipelem_shorter)

declare namex_loop.simps [simp del]

definition namex :: "uchar list \<Rightarrow> bool \<Rightarrow> ('a conin_scheme, (nat \<times> uchar list) option) thr" where
  "namex path par =
     tbnd (if path \<noteq> [] \<and> hd path = slash then ask (iget 1 1)
           else tbnd (ask curproc) (\<lambda>p.
                tbnd (look (\<lambda>s. p_cwd (procs s p))) (\<lambda>cwd.
                tbnd (need cwd ''null pointer'') (\<lambda>c. ask (idup c))))) (\<lambda>ip.
     namex_loop par path [] ip)"

definition namei :: "uchar list \<Rightarrow> ('a conin_scheme, nat option) thr" where
  "namei path = tbnd (namex path False) (\<lambda>r. ret (map_option fst r))"

definition nameiparent :: "uchar list \<Rightarrow> ('a conin_scheme, (nat \<times> uchar list) option) thr" where
  "nameiparent path = namex path True"

section \<open>Path names as lists of elements\<close>

text \<open>The elements of a path: the non-empty pieces between slashes, cut to \<open>DIRSIZ\<close> bytes.\<close>

fun pieces :: "uchar list \<Rightarrow> uchar list list" where
  "pieces [] = [[]]"
| "pieces (c # cs) = (if c = slash then [] # pieces cs
     else (case pieces cs of w # ws \<Rightarrow> (c # w) # ws | [] \<Rightarrow> [[c]]))"

definition elements :: "uchar list \<Rightarrow> uchar list list" where
  "elements path = map (take DIRSIZ) (filter (\<lambda>w. w \<noteq> []) (pieces path))"

text \<open>The walk that a path name stands for, along its elements.\<close>

fun walk :: "bool \<Rightarrow> uchar list list \<Rightarrow> uchar list \<Rightarrow> nat \<Rightarrow> ('a conin_scheme, (nat \<times> uchar list) option) thr" where
  "walk par [] elem ip = (if par then tseq (iput ip) (ret None) else ret (Some (ip, elem)))"
| "walk par (name # names) elem ip =
     tseq (ilock (Some ip))
     (tbnd (inode_of ip) (\<lambda>x.
      if i_type x \<noteq> T_DIR then tseq (iunlockput ip) (ret None)
      else if par \<and> names = [] then tseq (iunlock (Some ip)) (ret (Some (ip, name)))
      else tbnd (dirlookup ip name) (\<lambda>r.
           case r of
             None \<Rightarrow> tseq (iunlockput ip) (ret None)
           | Some (next, _) \<Rightarrow> tseq (iunlockput ip) (walk par names name next))))"

lemma pieces_not_Nil [simp]: "pieces cs \<noteq> []"
  by (induction cs) (auto split: list.split)

lemma pieces_split: "\<exists>ws. pieces cs = takeWhile (\<lambda>c. c \<noteq> slash) cs # ws \<and>
    elements (dropWhile (\<lambda>c. c \<noteq> slash) cs) = map (take DIRSIZ) (filter (\<lambda>w. w \<noteq> []) ws)"
proof (induction cs)
  case Nil
  then show ?case by (simp add: elements_def)
next
  case (Cons c cs)
  then show ?case by (auto simp: elements_def)
qed

lemma elements_skip_slashes: "elements (dropWhile (\<lambda>c. c = slash) cs) = elements cs"
  by (induction cs) (simp_all add: elements_def)

lemma elements_Nil: "elements [] = []"
  by (simp add: elements_def)

lemma elements_piece:
  assumes "cs \<noteq> []" and "hd cs \<noteq> slash"
  shows "elements cs = take DIRSIZ (takeWhile (\<lambda>c. c \<noteq> slash) cs) # elements (dropWhile (\<lambda>c. c \<noteq> slash) cs)"
proof -
  obtain ws where ws: "pieces cs = takeWhile (\<lambda>c. c \<noteq> slash) cs # ws"
      "elements (dropWhile (\<lambda>c. c \<noteq> slash) cs) = map (take DIRSIZ) (filter (\<lambda>w. w \<noteq> []) ws)"
    using pieces_split by blast
  have "takeWhile (\<lambda>c. c \<noteq> slash) cs \<noteq> []" using assms by (cases cs) auto
  then have "elements cs = take DIRSIZ (takeWhile (\<lambda>c. c \<noteq> slash) cs) # map (take DIRSIZ) (filter (\<lambda>w. w \<noteq> []) ws)"
    unfolding elements_def ws(1) by simp
  with ws(2) show ?thesis by simp
qed

lemma skipelem_elements:
  "elements path = (case skipelem path of None \<Rightarrow> [] | Some (name, rest) \<Rightarrow> name # elements rest)"
proof -
  let ?p = "dropWhile (\<lambda>c. c = slash) path"
  have e: "elements path = elements ?p" by (simp add: elements_skip_slashes)
  show ?thesis
  proof (cases "?p = []")
    case True
    with e show ?thesis by (simp add: skipelem_def elements_Nil)
  next
    case False
    have "hd ?p \<noteq> slash" using hd_dropWhile [OF False] .
    with elements_piece [OF False] False show ?thesis
      unfolding e by (simp add: skipelem_def Let_def elements_skip_slashes)
  qed
qed

lemma skipelem_rest_last: "skipelem path = Some (name, rest) \<Longrightarrow> elements rest = [] \<longleftrightarrow> rest = []"
proof
  assume s: "skipelem path = Some (name, rest)" and "elements rest = []"
  then have "skipelem rest = None" using skipelem_elements [of rest] by (auto split: option.splits)
  then have "dropWhile (\<lambda>c. c = slash) rest = []" by (simp add: skipelem_def Let_def split: if_splits)
  moreover obtain u where "rest = dropWhile (\<lambda>c. c = slash) u"
    using s by (auto simp: skipelem_def Let_def split: if_splits)
  ultimately show "rest = []" by simp
qed (simp add: elements_Nil)

text \<open>
  C7: path names. \<open>namex\<close>, which cuts elements off a string by moving pointers over slashes, walks
  along exactly the non-empty pieces between the slashes, whatever slashes lead, follow or repeat, and
  with \<open>nameiparent\<close> it stops before the last of them.
\<close>

theorem namex_walks_elements:
  "namex_loop par path elem ip = walk par (elements path) elem ip"
proof (induction "length path" arbitrary: path elem ip rule: less_induct)
  case less
  show ?case
  proof (cases "skipelem path")
    case None
    then have "elements path = []" using skipelem_elements [of path] by simp
    with None show ?thesis by (simp add: namex_loop.simps [of par path])
  next
    case (Some nr)
    obtain name rest where nr: "nr = (name, rest)" by fastforce
    have s: "skipelem path = Some (name, rest)" using Some nr by simp
    have e: "elements path = name # elements rest" using skipelem_elements [of path] s by simp
    have w: "walk par (elements rest) name = (namex_loop par rest name :: nat \<Rightarrow> ('a conin_scheme, _) thr)"
      by (rule ext) (rule less [OF skipelem_shorter [OF s], symmetric])
    have l: "(elements rest = []) = (rest = [])" by (rule skipelem_rest_last [OF s])
    show ?thesis
      unfolding e walk.simps w l namex_loop.simps [of par path elem ip] s by (simp only: option.case prod.case)
  qed
qed

section \<open>Directory entries are found again\<close>

lemma lstrncmp_eq:
  assumes "0 \<notin> set s" and "0 \<notin> set t"
  shows "lstrncmp n s t = 0 \<longleftrightarrow> take n s = take n t"
  using assms
proof (induction n arbitrary: s t)
  case (Suc n)
  show ?case
  proof (cases s)
    case Nil
    with Suc.prems show ?thesis by (cases t) (auto simp: uint_0_iff)
  next
    case (Cons a s')
    with Suc show ?thesis by (cases t) (auto simp: uint_0_iff)
  qed
qed simp

lemma lstrncmp_zeros: "lstrncmp n s (t @ replicate k 0) = lstrncmp n s t"
proof (induction n arbitrary: s t)
  case (Suc n)
  show ?case
  proof (cases t)
    case Nil
    then show ?thesis by (cases k) simp_all
  next
    case (Cons a l)
    with Suc [of "tl s" l] show ?thesis by (simp add: Let_def)
  qed
qed simp

lemma lstrncmp_take: "lstrncmp n s (take n t) = lstrncmp n s t"
proof (induction n arbitrary: s t)
  case (Suc n)
  then show ?case by (cases t) (simp_all split: list.split)
qed simp

text \<open>
  C31: directories. An entry that \<open>dirlink\<close> writes has the inode number that \<open>dirlookup\<close> reads from it,
  and it matches exactly the names whose first \<open>DIRSIZ\<close> bytes are those of the name it was made with.
\<close>

theorem dirent_roundtrip:
  assumes "inum < 2 ^ 16" and "0 \<notin> set name" and "0 \<notin> set other"
  shows "length (dirent inum name) = 16 \<and> de_inum (dirent inum name) = inum \<and>
    (namecmp other (de_name (dirent inum name)) = 0 \<longleftrightarrow> take DIRSIZ other = take DIRSIZ name)"
proof -
  have "de_inum (dirent inum name) = inum"
  proof (rule bit_word_eqI)
    fix n assume "n < LENGTH(32)"
    have "bit inum n \<Longrightarrow> n < 16"
    proof (rule ccontr)
      assume "bit inum n" and "\<not> n < 16"
      have "drop_bit 16 inum = 0" using assms(1) by (simp add: drop_bit_eq_div div_word_less)
      then have "\<not> bit (drop_bit 16 inum) (n - 16)" by simp
      then show False using \<open>bit inum n\<close> \<open>\<not> n < 16\<close> by (simp add: bit_drop_bit_eq)
    qed
    then show "bit (de_inum (dirent inum name)) n = bit inum n"
      by (auto simp: de_inum_def dirent_def bit_or_iff bit_push_bit_iff bit_ucast_iff bit_drop_bit_eq)
  qed
  moreover have "de_name (dirent inum name) = take DIRSIZ (name @ replicate DIRSIZ 0)"
    by (simp add: de_name_def dirent_def)
  then have "namecmp other (de_name (dirent inum name)) = lstrncmp DIRSIZ other name"
    by (simp only: namecmp_def lstrncmp_take lstrncmp_zeros)
  ultimately show ?thesis using assms by (simp add: lstrncmp_eq dirent_def)
qed

theorem dirent_roundtrip_witness:
  "de_inum (dirent 513 [99, 97, 116]) = 513 \<and> namecmp [99, 97, 116] (de_name (dirent 513 [99, 97, 116])) = 0"
  using dirent_roundtrip [of 513 "[99, 97, 116]" "[99, 97, 116]"] by simp

end
