(* ===== verification/File.thy ===== *)
theory File
  imports Fs
begin

text \<open>
  Files, the rest of \<open>file.c\<close> and of \<open>pipe.c\<close>: closing, reading and writing what a file structure
  stands for, a pipe or an inode.
\<close>

section \<open>Words as bytes\<close>

definition le16 :: "ushort \<Rightarrow> uchar list" where
  "le16 w = [ucast w, ucast (drop_bit 8 w)]"

definition le32 :: "uint \<Rightarrow> uchar list" where
  "le32 w = [ucast w, ucast (drop_bit 8 w), ucast (drop_bit 16 w), ucast (drop_bit 24 w)]"

definition of_le32 :: "uchar list \<Rightarrow> uint" where
  "of_le32 bs = ucast (bs ! 0) OR push_bit 8 (ucast (bs ! 1)) OR push_bit 16 (ucast (bs ! 2)) OR
     push_bit 24 (ucast (bs ! 3))"

section \<open>The code\<close>

text \<open>The critical section of \<open>fileclose\<close>: the file to be closed, if this was the last reference.\<close>

definition fileclose_ref :: "nat \<Rightarrow> 'a ftable_scheme \<Rightarrow> (kfile option \<times> 'a ftable_scheme) res" where
  "fileclose_ref f s =
     bnd (acquire L_ftable s) (\<lambda>s.
     bnd (panic_if (f_ref (files s f) < 1) ''fileclose'') (\<lambda>_.
     let s = upd_file f (\<lambda>x. x\<lparr>f_ref := f_ref x - 1\<rparr>) s
     in if f_ref (files s f) > 0 then bnd (release L_ftable s) (\<lambda>s. Inr (None, s))
        else let ff = files s f;
                 s = upd_file f (\<lambda>x. x\<lparr>f_ref := 0, f_type := FD_NONE\<rparr>) s
             in bnd (release L_ftable s) (\<lambda>s. Inr (Some ff, s))))"

definition fileclose :: "nat \<Rightarrow> ('a conin_scheme, unit) thr" where
  "fileclose f =
     tbnd (ask (fileclose_ref f)) (\<lambda>r.
     case r of
       None \<Rightarrow> ret ()
     | Some ff \<Rightarrow>
         if f_type ff = FD_PIPE then act (pipeclose (f_pipe ff) (f_writable ff))
         else if f_type ff = FD_INODE
         then tseq begin_op
              (tbnd (need (f_ip ff) ''null pointer'') (\<lambda>ip.
               tseq (iput ip) end_op))
         else ret ())"

text \<open>\<open>pipealloc\<close>: the read end and the write end, or nothing when a resource ran out.\<close>

definition pipealloc :: "('a conin_scheme, (nat \<times> nat) option) thr" where
  "pipealloc =
     tbnd (ask filealloc) (\<lambda>f0.
     case f0 of
       None \<Rightarrow> ret None
     | Some f0 \<Rightarrow>
         tbnd (ask filealloc) (\<lambda>f1.
         case f1 of
           None \<Rightarrow> tseq (fileclose f0) (ret None)
         | Some f1 \<Rightarrow>
             tbnd (ask kalloc) (\<lambda>p.
             if p = 0 then tseq (fileclose f0) (tseq (fileclose f1) (ret None))
             else tseq (modify (pipe_setup p f0 f1)) (ret (Some (f0, f1))))))"

text \<open>\<open>struct stat\<close> in the user's memory, field by field.\<close>

definition put_stat :: "uint \<Rightarrow> stat \<Rightarrow> 'a machine_scheme \<Rightarrow> 'a machine_scheme res" where
  "put_stat a st s =
     bnd (ustores (a + 4) (le32 (st_dev st)) s) (\<lambda>s.
     bnd (ustores (a + 8) (le32 (st_ino st)) s) (\<lambda>s.
     bnd (ustores a (le16 (st_type st)) s) (\<lambda>s.
     bnd (ustores (a + 12) (le16 (st_nlink st)) s) (\<lambda>s.
     ustores (a + 16) (le32 (st_size st)) s))))"

abbreviation file_of :: "nat \<Rightarrow> ('a ftable_scheme, kfile) thr" where
  "file_of f \<equiv> look (\<lambda>s. files s f)"

definition filestat :: "nat \<Rightarrow> uint \<Rightarrow> ('a conin_scheme, int) thr" where
  "filestat f a =
     tbnd (file_of f) (\<lambda>x.
     if f_type x = FD_INODE
     then tseq (ilock (f_ip x))
          (tbnd (need (f_ip x) ''null pointer'') (\<lambda>ip.
           tbnd (inode_of ip) (\<lambda>y.
           tseq (act (put_stat a (stati y)))
          (tseq (iunlock (f_ip x))
          (ret 0)))))
     else ret (- 1))"

definition fileread :: "nat \<Rightarrow> uint \<Rightarrow> int \<Rightarrow> ('a conin_scheme, int) thr" where
  "fileread f addr n =
     tbnd (file_of f) (\<lambda>x.
     if \<not> f_readable x then ret (- 1)
     else if f_type x = FD_PIPE then piperead (f_pipe x) addr n
     else if f_type x = FD_INODE
     then tseq (ilock (f_ip x))
          (tbnd (need (f_ip x) ''null pointer'') (\<lambda>ip.
           tbnd (file_of f) (\<lambda>x.
           tbnd (readi ip (Mem addr) (f_off x) (of_int n)) (\<lambda>(r, _).
           tseq (if r > 0 then modify (upd_file f (\<lambda>y. y\<lparr>f_off := f_off y + of_int r\<rparr>)) else ret ())
          (tseq (iunlock (f_ip x))
          (ret r))))))
     else fail (Panic ''fileread''))"

text \<open>The loop of \<open>filewrite\<close>, which writes at most three blocks in a transaction.\<close>

function filewrite_loop :: "nat \<Rightarrow> nat \<Rightarrow> uint \<Rightarrow> int \<Rightarrow> int \<Rightarrow> ('a conin_scheme, int) thr" where
  "filewrite_loop f ip addr i n =
     (if i < n
      then let n1 = min (n - i) 1536
           in tseq begin_op
              (tseq (ilock (Some ip))
              (tbnd (file_of f) (\<lambda>x.
               tbnd (writei ip (From (addr + of_int i)) (f_off x) (of_int n1)) (\<lambda>r.
               tseq (if r > 0 then modify (upd_file f (\<lambda>y. y\<lparr>f_off := f_off y + of_int r\<rparr>)) else ret ())
              (tseq (iunlock (Some ip))
              (tseq end_op
              (if r < 0 then ret i
               else if r \<noteq> n1 then fail (Panic ''short filewrite'')
               else filewrite_loop f ip addr (i + n1) n)))))))
      else ret i)"
  by pat_completeness auto
termination
  by (relation "measure (\<lambda>(f, ip, addr, i, n). nat (n - i))") auto

declare filewrite_loop.simps [simp del]

definition filewrite :: "nat \<Rightarrow> uint \<Rightarrow> int \<Rightarrow> ('a conin_scheme, int) thr" where
  "filewrite f addr n =
     tbnd (file_of f) (\<lambda>x.
     if \<not> f_writable x then ret (- 1)
     else if f_type x = FD_PIPE then pipewrite (f_pipe x) addr n
     else if f_type x = FD_INODE
     then tbnd (need (f_ip x) ''null pointer'') (\<lambda>ip.
          tbnd (filewrite_loop f ip addr 0 n) (\<lambda>i.
          ret (if i = n then n else - 1)))
     else fail (Panic ''filewrite''))"

end
