(* ===== verification/Life.thy ===== *)
theory Life
  imports File
begin

text \<open>
  The life of a process: creation, growth, exit and collection (\<open>userinit\<close>, \<open>growproc\<close>, \<open>fork\<close>,
  \<open>exit\<close>, \<open>wait\<close>, \<open>waitx\<close> and \<open>forkret\<close> of \<open>proc.c\<close>). The compile-time flag \<open>GRPH\<close>, which
  replaces \<open>waitx\<close> by a dump of the recorded queues, is taken to be off.
\<close>

section \<open>Data\<close>

text \<open>\<open>initcode\<close> is the address of the image of the first program and \<open>initcode_size\<close> its size.\<close>

record life = conin +
  fork_first :: bool
  initcode :: uint
  initcode_size :: uint

text \<open>Offsets of the fields of \<open>struct trapframe\<close> that the kernel uses.\<close>

abbreviation (input) TF_eax :: uint where "TF_eax \<equiv> 28"
abbreviation (input) TF_es :: uint where "TF_es \<equiv> 40"
abbreviation (input) TF_ds :: uint where "TF_ds \<equiv> 44"
abbreviation (input) TF_trapno :: uint where "TF_trapno \<equiv> 48"
abbreviation (input) TF_err :: uint where "TF_err \<equiv> 52"
abbreviation (input) TF_eip :: uint where "TF_eip \<equiv> 56"
abbreviation (input) TF_cs :: uint where "TF_cs \<equiv> 60"
abbreviation (input) TF_eflags :: uint where "TF_eflags \<equiv> 64"
abbreviation (input) TF_esp :: uint where "TF_esp \<equiv> 68"
abbreviation (input) TF_ss :: uint where "TF_ss \<equiv> 72"

abbreviation store16 :: "uint \<Rightarrow> ushort \<Rightarrow> 'a machine_scheme \<Rightarrow> 'a machine_scheme" where
  "store16 a w s \<equiv> s\<lparr>mem := put_bytes a (le16 w) (mem s)\<rparr>"

abbreviation proc_of :: "nat \<Rightarrow> ('a ptable_scheme, proc) thr" where
  "proc_of p \<equiv> look (\<lambda>s. procs s p)"

abbreviation set_procs :: "nat \<Rightarrow> (proc \<Rightarrow> proc) \<Rightarrow> ('a ptable_scheme, unit) thr" where
  "set_procs p f \<equiv> modify (upd_proc p f)"

text \<open>\<open>safestrcpy\<close> into the 16 bytes of \<open>p->name\<close>.\<close>

definition set_name :: "uchar list \<Rightarrow> proc \<Rightarrow> proc" where
  "set_name nm x = x\<lparr>p_name := take 15 nm\<rparr>"

section \<open>The first process\<close>

definition init_frame :: "uint \<Rightarrow> 'a machine_scheme \<Rightarrow> 'a machine_scheme" where
  "init_frame tf s =
     (let s = s\<lparr>mem := memset tf 0 76 (mem s)\<rparr>;
          s = store16 (tf + TF_cs) 0x1b s;
          s = store16 (tf + TF_ds) 0x23 s;
          s = store16 (tf + TF_es) 0x23 s;
          s = store16 (tf + TF_ss) 0x23 s;
          s = store (tf + TF_eflags) 0x200 s;
          s = store (tf + TF_esp) PGSIZE s
      in store (tf + TF_eip) 0 s)"

definition userinit :: "('a life_scheme, unit) thr" where
  "userinit =
     tbnd (ask allocproc) (\<lambda>po.
     tseq (modify (\<lambda>s. s\<lparr>initproc := po\<rparr>))
     (tbnd (need po ''null pointer'') (\<lambda>p.
      tbnd (ask setupkvm) (\<lambda>pgdir.
      tseq (set_procs p (\<lambda>x. x\<lparr>p_pgdir := pgdir\<rparr>))
     (tseq (panic_when (pgdir = 0) ''userinit: out of memory?'')
     (tseq (act (\<lambda>s. inituvm pgdir (initcode s) (initcode_size s) s))
     (tseq (set_procs p (\<lambda>x. x\<lparr>p_sz := PGSIZE\<rparr>))
     (tseq (modify (\<lambda>s. init_frame (p_tf (procs s p)) s))
     (tseq (set_procs p (set_name (str ''initcode'')))
     (tbnd (namei (str ''/'')) (\<lambda>c.
      tseq (set_procs p (\<lambda>x. x\<lparr>p_cwd := c\<rparr>))
     (tseq (act (acquire L_ptable))
     (tseq (modify (set_state p RUNNABLE))
     (act (release L_ptable)))))))))))))))"

section \<open>Growing\<close>

definition growproc :: "int \<Rightarrow> 'a ptable_scheme \<Rightarrow> (int \<times> 'a ptable_scheme) res" where
  "growproc n s =
     bnd (curproc s) (\<lambda>(me, s).
     let x = procs s me; sz = p_sz x
     in bnd (if n > 0 then allocuvm (p_pgdir x) sz (sz + of_int n) s
             else if n < 0 then deallocuvm (p_pgdir x) sz (sz + of_int n) s
             else Inr (sz, s)) (\<lambda>(nsz, s).
        if n \<noteq> 0 \<and> nsz = 0 then Inr (- 1, s)
        else bnd (switchuvm (Some me) (upd_proc me (\<lambda>x. x\<lparr>p_sz := nsz\<rparr>) s)) (\<lambda>s. Inr (0, s))))"

text \<open>The generator of pseudo-random numbers.\<close>

definition rand :: "ushort \<Rightarrow> ushort" where
  "rand lfsr =
     (let b = (lfsr XOR drop_bit 2 lfsr XOR drop_bit 3 lfsr XOR drop_bit 5 lfsr) AND 1
      in drop_bit 1 lfsr OR push_bit 15 b)"

section \<open>Fork\<close>

definition fork_file :: "nat \<Rightarrow> nat \<Rightarrow> nat \<Rightarrow> 'a ftable_scheme \<Rightarrow> 'a ftable_scheme res" where
  "fork_file me np i s =
     (case p_ofile (procs s me) i of
        None \<Rightarrow> Inr s
      | Some f \<Rightarrow>
          bnd (filedup f s) (\<lambda>(g, s).
          Inr (upd_proc np (\<lambda>x. x\<lparr>p_ofile := (p_ofile x)(i := Some g)\<rparr>) s)))"

text \<open>\<open>pid / 2\<close>, which rounds towards zero.\<close>

definition half :: "uint \<Rightarrow> uint" where
  "half x = (if sint x < 0 then - of_int (- sint x div 2) else of_int (sint x div 2))"

definition fork_copy :: "policy \<Rightarrow> nat \<Rightarrow> nat \<Rightarrow> 'a life_scheme \<Rightarrow> (int \<times> 'a life_scheme) res" where
  "fork_copy pol me np s =
     (let x = procs s me;
          s = upd_proc np (\<lambda>y. y\<lparr>p_sz := p_sz x, p_parent := Some me\<rparr>) s;
          tf = p_tf (procs s np);
          s = s\<lparr>mem := memmove tf (p_tf x) 76 (mem s)\<rparr>;
          s = store (tf + TF_eax) 0 s
      in bnd (foldM (fork_file me np) [0..<NOFILE] s) (\<lambda>s.
         bnd (deref (p_cwd (procs s me))) (\<lambda>c.
         bnd (idup c s) (\<lambda>(d, s).
         let s = upd_proc np (\<lambda>y. y\<lparr>p_cwd := Some d\<rparr>) s;
             s = upd_proc np (set_name (p_name (procs s me))) s;
             newpid = p_pid (procs s np);
             s = upd_proc np (\<lambda>y. y\<lparr>p_qno := 0\<rparr>) s
         in bnd (cprintf (''Child with pid %d created'' @ nl) [Aint newpid] s) (\<lambda>s.
            let s = (if pol = PBS then upd_proc np (\<lambda>y. y\<lparr>p_priority := half newpid\<rparr>) s else s)
            in bnd (acquire L_ptable s) (\<lambda>s.
               bnd (release L_ptable (set_state np RUNNABLE s)) (\<lambda>s.
               Inr (sint newpid, s))))))))"

definition fork :: "policy \<Rightarrow> 'a life_scheme \<Rightarrow> (int \<times> 'a life_scheme) res" where
  "fork pol s =
     bnd (curproc s) (\<lambda>(me, s).
     bnd (allocproc s) (\<lambda>(npo, s).
     case npo of
       None \<Rightarrow> Inr (- 1, s)
     | Some np \<Rightarrow>
         bnd (copyuvm (p_pgdir (procs s me)) (p_sz (procs s me)) s) (\<lambda>(d, s).
         let s = upd_proc np (\<lambda>y. y\<lparr>p_pgdir := d\<rparr>) s
         in if d = 0
            then bnd (kfree (p_kstack (procs s np)) s) (\<lambda>s.
                 Inr (- 1, upd_proc np (\<lambda>y. y\<lparr>p_kstack := 0, p_state := UNUSED\<rparr>) s))
            else fork_copy pol me np s)))"

section \<open>Exit\<close>

definition exit_file :: "nat \<Rightarrow> nat \<Rightarrow> ('a conin_scheme, unit) thr" where
  "exit_file me fd =
     tbnd (proc_of me) (\<lambda>x.
     case p_ofile x fd of
       None \<Rightarrow> ret ()
     | Some f \<Rightarrow> tseq (fileclose f) (set_procs me (\<lambda>x. x\<lparr>p_ofile := (p_ofile x)(fd := None)\<rparr>)))"

text \<open>The part of \<open>exit\<close> under \<open>ptable.lock\<close>: wake the parent, hand the children to \<open>init\<close>, become a zombie.\<close>

definition adopt :: "nat \<Rightarrow> nat \<Rightarrow> 'a ptable_scheme \<Rightarrow> 'a ptable_scheme" where
  "adopt me p s =
     (if p_parent (procs s p) = Some me
      then let s = upd_proc p (\<lambda>x. x\<lparr>p_parent := initproc s\<rparr>) s
           in if p_state (procs s p) = ZOMBIE then wakeup1 (map_option Ch_proc (initproc s)) s else s
      else s)"

definition exit_table :: "nat \<Rightarrow> 'a ptable_scheme \<Rightarrow> 'a ptable_scheme" where
  "exit_table me s =
     (let s = wakeup1 (map_option Ch_proc (p_parent (procs s me))) s;
          s = fold (adopt me) [0..<NPROC] s
      in upd_proc me (\<lambda>x. x\<lparr>p_state := ZOMBIE, p_etime := ticks s\<rparr>) s)"

definition exit_before :: "('a conin_scheme, unit) thr" where
  "exit_before =
     tbnd (ask curproc) (\<lambda>me.
     tbnd (look initproc) (\<lambda>ip.
     tseq (panic_when (ip = Some me) ''init exiting'')
     (tseq (tfold (exit_file me) [0..<NOFILE])
     (tseq begin_op
     (tbnd (proc_of me) (\<lambda>x.
      tbnd (need (p_cwd x) ''null pointer'') (\<lambda>c.
      tseq (iput c)
     (tseq end_op
     (tseq (set_procs me (\<lambda>x. x\<lparr>p_cwd := None\<rparr>))
     (tseq (act (acquire L_ptable))
     (modify (exit_table me))))))))))))"

definition exit_proc :: "('a conin_scheme, 'r) thr" where
  "exit_proc =
     tseq exit_before
     (tbnd (\<lambda>s es. bnd (sched s es) (\<lambda>(s, es). Inr ((), s, es))) (\<lambda>_.
      fail (Panic ''zombie exit'')))"

section \<open>Wait\<close>

definition reap :: "nat \<Rightarrow> 'a ptable_scheme \<Rightarrow> 'a ptable_scheme res" where
  "reap p s =
     bnd (kfree (p_kstack (procs s p)) s) (\<lambda>s.
     let s = upd_proc p (\<lambda>x. x\<lparr>p_kstack := 0\<rparr>) s
     in bnd (freevm (p_pgdir (procs s p)) s) (\<lambda>s.
        Inr (upd_proc p (\<lambda>x. x\<lparr>p_pid := 0, p_parent := None, p_name := [], p_killed := False,
               p_state := UNUSED\<rparr>) s)))"

definition child_of :: "nat \<Rightarrow> 'a ptable_scheme \<Rightarrow> nat \<Rightarrow> bool" where
  "child_of me s p \<longleftrightarrow> p_parent (procs s p) = Some me"

text \<open>
  A round of the loops of \<open>wait\<close> and \<open>waitx\<close>; \<open>found\<close> is what is done with a zombie child before it is
  removed, and yields the return value.
\<close>

definition wait_scan :: "nat \<Rightarrow> (nat \<Rightarrow> 'a ptable_scheme \<Rightarrow> (int \<times> 'a ptable_scheme) res) \<Rightarrow>
    'a ptable_scheme \<Rightarrow> (int option \<times> 'a ptable_scheme) res" where
  "wait_scan me found s =
     (case find (\<lambda>p. child_of me s p \<and> p_state (procs s p) = ZOMBIE) [0..<NPROC] of
        Some p \<Rightarrow> bnd (found p s) (\<lambda>(r, s). bnd (reap p s) (\<lambda>s. Inr (Some r, s)))
      | None \<Rightarrow>
          if (\<forall>p\<in>set [0..<NPROC]. \<not> child_of me s p) \<or> p_killed (procs s me) then Inr (Some (- 1), s)
          else Inr (None, s))"

text \<open>
  \<open>wait\<close> returns its local variable \<open>pid\<close>, which it never assigns; \<open>junk\<close> is the value it has.
\<close>

definition wait :: "int \<Rightarrow> ('a ptable_scheme, int) thr" where
  "wait junk =
     tbnd (ask curproc) (\<lambda>me.
     tseq (act (acquire L_ptable))
     (tbnd (sleep_loop (wait_scan me (\<lambda>p s. Inr (junk, s))) (Ch_proc me) L_ptable) (\<lambda>r.
      tseq (act (release L_ptable)) (ret r))))"

definition waitx_found :: "uint \<Rightarrow> uint \<Rightarrow> nat \<Rightarrow> 'a ptable_scheme \<Rightarrow> (int \<times> 'a ptable_scheme) res" where
  "waitx_found wtime rtime p s =
     (let x = procs s p
      in bnd (ustores wtime (le32 (p_etime x - p_ctime x - p_rtime x - p_iotime x)) s) (\<lambda>s.
         bnd (ustores rtime (le32 (p_rtime x)) s) (\<lambda>s.
         Inr (sint (p_pid x), s))))"

definition waitx :: "uint \<Rightarrow> uint \<Rightarrow> ('a ptable_scheme, int) thr" where
  "waitx wtime rtime =
     tbnd (ask curproc) (\<lambda>me.
     tseq (act (acquire L_ptable))
     (tbnd (sleep_loop (wait_scan me (waitx_found wtime rtime)) (Ch_proc me) L_ptable) (\<lambda>r.
      tseq (act (release L_ptable)) (ret r))))"

section \<open>The first step of a new process\<close>

definition forkret :: "('a life_scheme, unit) thr" where
  "forkret =
     tseq (act (release L_ptable))
     (tbnd (look fork_first) (\<lambda>f.
      if f then tseq (modify (\<lambda>s. s\<lparr>fork_first := False\<rparr>)) (tseq (iinit 1) (initlog 1))
      else ret ()))"

section \<open>A concrete state\<close>

definition boot_life :: life where
  "boot_life = conin.extend boot_conin \<lparr>fork_first = True, initcode = 0x8010a000, initcode_size = 44\<rparr>"

lemma boot_life_simps [simp]:
  "procs boot_life = procs boot_bcache" "ticks boot_life = 0" "mem boot_life = (\<lambda>_. 0)"
  "cpus boot_life = cpus boot_bcache" "locks boot_life = boot_locks" "ncpu boot_life = 2"
  "this_cpu boot_life = 0" "lapic_id boot_life = of_nat" "\<not> panicked boot_life" "cons_locking boot_life"
  "con boot_life = boot_con"
  by (simp_all add: boot_life_def conin.defs)

lemma inside_boot_life: "inside 0 {} boot_life"
  using inside_boot_bcache by (simp add: inside_def con_ok_def cpu_ok_def cpus_wf_def)

section \<open>What exit does to the process table\<close>

text \<open>Parent and state of a process after the first \<open>n\<close> rounds of the loop over the children.\<close>

definition new_parent :: "nat \<Rightarrow> nat \<Rightarrow> nat \<Rightarrow> (nat \<Rightarrow> proc) \<Rightarrow> nat \<Rightarrow> nat option" where
  "new_parent me i n P q = (if q < n \<and> p_parent (P q) = Some me then Some i else p_parent (P q))"

definition new_state :: "nat \<Rightarrow> nat \<Rightarrow> nat \<Rightarrow> (nat \<Rightarrow> proc) \<Rightarrow> nat \<Rightarrow> procstate" where
  "new_state me i n P q =
     (if q < NPROC \<and> p_state (P q) = SLEEPING \<and> p_chan (P q) = Some (Ch_proc i) \<and>
         (\<exists>c<n. p_parent (P c) = Some me \<and> p_state (P c) = ZOMBIE)
      then RUNNABLE else p_state (P q))"

definition adopted :: "nat \<Rightarrow> nat \<Rightarrow> nat \<Rightarrow> (nat \<Rightarrow> proc) \<Rightarrow> nat \<Rightarrow> proc" where
  "adopted me i n P q = (P q)\<lparr>p_parent := new_parent me i n P q, p_state := new_state me i n P q\<rparr>"

lemma adopted_simps [simp]:
  "p_parent (adopted me i n P q) = new_parent me i n P q" "p_state (adopted me i n P q) = new_state me i n P q"
  "p_chan (adopted me i n P q) = p_chan (P q)" "p_etime (adopted me i n P q) = p_etime (P q)"
  "p_pid (adopted me i n P q) = p_pid (P q)"
  by (simp_all add: adopted_def)

lemma new_parent_Suc:
  "new_parent me i (Suc n) P q = (if q = n \<and> p_parent (P n) = Some me then Some i else new_parent me i n P q)"
  by (auto simp: new_parent_def less_Suc_eq)

lemma new_state_Suc:
  "new_state me i (Suc n) P q =
     (if p_parent (P n) = Some me \<and> p_state (P n) = ZOMBIE \<and> q < NPROC \<and> new_state me i n P q = SLEEPING \<and>
         p_chan (P q) = Some (Ch_proc i)
      then RUNNABLE else new_state me i n P q)"
  by (auto simp: new_state_def less_Suc_eq)

lemma adopted_Suc:
  "adopted me i (Suc n) P q = (let x = adopted me i n P q;
       x = (if q = n \<and> p_parent (P n) = Some me then x\<lparr>p_parent := Some i\<rparr> else x)
     in if p_parent (P n) = Some me \<and> p_state (P n) = ZOMBIE \<and> q < NPROC \<and> p_state x = SLEEPING \<and> p_chan x = Some (Ch_proc i)
        then x\<lparr>p_state := RUNNABLE\<rparr> else x)"
  unfolding adopted_def new_parent_Suc new_state_Suc Let_def by simp

lemma new_self:
  "new_parent me i n P n = p_parent (P n)" "new_state me i n P n = ZOMBIE \<longleftrightarrow> p_state (P n) = ZOMBIE"
  by (auto simp: new_parent_def new_state_def)

lemma adopt_step:
  assumes "initproc s = Some i"
  shows "adopt me n (s\<lparr>procs := adopted me i n P\<rparr>) = s\<lparr>procs := adopted me i (Suc n) P\<rparr>"
proof -
  let ?A = "adopted me i n P"
  let ?X = "?A(n := (?A n)\<lparr>p_parent := Some i\<rparr>)"
  consider "p_parent (P n) \<noteq> Some me" | "p_parent (P n) = Some me" "p_state (P n) \<noteq> ZOMBIE" |
    "p_parent (P n) = Some me" "p_state (P n) = ZOMBIE" by blast
  then show ?thesis
  proof cases
    case 1
    then have "adopted me i (Suc n) P = ?A" by (simp add: fun_eq_iff adopted_Suc Let_def)
    with 1 show ?thesis by (simp add: adopt_def new_self)
  next
    case 2
    then have "adopted me i (Suc n) P = ?X" by (simp add: fun_eq_iff adopted_Suc Let_def)
    with 2 assms show ?thesis by (simp add: adopt_def upd_proc_def new_self)
  next
    case 3
    then have "adopted me i (Suc n) P = (\<lambda>p. if p < NPROC \<and> p_state (?X p) = SLEEPING \<and> p_chan (?X p) = Some (Ch_proc i)
        then (?X p)\<lparr>p_state := RUNNABLE\<rparr> else ?X p)"
      by (intro ext) (simp add: adopted_Suc Let_def)
    with 3 assms show ?thesis by (simp add: adopt_def upd_proc_def new_self wakeup1_eq Let_def cong: if_cong)
  qed
qed

lemma adopt_all: "initproc s = Some i \<Longrightarrow> fold (adopt me) [0..<n] s = s\<lparr>procs := adopted me i n (procs s)\<rparr>"
proof (induction n)
  case 0
  have "adopted me i 0 (procs s) = procs s" by (simp add: adopted_def new_parent_def new_state_def fun_eq_iff)
  then show ?case by simp
next
  case (Suc n)
  then show ?case using adopt_step [OF Suc.prems, of me n "procs s"] by simp
qed

text \<open>
  C18: \<open>exit\<close>. The exiting process becomes a zombie with its end time; its children, and no other
  processes, get \<open>init\<close> as their parent, so every zombie keeps a parent that can collect it; and of the
  sleeping processes exactly its parent's waiters, and those of \<open>init\<close> if one of the children is a
  zombie already, are made runnable.
\<close>

theorem exit_hands_over:
  assumes "initproc s = Some i" and "p_parent (procs s me) = Some par"
  shows "\<forall>q<NPROC. let x = procs s q; y = procs (exit_table me s) q in
    p_parent y = (if p_parent x = Some me then Some i else p_parent x) \<and>
    p_state y = (if q = me then ZOMBIE
      else if p_state x = SLEEPING \<and> (p_chan x = Some (Ch_proc par) \<or> p_chan x = Some (Ch_proc i) \<and>
          (\<exists>c<NPROC. p_parent (procs s c) = Some me \<and> p_state (procs s c) = ZOMBIE))
      then RUNNABLE else p_state x) \<and>
    p_etime y = (if q = me then ticks s else p_etime x) \<and> p_pid y = p_pid x"
proof -
  define P where "P = (\<lambda>p. if p < NPROC \<and> p_state (procs s p) = SLEEPING \<and> p_chan (procs s p) = Some (Ch_proc par)
     then (procs s p)\<lparr>p_state := RUNNABLE\<rparr> else procs s p)"
  have P: "p_parent (P q) = p_parent (procs s q)" "p_chan (P q) = p_chan (procs s q)" "p_etime (P q) = p_etime (procs s q)"
    "p_pid (P q) = p_pid (procs s q)" "p_state (P q) = ZOMBIE \<longleftrightarrow> p_state (procs s q) = ZOMBIE"
    "p_state (P q) = (if q < NPROC \<and> p_state (procs s q) = SLEEPING \<and> p_chan (procs s q) = Some (Ch_proc par)
       then RUNNABLE else p_state (procs s q))" for q
    by (simp_all add: P_def)
  have "wakeup1 (Some (Ch_proc par)) s = s\<lparr>procs := P\<rparr>" by (simp add: wakeup1_eq P_def)
  then have "exit_table me s = upd_proc me (\<lambda>x. x\<lparr>p_state := ZOMBIE, p_etime := ticks s\<rparr>) (s\<lparr>procs := adopted me i NPROC P\<rparr>)"
    using adopt_all [of "s\<lparr>procs := P\<rparr>" i me NPROC] assms by (simp add: exit_table_def Let_def)
  then have e: "procs (exit_table me s) q =
      (if q = me then (adopted me i NPROC P q)\<lparr>p_state := ZOMBIE, p_etime := ticks s\<rparr> else adopted me i NPROC P q)" for q
    by (simp add: upd_proc_def)
  have st: "new_state me i NPROC P q = (if p_state (procs s q) = SLEEPING \<and> (p_chan (procs s q) = Some (Ch_proc par) \<or>
          p_chan (procs s q) = Some (Ch_proc i) \<and> (\<exists>c<NPROC. p_parent (procs s c) = Some me \<and> p_state (procs s c) = ZOMBIE))
      then RUNNABLE else p_state (procs s q))" if "q < NPROC" for q
    using that unfolding new_state_def P(1,2,5) by (simp add: P(6)) blast
  show ?thesis
    by (intro allI impI) (simp add: Let_def e st P new_parent_def)
qed

theorem exit_hands_over_witness:
  "let s = (boot_ptable [some_proc 1 SLEEPING 60 0, (some_proc 7 RUNNING 60 0)\<lparr>p_parent := Some 0\<rparr>,
       (some_proc 8 ZOMBIE 60 0)\<lparr>p_parent := Some 1\<rparr>])\<lparr>initproc := Some 0\<rparr>
   in p_parent (procs (exit_table 1 s) 2) = Some 0 \<and> p_state (procs (exit_table 1 s) 1) = ZOMBIE"
  using exit_hands_over [of "(boot_ptable [some_proc 1 SLEEPING 60 0, (some_proc 7 RUNNING 60 0)\<lparr>p_parent := Some 0\<rparr>,
       (some_proc 8 ZOMBIE 60 0)\<lparr>p_parent := Some 1\<rparr>])\<lparr>initproc := Some 0\<rparr>" 0 1 0]
  by (simp add: Let_def some_proc_def numeral_2_eq_2)

end
