(* ===== verification/Exec.thy ===== *)
theory Exec
  imports Life
begin

text \<open>
  Replacing the program of a process: \<open>exec.c\<close> and \<open>loaduvm\<close> of \<open>vm.c\<close>. The strings of the
  argument vector are given by their bytes.
\<close>

section \<open>Loading a segment\<close>

text \<open>One page of \<open>loaduvm\<close>, at offset \<open>i\<close> of the segment; \<^term>\<open>Some ()\<close> is the error return.\<close>

definition loaduvm_page :: "uint \<Rightarrow> uint \<Rightarrow> nat \<Rightarrow> uint \<Rightarrow> uint \<Rightarrow> uint \<Rightarrow> ('a conin_scheme, unit option) thr" where
  "loaduvm_page pgdir addr ip offset sz i =
     tbnd (ask (walkpgdir pgdir (addr + i) False)) (\<lambda>pte.
     tseq (panic_when (pte = 0) ''loaduvm: address should exist'')
     (tbnd (look (\<lambda>s. PTE_ADDR (load32 (mem s) pte))) (\<lambda>pa.
      let n = (if sz - i < PGSIZE then sz - i else PGSIZE)
      in tbnd (readi ip (Mem (P2V pa)) (offset + i) n) (\<lambda>(r, _).
         ret (if of_int r \<noteq> n then Some () else None)))))"

definition loaduvm :: "uint \<Rightarrow> uint \<Rightarrow> nat \<Rightarrow> uint \<Rightarrow> uint \<Rightarrow> ('a conin_scheme, int) thr" where
  "loaduvm pgdir addr ip offset sz =
     tseq (panic_when (addr mod PGSIZE \<noteq> 0) ''loaduvm: addr must be page aligned'')
     (tbnd (tfind (\<lambda>k. loaduvm_page pgdir addr ip offset sz (of_nat (4096 * k))) [0..<(unat sz + 4095) div 4096]) (\<lambda>r.
      ret (if r = None then 0 else - 1)))"

section \<open>Exec\<close>

definition u16_at :: "uchar list \<Rightarrow> nat \<Rightarrow> uint" where
  "u16_at bs i = ucast (bs ! i) OR push_bit 8 (ucast (bs ! (i + 1)))"

definition u32_at :: "uchar list \<Rightarrow> nat \<Rightarrow> uint" where
  "u32_at bs i = of_le32 (take 4 (drop i bs))"

text \<open>
  The loop over the program headers, \<open>n\<close> before its end: the new size, or \<^term>\<open>None\<close> for \<open>goto bad\<close>.
\<close>

fun exec_load :: "nat \<Rightarrow> uint \<Rightarrow> nat \<Rightarrow> uint \<Rightarrow> uint \<Rightarrow> ('a conin_scheme, uint option) thr" where
  "exec_load ip pgdir 0 off sz = ret (Some sz)"
| "exec_load ip pgdir (Suc n) off sz =
     tbnd (readi ip Loc off 32) (\<lambda>(r, ph).
     if r \<noteq> 32 then ret None
     else if u32_at ph 0 \<noteq> 1 then exec_load ip pgdir n (off + 32) sz
     else let vaddr = u32_at ph 8; filesz = u32_at ph 16; memsz = u32_at ph 20
          in if memsz < filesz \<or> vaddr + memsz < vaddr then ret None
             else tbnd (ask (allocuvm pgdir sz (vaddr + memsz))) (\<lambda>sz.
                  if sz = 0 \<or> vaddr mod PGSIZE \<noteq> 0 then ret None
                  else tbnd (loaduvm pgdir vaddr ip (u32_at ph 4) filesz) (\<lambda>r.
                       if r < 0 then ret None else exec_load ip pgdir n (off + 32) sz)))"

text \<open>Copying the argument strings to the new stack: the stack pointer and the addresses.\<close>

fun push_args :: "uint \<Rightarrow> nat \<Rightarrow> uchar list list \<Rightarrow> uint \<Rightarrow> 'a vm_scheme \<Rightarrow>
    ((uint \<times> uint list) option \<times> 'a vm_scheme) res" where
  "push_args pgdir argc [] sp s = Inr (Some (sp, []), s)"
| "push_args pgdir argc (a # argv) sp s =
     (if argc \<ge> 32 then Inr (None, s)
      else let sp = (sp - (of_nat (length a) + 1)) AND NOT 3
           in bnd (copyout pgdir sp (a @ [0]) s) (\<lambda>(r, s).
              if r < 0 then Inr (None, s)
              else bnd (push_args pgdir (Suc argc) argv sp s) (\<lambda>(r, s).
                   Inr (map_option (\<lambda>(fsp, us). (fsp, sp # us)) r, s))))"

definition ustack :: "uint \<Rightarrow> uint list \<Rightarrow> uchar list" where
  "ustack sp us =
     concat (map le32 ([0xffffffff, of_nat (length us), sp - (of_nat (length us) + 1) * 4] @ us @ [0]))"

definition base_name :: "uchar list \<Rightarrow> uchar list" where
  "base_name path = rev (takeWhile (\<lambda>c. c \<noteq> slash) (rev path))"

text \<open>The code at \<open>bad\<close>; \<open>ip\<close> is the file if it is still open.\<close>

definition exec_bad :: "uint \<Rightarrow> nat option \<Rightarrow> ('a conin_scheme, int) thr" where
  "exec_bad pgdir ip =
     tseq (if pgdir \<noteq> 0 then act (freevm pgdir) else ret ())
     (tseq (case ip of Some i \<Rightarrow> tseq (iunlockput i) end_op | None \<Rightarrow> ret ())
     (ret (- 1)))"

text \<open>From the mapped program to the new image of the process.\<close>

definition exec_commit :: "uchar list \<Rightarrow> uchar list list \<Rightarrow> nat \<Rightarrow> uint \<Rightarrow> uint \<Rightarrow> uint \<Rightarrow> ('a conin_scheme, int) thr" where
  "exec_commit path argv me pgdir entry sz =
     (let sz = PGROUNDUP sz
      in tbnd (ask (allocuvm pgdir sz (sz + 2 * PGSIZE))) (\<lambda>sz.
         if sz = 0 then exec_bad pgdir None
         else tseq (act (clearpteu pgdir (sz - 2 * PGSIZE)))
              (tbnd (ask (push_args pgdir 0 argv sz)) (\<lambda>r.
               case r of
                 None \<Rightarrow> exec_bad pgdir None
               | Some (sp, us) \<Rightarrow>
                   let nsp = sp - (of_nat (length us) + 4) * 4
                   in tbnd (ask (copyout pgdir nsp (ustack sp us))) (\<lambda>r.
                      if r < 0 then exec_bad pgdir None
                      else tseq (set_procs me (set_name (base_name path)))
                           (tbnd (proc_of me) (\<lambda>x.
                            tseq (set_procs me (\<lambda>x. x\<lparr>p_pgdir := pgdir, p_sz := sz\<rparr>))
                           (tseq (modify (\<lambda>s. store (p_tf x + TF_esp) nsp (store (p_tf x + TF_eip) entry s)))
                           (tseq (act (switchuvm (Some me)))
                           (tseq (act (freevm (p_pgdir x)))
                           (ret 0)))))))))))"

definition exec :: "uchar list \<Rightarrow> uchar list list \<Rightarrow> ('a conin_scheme, int) thr" where
  "exec path argv =
     tbnd (ask curproc) (\<lambda>me.
     tseq begin_op
     (tbnd (namei path) (\<lambda>ipo.
      case ipo of
        None \<Rightarrow> tseq end_op (tseq (act (cprintf (''exec: fail'' @ nl) [])) (ret (- 1)))
      | Some ip \<Rightarrow>
          tseq (ilock (Some ip))
          (tbnd (readi ip Loc 0 52) (\<lambda>(r, elf).
           if r \<noteq> 52 \<or> u32_at elf 0 \<noteq> 0x464C457F then exec_bad 0 (Some ip)
           else tbnd (ask setupkvm) (\<lambda>pgdir.
                if pgdir = 0 then exec_bad 0 (Some ip)
                else tbnd (exec_load ip pgdir (unat (u16_at elf 44)) (u32_at elf 28) 0) (\<lambda>r.
                     case r of
                       None \<Rightarrow> exec_bad pgdir (Some ip)
                     | Some sz \<Rightarrow>
                         tseq (iunlockput ip)
                         (tseq end_op
                         (exec_commit path argv me pgdir (u32_at elf 24) sz)))))))))"

end
