(* ===== verification/Syscall.thy ===== *)
theory Syscall
  imports Exec
begin

text \<open>
  System calls: the arguments and the dispatch (\<open>syscall.c\<close>), and the handlers (\<open>sysproc.c\<close>,
  \<open>sysfile.c\<close>). A pointer argument that the handler only reads as a string is given by the bytes of
  the string; no other process can change them while the handler runs.
\<close>

section \<open>Arguments\<close>

text \<open>The fetch routines return \<^term>\<open>None\<close> for the error return and otherwise the value they store.\<close>

definition fetchint :: "uint \<Rightarrow> 'a ptable_scheme \<Rightarrow> (uint option \<times> 'a ptable_scheme) res" where
  "fetchint addr s =
     bnd (curproc s) (\<lambda>(me, s).
     if addr \<ge> p_sz (procs s me) \<or> addr + 4 > p_sz (procs s me) then Inr (None, s)
     else bnd (uloads addr 4 s) (\<lambda>bs. Inr (Some (of_le32 bs), s)))"

fun fetchstr_loop :: "nat \<Rightarrow> uint \<Rightarrow> 'a machine_scheme \<Rightarrow> (uchar list option) res" where
  "fetchstr_loop 0 a s = Inr None"
| "fetchstr_loop (Suc n) a s =
     bnd (uload a s) (\<lambda>c.
     if c = 0 then Inr (Some [])
     else bnd (fetchstr_loop n (a + 1) s) (\<lambda>r. Inr (map_option (Cons c) r)))"

definition fetchstr :: "uint \<Rightarrow> 'a ptable_scheme \<Rightarrow> (uchar list option \<times> 'a ptable_scheme) res" where
  "fetchstr addr s =
     bnd (curproc s) (\<lambda>(me, s).
     if addr \<ge> p_sz (procs s me) then Inr (None, s)
     else bnd (fetchstr_loop (unat (p_sz (procs s me) - addr)) addr s) (\<lambda>r. Inr (r, s)))"

definition argint :: "nat \<Rightarrow> 'a ptable_scheme \<Rightarrow> (uint option \<times> 'a ptable_scheme) res" where
  "argint n s =
     bnd (curproc s) (\<lambda>(me, s).
     fetchint (load32 (mem s) (p_tf (procs s me) + TF_esp) + 4 + 4 * of_nat n) s)"

definition argptr :: "nat \<Rightarrow> int \<Rightarrow> 'a ptable_scheme \<Rightarrow> (uint option \<times> 'a ptable_scheme) res" where
  "argptr n sz s =
     bnd (curproc s) (\<lambda>(me, s).
     bnd (argint n s) (\<lambda>(r, s).
     case r of
       None \<Rightarrow> Inr (None, s)
     | Some i \<Rightarrow>
         Inr (if sz < 0 \<or> i \<ge> p_sz (procs s me) \<or> i + of_int sz > p_sz (procs s me) then None else Some i, s)))"

definition argstr :: "nat \<Rightarrow> 'a ptable_scheme \<Rightarrow> (uchar list option \<times> 'a ptable_scheme) res" where
  "argstr n s =
     bnd (argint n s) (\<lambda>(r, s).
     case r of None \<Rightarrow> Inr (None, s) | Some addr \<Rightarrow> fetchstr addr s)"

definition argfd :: "nat \<Rightarrow> 'a ptable_scheme \<Rightarrow> ((nat \<times> nat) option \<times> 'a ptable_scheme) res" where
  "argfd n s =
     bnd (argint n s) (\<lambda>(r, s).
     case r of
       None \<Rightarrow> Inr (None, s)
     | Some fd \<Rightarrow>
         if sint fd < 0 \<or> sint fd \<ge> int NOFILE then Inr (None, s)
         else bnd (curproc s) (\<lambda>(me, s).
              Inr (map_option (\<lambda>f. (unat fd, f)) (p_ofile (procs s me) (unat fd)), s)))"

text \<open>An argument of a handler, which returns \<open>-1\<close> when the argument cannot be fetched.\<close>

definition arg :: "('s \<Rightarrow> ('r option \<times> 's) res) \<Rightarrow> ('r \<Rightarrow> ('s, int) thr) \<Rightarrow> ('s, int) thr" where
  "arg m k = tbnd (ask m) (\<lambda>r. case r of None \<Rightarrow> ret (- 1) | Some x \<Rightarrow> k x)"

section \<open>Processes\<close>

definition sys_fork :: "policy \<Rightarrow> ('a life_scheme, int) thr" where
  "sys_fork pol = ask (fork pol)"

definition sys_exit :: "('a conin_scheme, int) thr" where
  "sys_exit =
     tbnd (ask curproc) (\<lambda>me.
     tbnd (proc_of me) (\<lambda>x.
     tseq (act (cprintf (''Exiting pid %d'' @ nl) [Aint (p_pid x)])) exit_proc))"

definition sys_wait :: "int \<Rightarrow> ('a ptable_scheme, int) thr" where
  "sys_wait junk = wait junk"

definition sys_waitx :: "('a ptable_scheme, int) thr" where
  "sys_waitx = arg (argptr 0 4) (\<lambda>wtime. arg (argptr 1 4) (\<lambda>rtime. waitx wtime rtime))"

definition sys_set_priority :: "('a ptable_scheme, int) thr" where
  "sys_set_priority =
     arg (argint 0) (\<lambda>pd. arg (argint 1) (\<lambda>priority.
     tbnd (ask (set_priority pd priority)) (\<lambda>r. ret (sint r))))"

text \<open>\<open>struct proc_stat\<close> in the user's memory.\<close>

definition put_pstat :: "uint \<Rightarrow> proc_stat \<Rightarrow> 'a machine_scheme \<Rightarrow> 'a machine_scheme res" where
  "put_pstat a st s =
     ustores a (concat (map le32 ([stat_pid st, stat_runtime st, stat_num_run st, stat_current_queue st] @
       map (stat_ticks st) [0..<5]))) s"

definition sys_getpinfo :: "('a ptable_scheme, int) thr" where
  "sys_getpinfo =
     arg (argint 1) (\<lambda>pd. arg (argptr 0 36) (\<lambda>p.
     tbnd (ask (\<lambda>s. bnd (getpinfo pd s) (\<lambda>(r, st, s). Inr ((r, st), s)))) (\<lambda>(r, st).
     tseq (case st of Some x \<Rightarrow> act (put_pstat p x) | None \<Rightarrow> ret ()) (ret r))))"

definition sys_kill :: "('a ptable_scheme, int) thr" where
  "sys_kill = arg (argint 0) (\<lambda>pd. ask (kill pd))"

definition sys_getpid :: "('a ptable_scheme, int) thr" where
  "sys_getpid = tbnd (ask curproc) (\<lambda>me. tbnd (proc_of me) (\<lambda>x. ret (sint (p_pid x))))"

definition sys_sbrk :: "('a ptable_scheme, int) thr" where
  "sys_sbrk =
     arg (argint 0) (\<lambda>n.
     tbnd (ask curproc) (\<lambda>me.
     tbnd (proc_of me) (\<lambda>x.
     tbnd (ask (growproc (sint n))) (\<lambda>r.
     ret (if r < 0 then - 1 else sint (p_sz x))))))"

text \<open>The loop of \<open>sys_sleep\<close>: \<open>Some 0\<close> when the time is over, \<open>Some (- 1)\<close> when killed.\<close>

definition ticks_wait :: "nat \<Rightarrow> uint \<Rightarrow> uint \<Rightarrow> 'a ptable_scheme \<Rightarrow> (int option \<times> 'a ptable_scheme) res" where
  "ticks_wait me ticks0 n s =
     Inr (if ticks s - ticks0 < n then (if p_killed (procs s me) then Some (- 1) else None) else Some 0, s)"

definition sys_sleep :: "('a ptable_scheme, int) thr" where
  "sys_sleep =
     arg (argint 0) (\<lambda>n.
     tseq (act (acquire L_tickslock))
     (tbnd (look ticks) (\<lambda>ticks0.
      tbnd (ask curproc) (\<lambda>me.
      tbnd (sleep_loop (ticks_wait me ticks0 n) Ch_ticks L_tickslock) (\<lambda>r.
      tseq (act (release L_tickslock)) (ret r))))))"

definition sys_uptime :: "('a ptable_scheme, int) thr" where
  "sys_uptime =
     tseq (act (acquire L_tickslock))
     (tbnd (look ticks) (\<lambda>xticks. tseq (act (release L_tickslock)) (ret (sint xticks))))"

section \<open>Files\<close>

definition fdalloc :: "nat \<Rightarrow> 'a ptable_scheme \<Rightarrow> (nat option \<times> 'a ptable_scheme) res" where
  "fdalloc f s =
     bnd (curproc s) (\<lambda>(me, s).
     case find (\<lambda>fd. p_ofile (procs s me) fd = None) [0..<NOFILE] of
       Some fd \<Rightarrow> Inr (Some fd, upd_proc me (\<lambda>x. x\<lparr>p_ofile := (p_ofile x)(fd := Some f)\<rparr>) s)
     | None \<Rightarrow> Inr (None, s))"

definition clear_fd :: "nat \<Rightarrow> ('a ptable_scheme, unit) thr" where
  "clear_fd fd =
     tbnd (ask curproc) (\<lambda>me. set_procs me (\<lambda>x. x\<lparr>p_ofile := (p_ofile x)(fd := None)\<rparr>))"

definition sys_dup :: "('a ftable_scheme, int) thr" where
  "sys_dup =
     arg (argfd 0) (\<lambda>(_, f). arg (fdalloc f) (\<lambda>fd. tbnd (ask (filedup f)) (\<lambda>_. ret (int fd))))"

definition sys_read :: "('a conin_scheme, int) thr" where
  "sys_read =
     arg (argfd 0) (\<lambda>(_, f). arg (argint 2) (\<lambda>n. arg (argptr 1 (sint n)) (\<lambda>p. fileread f p (sint n))))"

definition sys_write :: "('a conin_scheme, int) thr" where
  "sys_write =
     arg (argfd 0) (\<lambda>(_, f). arg (argint 2) (\<lambda>n. arg (argptr 1 (sint n)) (\<lambda>p. filewrite f p (sint n))))"

definition sys_close :: "('a conin_scheme, int) thr" where
  "sys_close =
     arg (argfd 0) (\<lambda>(fd, f). tseq (clear_fd fd) (tseq (fileclose f) (ret 0)))"

definition sys_fstat :: "('a conin_scheme, int) thr" where
  "sys_fstat = arg (argfd 0) (\<lambda>(_, f). arg (argptr 1 20) (\<lambda>st. filestat f st))"

text \<open>The end of a file system call.\<close>

definition finish :: "int \<Rightarrow> ('a conin_scheme, int) thr" where
  "finish r = tseq end_op (ret r)"

definition add_nlink :: "nat \<Rightarrow> ushort \<Rightarrow> ('a conin_scheme, unit) thr" where
  "add_nlink ip d = tseq (set_inode ip (\<lambda>x. x\<lparr>i_nlink := i_nlink x + d\<rparr>)) (iupdate ip)"

definition link_bad :: "nat \<Rightarrow> ('a conin_scheme, int) thr" where
  "link_bad ip =
     tseq (ilock (Some ip))
     (tseq (add_nlink ip (- 1))
     (tseq (iunlockput ip)
     (finish (- 1))))"

definition sys_link :: "('a conin_scheme, int) thr" where
  "sys_link =
     arg (argstr 0) (\<lambda>old. arg (argstr 1) (\<lambda>new.
     tseq begin_op
     (tbnd (namei old) (\<lambda>ipo.
      case ipo of
        None \<Rightarrow> finish (- 1)
      | Some ip \<Rightarrow>
          tseq (ilock (Some ip))
          (tbnd (inode_of ip) (\<lambda>x.
           if i_type x = T_DIR then tseq (iunlockput ip) (finish (- 1))
           else tseq (add_nlink ip 1)
                (tseq (iunlock (Some ip))
                (tbnd (nameiparent new) (\<lambda>r.
                 case r of
                   None \<Rightarrow> link_bad ip
                 | Some (dp, name) \<Rightarrow>
                     tseq (ilock (Some dp))
                     (tbnd (inode_of dp) (\<lambda>d.
                      tbnd (inode_of ip) (\<lambda>x.
                      tbnd (if i_dev d \<noteq> i_dev x then ret (- 1) else dirlink dp name (i_inum x)) (\<lambda>r.
                      if r < 0 then tseq (iunlockput dp) (link_bad ip)
                      else tseq (iunlockput dp) (tseq (iput ip) (finish 0)))))))))))))))"

definition isdirempty :: "nat \<Rightarrow> ('a conin_scheme, bool) thr" where
  "isdirempty dp =
     tbnd (inode_of dp) (\<lambda>x.
     tbnd (tfind (\<lambda>off. tbnd (read_dirent dp off ''isdirempty: readi'') (\<lambda>de.
            ret (if de_inum de \<noteq> 0 then Some () else None))) (drop 2 (dir_offsets x))) (\<lambda>r.
     ret (r = None)))"

definition unlink_entry :: "nat \<Rightarrow> nat \<Rightarrow> uint \<Rightarrow> ('a conin_scheme, int) thr" where
  "unlink_entry dp ip off =
     tseq (ilock (Some ip))
     (tbnd (inode_of ip) (\<lambda>x.
      tseq (panic_when (sint (i_nlink x) < 1) ''unlink: nlink < 1'')
     (tbnd (if i_type x = T_DIR then isdirempty ip else ret True) (\<lambda>e.
      if \<not> e then tseq (iunlockput ip) (tseq (iunlockput dp) (finish (- 1)))
      else tbnd (writei dp (Bytes (replicate 16 0)) off 16) (\<lambda>r.
           tseq (panic_when (r \<noteq> 16) ''unlink: writei'')
          (tseq (if i_type x = T_DIR then add_nlink dp (- 1) else ret ())
          (tseq (iunlockput dp)
          (tseq (add_nlink ip (- 1))
          (tseq (iunlockput ip)
          (finish 0))))))))))"

definition sys_unlink :: "('a conin_scheme, int) thr" where
  "sys_unlink =
     arg (argstr 0) (\<lambda>path.
     tseq begin_op
     (tbnd (nameiparent path) (\<lambda>r.
      case r of
        None \<Rightarrow> finish (- 1)
      | Some (dp, name) \<Rightarrow>
          tseq (ilock (Some dp))
          (if namecmp name (str ''.'') = 0 \<or> namecmp name (str ''..'') = 0
           then tseq (iunlockput dp) (finish (- 1))
           else tbnd (dirlookup dp name) (\<lambda>r.
                case r of
                  None \<Rightarrow> tseq (iunlockput dp) (finish (- 1))
                | Some (ip, off) \<Rightarrow> unlink_entry dp ip off)))))"

text \<open>The directory entries of a new inode \<open>ip\<close> in \<open>dp\<close>.\<close>

definition create_links :: "nat \<Rightarrow> nat \<Rightarrow> uchar list \<Rightarrow> ushort \<Rightarrow> ('a conin_scheme, unit) thr" where
  "create_links dp ip name type =
     tbnd (inode_of ip) (\<lambda>x.
     tbnd (inode_of dp) (\<lambda>d.
     tseq (if type = T_DIR
           then tseq (add_nlink dp 1)
                (tbnd (dirlink ip (str ''.'') (i_inum x)) (\<lambda>r.
                 tbnd (if r < 0 then ret (- 1) else dirlink ip (str ''..'') (i_inum d)) (\<lambda>r.
                 panic_when (r < 0) ''create dots'')))
           else ret ())
     (tbnd (dirlink dp name (i_inum x)) (\<lambda>r.
      panic_when (r < 0) ''create: dirlink''))))"

definition create :: "uchar list \<Rightarrow> ushort \<Rightarrow> ushort \<Rightarrow> ushort \<Rightarrow> ('a conin_scheme, nat option) thr" where
  "create path type major minor =
     tbnd (nameiparent path) (\<lambda>r.
     case r of
       None \<Rightarrow> ret None
     | Some (dp, name) \<Rightarrow>
         tseq (ilock (Some dp))
         (tbnd (dirlookup dp name) (\<lambda>r.
          case r of
            Some (ip, _) \<Rightarrow>
              tseq (iunlockput dp)
              (tseq (ilock (Some ip))
              (tbnd (inode_of ip) (\<lambda>x.
               if type = T_FILE \<and> i_type x = T_FILE then ret (Some ip)
               else tseq (iunlockput ip) (ret None))))
          | None \<Rightarrow>
              tbnd (inode_of dp) (\<lambda>d.
              tbnd (ialloc (i_dev d) type) (\<lambda>ip.
              tseq (ilock (Some ip))
              (tseq (set_inode ip (\<lambda>x. x\<lparr>i_major := major, i_minor := minor, i_nlink := 1\<rparr>))
              (tseq (iupdate ip)
              (tseq (create_links dp ip name type)
              (tseq (iunlockput dp)
              (ret (Some ip)))))))))))"

text \<open>The inode to be opened, locked.\<close>

definition open_inode :: "uchar list \<Rightarrow> uint \<Rightarrow> ('a conin_scheme, nat option) thr" where
  "open_inode path omode =
     (if omode AND 0x200 \<noteq> 0 then create path T_FILE 0 0
      else tbnd (namei path) (\<lambda>ipo.
           case ipo of
             None \<Rightarrow> ret None
           | Some ip \<Rightarrow>
               tseq (ilock (Some ip))
               (tbnd (inode_of ip) (\<lambda>x.
                if i_type x = T_DIR \<and> omode \<noteq> 0 then tseq (iunlockput ip) (ret None)
                else ret (Some ip)))))"

definition sys_open :: "('a conin_scheme, int) thr" where
  "sys_open =
     arg (argstr 0) (\<lambda>path. arg (argint 1) (\<lambda>omode.
     tseq begin_op
     (tbnd (open_inode path omode) (\<lambda>ipo.
      case ipo of
        None \<Rightarrow> finish (- 1)
      | Some ip \<Rightarrow>
          tbnd (ask filealloc) (\<lambda>fo.
          case fo of
            None \<Rightarrow> tseq (iunlockput ip) (finish (- 1))
          | Some f \<Rightarrow>
              tbnd (ask (fdalloc f)) (\<lambda>fdo.
              case fdo of
                None \<Rightarrow> tseq (fileclose f) (tseq (iunlockput ip) (finish (- 1)))
              | Some fd \<Rightarrow>
                  tseq (iunlock (Some ip))
                  (tseq end_op
                  (tseq (modify (upd_file f (\<lambda>x. x\<lparr>f_type := FD_INODE, f_ip := Some ip, f_off := 0,
                           f_readable := omode AND 1 = 0,
                           f_writable := (omode AND 1 \<noteq> 0 \<or> omode AND 2 \<noteq> 0)\<rparr>)))
                  (ret (int fd))))))))))"

definition sys_mkdir :: "('a conin_scheme, int) thr" where
  "sys_mkdir =
     tseq begin_op
     (tbnd (ask (argstr 0)) (\<lambda>a.
      tbnd (case a of None \<Rightarrow> ret None | Some path \<Rightarrow> create path T_DIR 0 0) (\<lambda>ipo.
      case ipo of
        None \<Rightarrow> finish (- 1)
      | Some ip \<Rightarrow> tseq (iunlockput ip) (finish 0))))"

text \<open>The arguments of \<open>sys_mknod\<close>, fetched from left to right until one fails.\<close>

definition mknod_args :: "('a conin_scheme, (uchar list \<times> uint \<times> uint) option) thr" where
  "mknod_args =
     tbnd (ask (argstr 0)) (\<lambda>a. case a of None \<Rightarrow> ret None | Some path \<Rightarrow>
     tbnd (ask (argint 1)) (\<lambda>b. case b of None \<Rightarrow> ret None | Some major \<Rightarrow>
     tbnd (ask (argint 2)) (\<lambda>c. ret (map_option (\<lambda>minor. (path, major, minor)) c))))"

definition sys_mknod :: "('a conin_scheme, int) thr" where
  "sys_mknod =
     tseq begin_op
     (tbnd mknod_args (\<lambda>a.
      tbnd (case a of None \<Rightarrow> ret None
                    | Some (path, major, minor) \<Rightarrow> create path T_DEV (ucast major) (ucast minor)) (\<lambda>ipo.
      case ipo of
        None \<Rightarrow> finish (- 1)
      | Some ip \<Rightarrow> tseq (iunlockput ip) (finish 0))))"

definition sys_chdir :: "('a conin_scheme, int) thr" where
  "sys_chdir =
     tbnd (ask curproc) (\<lambda>me.
     tseq begin_op
     (tbnd (ask (argstr 0)) (\<lambda>a.
      tbnd (case a of None \<Rightarrow> ret None | Some path \<Rightarrow> namei path) (\<lambda>ipo.
      case ipo of
        None \<Rightarrow> finish (- 1)
      | Some ip \<Rightarrow>
          tseq (ilock (Some ip))
          (tbnd (inode_of ip) (\<lambda>x.
           if i_type x \<noteq> T_DIR then tseq (iunlockput ip) (finish (- 1))
           else tseq (iunlock (Some ip))
                (tbnd (proc_of me) (\<lambda>p.
                 tbnd (need (p_cwd p) ''null pointer'') (\<lambda>c.
                 tseq (iput c)
                (tseq end_op
                (tseq (set_procs me (\<lambda>y. y\<lparr>p_cwd := Some ip\<rparr>))
                (ret 0))))))))))))"

text \<open>The loop of \<open>sys_exec\<close> over the argument vector, \<open>n\<close> elements before the end of \<open>argv\<close>.\<close>

fun exec_args :: "nat \<Rightarrow> uint \<Rightarrow> 'a ptable_scheme \<Rightarrow> (uchar list list option \<times> 'a ptable_scheme) res" where
  "exec_args 0 uargv s = Inr (None, s)"
| "exec_args (Suc n) uargv s =
     bnd (fetchint uargv s) (\<lambda>(r, s).
     case r of
       None \<Rightarrow> Inr (None, s)
     | Some uarg \<Rightarrow>
         if uarg = 0 then Inr (Some [], s)
         else bnd (fetchstr uarg s) (\<lambda>(a, s).
              case a of
                None \<Rightarrow> Inr (None, s)
              | Some a \<Rightarrow> bnd (exec_args n (uargv + 4) s) (\<lambda>(r, s). Inr (map_option (Cons a) r, s))))"

definition sys_exec :: "('a conin_scheme, int) thr" where
  "sys_exec =
     arg (argstr 0) (\<lambda>path. arg (argint 1) (\<lambda>uargv. arg (exec_args 32 uargv) (\<lambda>argv. exec path argv)))"

definition pipe_bad :: "nat option \<Rightarrow> nat \<Rightarrow> nat \<Rightarrow> ('a conin_scheme, int) thr" where
  "pipe_bad fd0 rfile wfile =
     tseq (case fd0 of Some fd \<Rightarrow> clear_fd fd | None \<Rightarrow> ret ())
     (tseq (fileclose rfile) (tseq (fileclose wfile) (ret (- 1))))"

definition sys_pipe :: "('a conin_scheme, int) thr" where
  "sys_pipe =
     arg (argptr 0 8) (\<lambda>fd.
     tbnd pipealloc (\<lambda>r.
     case r of
       None \<Rightarrow> ret (- 1)
     | Some (rfile, wfile) \<Rightarrow>
         tbnd (ask (fdalloc rfile)) (\<lambda>fd0.
         case fd0 of
           None \<Rightarrow> pipe_bad None rfile wfile
         | Some d0 \<Rightarrow>
             tbnd (ask (fdalloc wfile)) (\<lambda>fd1.
             case fd1 of
               None \<Rightarrow> pipe_bad (Some d0) rfile wfile
             | Some d1 \<Rightarrow>
                 tseq (act (ustores fd (le32 (of_nat d0))))
                 (tseq (act (ustores (fd + 4) (le32 (of_nat d1))))
                 (ret 0))))))"

section \<open>Dispatch\<close>

definition syscalls :: "policy \<Rightarrow> int \<Rightarrow> nat \<Rightarrow> ('a life_scheme, int) thr option" where
  "syscalls pol junk num =
     (if num = 0 \<or> num > 24 then None
      else Some ([sys_fork pol, sys_exit, sys_wait junk, sys_pipe, sys_read, sys_kill, sys_exec, sys_fstat,
        sys_chdir, sys_dup, sys_getpid, sys_sbrk, sys_sleep, sys_uptime, sys_open, sys_write, sys_mknod,
        sys_unlink, sys_link, sys_mkdir, sys_close, sys_waitx, sys_set_priority, sys_getpinfo] ! (num - 1)))"

definition syscall :: "policy \<Rightarrow> int \<Rightarrow> ('a life_scheme, unit) thr" where
  "syscall pol junk =
     tbnd (ask curproc) (\<lambda>me.
     tbnd (look (\<lambda>s. load32 (mem s) (p_tf (procs s me) + TF_eax))) (\<lambda>num.
     tbnd (case (if sint num > 0 then syscalls pol junk (unat num) else None) of
             Some call \<Rightarrow> call
           | None \<Rightarrow>
               tbnd (proc_of me) (\<lambda>x.
               tseq (act (cprintf (''%d %s: unknown sys call %d'' @ nl)
                       [Aint (p_pid x), Astr (Some (p_name x)), Aint num]))
               (ret (- 1)))) (\<lambda>r.
     modify (\<lambda>s. store (p_tf (procs s me) + TF_eax) (of_int r) s))))"

section \<open>Arguments stay inside the process\<close>

lemma no_wrap:
  assumes "i < z" and "i + w \<le> z" and "z \<le> 0x80000000" and "unat w < 2 ^ 31"
  shows "unat i + unat w \<le> unat (z :: uint)"
proof -
  have "unat z \<le> 0x80000000" "unat i < unat z" using assms(1,3) by (simp_all add: word_le_nat_alt word_less_nat_alt)
  then have "unat i + unat w < 2 ^ 32" using assms(4) by simp
  then have "unat (i + w) = unat i + unat w" by (simp add: unat_word_ariths)
  with assms(2) show ?thesis by (simp add: word_le_nat_alt)
qed

lemma fetchint_inside:
  assumes "inside p H s" and "p_sz (procs s p) \<le> KERNBASE" and "fetchint a s = Inr (Some w, t)"
  shows "unat a + 4 \<le> unat (p_sz (procs s p)) \<and> t = synced s"
  using assms no_wrap [of a "p_sz (procs s p)" 4]
  by (auto simp: fetchint_def curproc_returns [OF assms(1)] res_iff linorder_not_le linorder_not_less split: if_splits)

lemma argint_inside:
  assumes "inside p H s" and "argint n s = Inr (r, t)"
  shows "procs t = procs s \<and> inside p H t"
proof -
  have i: "inside p H (synced s)" using assms(1) by (simp only: inside_synced)
  let ?a = "load32 (mem s) (p_tf (procs s p) + TF_esp) + 4 + 4 * of_nat n"
  have "fetchint ?a (synced s) = Inr (r, t)"
    using assms by (simp add: argint_def curproc_returns [OF assms(1)])
  then have "t = synced (synced s)"
    by (auto simp: fetchint_def curproc_returns [OF i] res_iff split: if_splits)
  then show ?thesis using i by (simp only: inside_synced) simp
qed

lemma fetchstr_loop_string:
  "fetchstr_loop n a s = Inr (Some bs) \<Longrightarrow> length bs < n \<and> 0 \<notin> set bs \<and> uload (a + of_nat (length bs)) s = Inr 0 \<and>
     (\<forall>i<length bs. uload (a + of_nat i) s = Inr (bs ! i))"
proof (induction n arbitrary: a bs)
  case (Suc n)
  obtain c where c: "uload a s = Inr c" using Suc.prems by (auto simp: res_iff)
  show ?case
  proof (cases "c = 0")
    case True
    with c Suc.prems show ?thesis by simp
  next
    case False
    then obtain cs where cs: "fetchstr_loop n (a + 1) s = Inr (Some cs)" "bs = c # cs"
      using c Suc.prems by (auto simp: res_iff)
    from Suc.IH [OF cs(1)] c False show ?thesis
      unfolding cs(2) by (auto simp: add.assoc All_less_Suc2)
  qed
qed simp

lemma uloads_collect:
  "length bs = n \<Longrightarrow> \<forall>i<n. uload (a + of_nat i) s = Inr (bs ! i) \<Longrightarrow> uloads a n s = Inr bs"
proof (induction n arbitrary: a bs)
  case (Suc n)
  then obtain b cs where bs: "bs = b # cs" by (cases bs) auto
  then have "uload a s = Inr b" "\<forall>i<n. uload (a + 1 + of_nat i) s = Inr (cs ! i)"
    using Suc.prems(2) by (auto simp: All_less_Suc2 add.assoc)
  with Suc bs show ?case by simp
qed simp

text \<open>
  C19: system call arguments. In a process of at most \<open>KERNBASE\<close> bytes, a pointer that \<open>argptr\<close> accepts
  for an object of \<open>sz\<close> bytes, a word that \<open>fetchint\<close> reads and a string that \<open>fetchstr\<close> accepts, with
  its terminating zero, lie below the size of the process, although the tests compute with 32-bit
  words; the string is what the memory of the process holds there.
\<close>

theorem syscall_arguments_in_bounds:
  assumes "inside p H s" and "p_sz (procs s p) \<le> KERNBASE"
  shows "(fetchint a s = Inr (Some w, t) \<longrightarrow> unat a + 4 \<le> unat (p_sz (procs s p))) \<and>
    (argptr n sz s = Inr (Some a, t) \<and> sz < 2 ^ 31 \<longrightarrow> 0 \<le> sz \<and> unat a + nat sz \<le> unat (p_sz (procs s p))) \<and>
    (fetchstr a s = Inr (Some bs, t) \<longrightarrow> unat a + length bs < unat (p_sz (procs s p)) \<and> 0 \<notin> set bs \<and>
       uloads a (length bs + 1) s = Inr (bs @ [0]))"
proof (intro conjI impI; (elim conjE)?)
  show "unat a + 4 \<le> unat (p_sz (procs s p))" if "fetchint a s = Inr (Some w, t)"
    using fetchint_inside [OF assms that] by blast
next
  assume g: "argptr n sz s = Inr (Some a, t)" and "sz < 2 ^ 31"
  have i: "inside p H (synced s)" using assms(1) by (simp only: inside_synced)
  obtain u where u: "argint n (synced s) = Inr (Some a, u)" "\<not> sz < 0" "a < p_sz (procs u p)" "a + of_int sz \<le> p_sz (procs u p)"
    using g by (auto simp: argptr_def curproc_returns [OF assms(1)] res_iff linorder_not_le linorder_not_less split: option.splits if_splits)
  then show "0 \<le> sz" by simp
  have "procs u = procs s" using argint_inside [OF i u(1)] by simp
  moreover have "unat (of_int sz :: uint) = nat sz" using u(2) \<open>sz < 2 ^ 31\<close> by (simp add: unsigned_of_int take_bit_int_eq_self flip: nat_uint_eq)
  ultimately show "unat a + nat sz \<le> unat (p_sz (procs s p))"
    using no_wrap [of a "p_sz (procs s p)" "of_int sz"] u assms(2) \<open>sz < 2 ^ 31\<close> by simp
next
  assume g: "fetchstr a s = Inr (Some bs, t)"
  let ?z = "p_sz (procs s p)"
  have l: "a < ?z" "fetchstr_loop (unat (?z - a)) a (synced s) = Inr (Some bs)"
    using g by (auto simp: fetchstr_def curproc_returns [OF assms(1)] res_iff linorder_not_le split: if_splits)
  note b = fetchstr_loop_string [OF l(2)]
  have "unat (?z - a) = unat ?z - unat a" using l(1) by (simp add: unat_sub)
  then show "unat a + length bs < unat ?z" using b by linarith
  show "0 \<notin> set bs" using b by blast
  have "uload v (synced s) = uload v s" for v by (rule uload_cong) (simp_all add: sync_cpu_def)
  then show "uloads a (length bs + 1) s = Inr (bs @ [0])"
    using b uloads_collect [of "bs @ [0]" "length bs + 1" a s] by (simp add: nth_append less_Suc_eq)
qed

text \<open>A process with one page, which holds a string at its start.\<close>

definition str_proc :: life where
  "str_proc = upd_proc 0 (\<lambda>x. x\<lparr>p_sz := 4096\<rparr>) (boot_life\<lparr>mem :=
     (store32 (store32 (\<lambda>_. 0) 0x80000000 0x1007) 0x80001000 0x2007)(0x80002000 := 104, 0x80002001 := 105)\<rparr>)"

theorem syscall_arguments_in_bounds_witness:
  "fetchstr 0 str_proc = Inr (Some [104, 105], synced str_proc) \<and> unat (0 :: uint) + 2 < unat (p_sz (procs str_proc 0)) \<and>
     uloads 0 3 str_proc = Inr [104, 105, 0]"
proof -
  have i: "inside 0 {} str_proc" using inside_boot_life by (subst inside_cong [of _ boot_life]) (simp_all add: str_proc_def upd_proc_def)
  have z: "p_sz (procs str_proc 0) = 4096" by (simp add: str_proc_def upd_proc_def)
  let ?m = "(store32 (store32 (\<lambda>_. 0) 0x80000000 0x1007) 0x80001000 0x2007)(0x80002000 := 104, 0x80002001 := 105)"
  have m: "mem (synced str_proc) = ?m" "cr3 (cur (synced str_proc)) = 0"
    by (simp_all add: str_proc_def upd_proc_def boot_cpu_def sync_cpu_def)
  have e: "load32 ?m 0x80000000 = 0x1007" "load32 ?m 0x80001000 = 0x2007"
    by (simp_all add: load32_def store32_def)
  have "mmu False 0x80000000 0 ?m = Some 0x80002000" "mmu False 0x80000000 1 ?m = Some 0x80002001"
    "mmu False 0x80000000 2 ?m = Some 0x80002002"
    using e by (simp_all add: mmu_def PDX_def PTX_def PTE_ADDR_def present_def P2V_def Let_def word_le_nat_alt)
  then have "uload 0 (synced str_proc) = Inr 104" "uload 1 (synced str_proc) = Inr 105" "uload 2 (synced str_proc) = Inr 0"
    unfolding uload_def m by (simp_all add: P2V_def store32_apply)
  then have l: "fetchstr_loop (Suc (Suc (Suc n))) 0 (synced str_proc) = Inr (Some [104, 105])" for n by simp
  have "Suc (Suc (Suc 4093)) = 4096" by simp
  with l [of 4093] have "fetchstr_loop 4096 0 (synced str_proc) = Inr (Some [104, 105])" by metis
  then have "fetchstr 0 str_proc = Inr (Some [104, 105], synced str_proc)"
    by (simp add: fetchstr_def curproc_returns [OF i] z)
  with syscall_arguments_in_bounds [OF i, where a = 0 and bs = "[104, 105]" and t = "synced str_proc"] z show ?thesis by (simp add: numeral_3_eq_3)
qed

end
