(* ===== verification/Mlfq.thy ===== *)
theory Mlfq
  imports Sleeplock
begin

text \<open>
  The multi-level feedback queues: \<open>aging\<close> of \<open>proc.c\<close>, and the part of \<open>trap\<close> (\<open>trap.c\<close>) that
  moves the running process between the queues on a clock tick. The code searches an array, moves the
  later elements down by one, and appends at the end of another array; the lemmas show that on
  well-formed queues this is removal from a list and appending to a list.
\<close>

section \<open>Array operations\<close>

text \<open>The tests the loops make on a queue element: the pointer, the pid, and whether it can run.\<close>

definition by_ptr :: "nat \<Rightarrow> nat option \<Rightarrow> 'a ptable_scheme \<Rightarrow> bool res" where
  "by_ptr p x s = Inr (x = Some p)"

definition by_pid :: "nat \<Rightarrow> nat option \<Rightarrow> 'a ptable_scheme \<Rightarrow> bool res" where
  "by_pid p x s = bnd (deref x) (\<lambda>j. Inr (p_pid (procs s j) = p_pid (procs s p)))"

definition is_runnable :: "nat option \<Rightarrow> 'a ptable_scheme \<Rightarrow> bool res" where
  "is_runnable x s = bnd (deref x) (\<lambda>j. Inr (p_state (procs s j) = RUNNABLE))"

text \<open>The search that stops at the first element, from \<open>i\<close> over \<open>n\<close> elements.\<close>

fun q_search :: "(nat option \<Rightarrow> 'a ptable_scheme \<Rightarrow> bool res) \<Rightarrow> nat \<Rightarrow> nat \<Rightarrow> nat \<Rightarrow> 'a ptable_scheme \<Rightarrow>
    (nat option) res" where
  "q_search m k i 0 s = Inr None"
| "q_search m k i (Suc n) s =
     bnd (qget k (int i) s) (\<lambda>x.
     bnd (m x s) (\<lambda>b.
     if b then Inr (Some i) else q_search m k (Suc i) n s))"

text \<open>The search without \<open>break\<close>: the last element found, otherwise \<open>ind\<close>.\<close>

fun q_last :: "(nat option \<Rightarrow> 'a ptable_scheme \<Rightarrow> bool res) \<Rightarrow> nat \<Rightarrow> int \<Rightarrow> nat \<Rightarrow> nat \<Rightarrow> 'a ptable_scheme \<Rightarrow>
    int res" where
  "q_last m k ind i 0 s = Inr ind"
| "q_last m k ind i (Suc n) s =
     bnd (qget k (int i) s) (\<lambda>x.
     bnd (m x s) (\<lambda>b.
     q_last m k (if b then int i else ind) (Suc i) n s))"

definition q_find :: "(nat option \<Rightarrow> 'a ptable_scheme \<Rightarrow> bool res) \<Rightarrow> nat \<Rightarrow> 'a ptable_scheme \<Rightarrow> (nat option) res" where
  "q_find m k s = q_search m k 0 (nat (cnt s k)) s"

text \<open>\<open>for (i = ind; i < cnt[k]; i++) q[i] = q[i + 1]\<close>, \<open>n\<close> rounds before its end.\<close>

fun q_shift :: "nat \<Rightarrow> int \<Rightarrow> nat \<Rightarrow> 'a ptable_scheme \<Rightarrow> 'a ptable_scheme res" where
  "q_shift k i 0 s = Inr s"
| "q_shift k i (Suc n) s =
     bnd (qget k (i + 1) s) (\<lambda>x. bnd (qset k i x s) (q_shift k (i + 1) n))"

definition q_close :: "nat \<Rightarrow> int \<Rightarrow> 'a ptable_scheme \<Rightarrow> 'a ptable_scheme res" where
  "q_close k ind s = q_shift k ind (nat (cnt s k - ind)) s"

definition q_push :: "nat \<Rightarrow> nat \<Rightarrow> 'a ptable_scheme \<Rightarrow> 'a ptable_scheme res" where
  "q_push k p s =
     (let s = add_cnt k 1 s
      in bnd (qset k (cnt s k - 1) (Some p) s) (\<lambda>s. Inr (inc_end k s)))"

text \<open>The queue of a process and its counters, when it moves between the queues \<open>a < b\<close>.\<close>

definition set_queue :: "nat \<Rightarrow> nat \<Rightarrow> nat \<Rightarrow> proc \<Rightarrow> proc" where
  "set_queue k a b x = x\<lparr>p_qno := k, p_rrtime := (p_rrtime x)(a := 0, b := 0)\<rparr>"

section \<open>Aging\<close>

definition digit :: "nat \<Rightarrow> string" where
  "digit k = [''01234'' ! k]"

definition age_proc :: "nat \<Rightarrow> nat \<Rightarrow> 'a ptable_scheme \<Rightarrow> 'a ptable_scheme res" where
  "age_proc no p s =
     (let m = (if no = 1 then by_ptr p else by_pid p)
      in bnd (q_find m no s) (\<lambda>r.
         let ind = (case r of Some i \<Rightarrow> int i | None \<Rightarrow> 0);
             s = add_cnt no (- 1) (upd_proc p (set_queue (no - 1) (no - 1) no) s)
         in bnd (cprintf (''%d : Process with pid %d AGED from '' @ digit no @ '' to '' @ digit (no - 1) @ '' rtime %d'' @ nl)
                   [Aint (ticks s), Aint (p_pid (procs s p)), Aint (p_rtime (procs s p))] s) (\<lambda>s.
            bnd (q_close no ind s) (\<lambda>s.
            bnd (q_find m (no - 1) s) (\<lambda>f.
            if f = None then q_push (no - 1) p s else Inr s)))))"

definition wait_time :: "nat \<Rightarrow> 'a ptable_scheme \<Rightarrow> int" where
  "wait_time p s = (let x = procs s p in sint (ticks s - p_ctime x - p_rtime x - p_aging_time x))"

definition aging_step :: "nat \<Rightarrow> 'a ptable_scheme \<Rightarrow> 'a ptable_scheme res" where
  "aging_step p s =
     (if p_state (procs s p) \<noteq> RUNNABLE then Inr s
      else if wait_time p s > time_age
      then let no = p_qno (procs s p)
           in bnd (if no \<in> {1, 2, 3, 4} then age_proc no p s else Inr s) (\<lambda>s.
              Inr (upd_proc p (\<lambda>x. x\<lparr>p_aging_time := ticks s - (p_ctime x + p_rtime x)\<rparr>) s))
      else Inr s)"

definition aging :: "'a ptable_scheme \<Rightarrow> (int \<times> 'a ptable_scheme) res" where
  "aging s =
     bnd (acquire L_ptable s) (\<lambda>s.
     bnd (foldM aging_step [0..<NPROC] s) (\<lambda>s.
     bnd (release L_ptable s) (\<lambda>s. Inr (0, s))))"

section \<open>The clock tick\<close>

text \<open>The running process \<open>p\<close> has used its slice in queue \<open>no < 4\<close> and goes to the next one.\<close>

definition demote :: "nat \<Rightarrow> nat \<Rightarrow> 'a ptable_scheme \<Rightarrow> 'a ptable_scheme res" where
  "demote no p s =
     bnd (if no = 0 then q_last (by_pid p) 0 (- 1) 0 (nat (cnt s 0)) s
          else bnd (q_find (by_ptr p) no s) (\<lambda>r. Inr (case r of Some i \<Rightarrow> int i | None \<Rightarrow> 0))) (\<lambda>ind.
     let s = add_cnt no (- 1) (upd_proc p (set_queue (no + 1) no (no + 1)) s)
     in bnd (q_close no ind s) (\<lambda>s.
        bnd (q_find (by_pid p) (no + 1) s) (\<lambda>f.
        if f = None
        then bnd (cprintf (''%d :Process with pid %d SHIFTED from 0 to 1 rtime %d'' @ nl)
                    [Aint (ticks s), Aint (p_pid (procs s p)), Aint (p_rtime (procs s p))] s) (q_push (no + 1) p)
        else Inr s)))"

text \<open>In the last queue it goes to the end of the same queue.\<close>

definition rotate4 :: "nat \<Rightarrow> 'a ptable_scheme \<Rightarrow> 'a ptable_scheme res" where
  "rotate4 p s =
     (let s = upd_proc p (\<lambda>x. x\<lparr>p_rrtime := (p_rrtime x)(4 := 0)\<rparr>) s
      in bnd (q_find (by_ptr p) 4 s) (\<lambda>r.
         bnd (qset 4 (cnt s 4) (Some p) s) (\<lambda>s.
         q_close 4 (case r of Some i \<Rightarrow> int i | None \<Rightarrow> 0) (inc_end 4 s))))"

definition q_flag :: "nat \<Rightarrow> 'a ptable_scheme \<Rightarrow> bool res" where
  "q_flag k s = bnd (q_find is_runnable k s) (\<lambda>r. Inr (r \<noteq> None))"

text \<open>What the clock tick does with the running process \<open>p\<close>, and whether it gives up the CPU.\<close>

definition mlfq_tick :: "nat \<Rightarrow> 'a ptable_scheme \<Rightarrow> (bool \<times> 'a ptable_scheme) res" where
  "mlfq_tick p s =
     (let no = p_qno (procs s p); r = p_rrtime (procs s p) no
      in if r = 0 then Inr (False, s)
         else if no < 4 \<and> sint r mod 2 ^ no = 0 then bnd (demote no p s) (\<lambda>s. Inr (True, s))
         else if no = 4 \<and> sint r mod 16 = 0 then bnd (rotate4 p s) (\<lambda>s. Inr (True, s))
         else bnd (q_flag 0 s) (\<lambda>flag0.
              bnd (q_flag 1 s) (\<lambda>flag1.
              bnd (q_flag 2 s) (\<lambda>flag2.
              bnd (q_flag 3 s) (\<lambda>flag3.
              Inr ((no = 1 \<and> flag0) \<or> (no = 2 \<and> (flag0 \<or> flag1)) \<or> (no = 3 \<and> (flag0 \<or> flag1 \<or> flag2)) \<or>
                   (no = 4 \<and> (flag0 \<or> flag1 \<or> flag2 \<or> flag3)), s))))))"

section \<open>Arrays as lists\<close>

text \<open>The array of queue \<open>k\<close> with its counter holds the list \<open>q\<close>.\<close>

definition array :: "'a ptable_scheme \<Rightarrow> nat \<Rightarrow> nat list \<Rightarrow> bool" where
  "array s k q \<longleftrightarrow> cnt s k = int (length q) \<and> (\<forall>i<length q. mlfq s k i = Some (q ! i))"

lemma array_cong: "mlfq t k = mlfq s k \<Longrightarrow> cnt t k = cnt s k \<Longrightarrow> array t k q = array s k q"
  by (simp add: array_def)

lemma qget_eq [simp]: "i < QSIZE \<Longrightarrow> qget k (int i) s = Inr (mlfq s k i)"
  by (simp add: qget_def)

lemma qset_eq [simp]: "i < QSIZE \<Longrightarrow> qset k (int i) x s = Inr (s\<lparr>mlfq := (mlfq s)(k := (mlfq s k)(i := x))\<rparr>)"
  by (simp add: qset_def)

lemma q_search_find:
  assumes "\<And>j. i \<le> j \<Longrightarrow> j < i + n \<Longrightarrow> j < QSIZE \<and> m (mlfq s k j) s = Inr (P j)"
  shows "q_search m k i n s = Inr (find P [i..<i + n])"
  using assms
proof (induction n arbitrary: i)
  case 0
  then show ?case by simp
next
  case (Suc n)
  have "q_search m k (Suc i) n s = Inr (find P [Suc i..<Suc i + n])"
    by (rule Suc.IH) (use Suc.prems in auto)
  moreover have "i < QSIZE" "m (mlfq s k i) s = Inr (P i)" using Suc.prems [of i] by auto
  moreover have "[i..<i + Suc n] = i # [Suc i..<Suc i + n]" by (simp add: upt_conv_Cons)
  ultimately show ?case by simp
qed

lemma q_last_fold:
  assumes "\<And>j. i \<le> j \<Longrightarrow> j < i + n \<Longrightarrow> j < QSIZE \<and> m (mlfq s k j) s = Inr (P j)"
  shows "q_last m k ind i n s = Inr (fold (\<lambda>j ind. if P j then int j else ind) [i..<i + n] ind)"
  using assms
proof (induction n arbitrary: i ind)
  case 0
  then show ?case by simp
next
  case (Suc n)
  have "q_last m k (if P i then int i else ind) (Suc i) n s =
      Inr (fold (\<lambda>j ind. if P j then int j else ind) [Suc i..<Suc i + n] (if P i then int i else ind))"
    by (rule Suc.IH) (use Suc.prems in auto)
  moreover have "i < QSIZE" "m (mlfq s k i) s = Inr (P i)" using Suc.prems [of i] by auto
  moreover have "[i..<i + Suc n] = i # [Suc i..<Suc i + n]" by (simp add: upt_conv_Cons)
  ultimately show ?case by simp
qed

lemma q_shift_eq:
  "i + n < QSIZE \<Longrightarrow> q_shift k (int i) n s =
     Inr (s\<lparr>mlfq := (mlfq s)(k := (\<lambda>j. if i \<le> j \<and> j < i + n then mlfq s k (Suc j) else mlfq s k j))\<rparr>)"
proof (induction n arbitrary: i s)
  case 0
  have "(\<lambda>j. if i \<le> j \<and> j < i + 0 then mlfq s k (Suc j) else mlfq s k j) = mlfq s k" by (rule ext) auto
  then show ?case by simp
next
  case (Suc n)
  let ?s = "s\<lparr>mlfq := (mlfq s)(k := (mlfq s k)(i := mlfq s k (Suc i)))\<rparr>"
  have b: "i < QSIZE" "Suc i < QSIZE" "Suc i + n < QSIZE" using Suc.prems by auto
  have eq: "(\<lambda>j. if Suc i \<le> j \<and> j < Suc i + n then mlfq ?s k (Suc j) else mlfq ?s k j) =
      (\<lambda>j. if i \<le> j \<and> j < i + Suc n then mlfq s k (Suc j) else mlfq s k j)"
    by (rule ext) auto
  have e: "int i + 1 = int (Suc i)" by simp
  have "q_shift k (int i) (Suc n) s = q_shift k (int (Suc i)) n ?s"
    using b(1,2) by (simp add: e del: of_nat_Suc)
  also have "\<dots> = Inr (?s\<lparr>mlfq := (mlfq ?s)(k := (\<lambda>j. if i \<le> j \<and> j < i + Suc n then mlfq s k (Suc j) else mlfq s k j))\<rparr>)"
    unfolding Suc.IH [OF b(3)] eq ..
  also have "\<dots> = Inr (s\<lparr>mlfq := (mlfq s)(k := (\<lambda>j. if i \<le> j \<and> j < i + Suc n then mlfq s k (Suc j) else mlfq s k j))\<rparr>)"
    by simp
  finally show ?case .
qed

lemma fold_unique:
  "distinct xs \<Longrightarrow> x \<in> set xs \<Longrightarrow> (\<forall>j\<in>set xs. P j \<longleftrightarrow> j = x) \<Longrightarrow>
     fold (\<lambda>j ind. if P j then f j else ind) xs a = f x"
proof (induction xs arbitrary: a)
  case (Cons y xs)
  show ?case
  proof (cases "y = x")
    case True
    then have "\<forall>j\<in>set xs. \<not> P j" using Cons.prems by auto
    then have "fold (\<lambda>j ind. if P j then f j else ind) xs b = b" for b by (induction xs) auto
    with True Cons.prems show ?thesis by simp
  next
    case False
    with Cons show ?thesis by simp
  qed
qed simp

lemma find_unique: "x \<in> set xs \<Longrightarrow> (\<forall>j\<in>set xs. P j \<longleftrightarrow> j = x) \<Longrightarrow> find P xs = Some x"
  by (induction xs) auto

text \<open>Which process a test accepts, in a list of processes with distinct pids.\<close>

definition picks :: "(nat option \<Rightarrow> 'a ptable_scheme \<Rightarrow> bool res) \<Rightarrow> nat \<Rightarrow> nat list \<Rightarrow> 'a ptable_scheme \<Rightarrow> bool" where
  "picks m p q s \<longleftrightarrow> (\<forall>j\<in>set q. m (Some j) s = Inr (j = p))"

lemma picks_by_ptr: "picks (by_ptr p) p q s"
  by (simp add: picks_def by_ptr_def)

lemma picks_by_pid: "(\<forall>j\<in>set q. p_pid (procs s j) = p_pid (procs s p) \<longrightarrow> j = p) \<Longrightarrow> picks (by_pid p) p q s"
  by (auto simp: picks_def by_pid_def deref_def)

lemma array_test:
  assumes "array s k q" and "length q \<le> QSIZE" and "picks m p q s" and "j < length q"
  shows "j < QSIZE \<and> m (mlfq s k j) s = Inr (q ! j = p)"
  using assms by (auto simp: array_def picks_def)

lemma q_find_array:
  assumes "array s k q" and "length q \<le> QSIZE" and "picks m p q s"
  shows "q_find m k s = Inr (find (\<lambda>j. q ! j = p) [0..<length q])"
proof -
  have "q_search m k 0 (length q) s = Inr (find (\<lambda>j. q ! j = p) [0..<0 + length q])"
    using array_test [OF assms] by (intro q_search_find) auto
  with assms(1) show ?thesis by (simp add: q_find_def array_def)
qed

lemma q_find_in:
  assumes "array s k q" and "length q \<le> QSIZE" and "picks m p q s" and "distinct q" and "x < length q" and "q ! x = p"
  shows "q_find m k s = Inr (Some x)"
proof -
  have "find (\<lambda>j. q ! j = p) [0..<length q] = Some x"
    using assms(4-6) by (intro find_unique) (auto simp: nth_eq_iff_index_eq)
  then show ?thesis using q_find_array [OF assms(1-3)] by simp
qed

lemma q_find_out:
  assumes "array s k q" and "length q \<le> QSIZE" and "picks m p q s" and "p \<notin> set q"
  shows "q_find m k s = Inr None"
  using q_find_array [OF assms(1-3)] assms(4) by (auto simp: find_None_iff)

lemma q_last_in:
  assumes "array s k q" and "length q \<le> QSIZE" and "picks m p q s" and "distinct q" and "x < length q" and "q ! x = p"
  shows "q_last m k ind 0 (nat (cnt s k)) s = Inr (int x)"
proof -
  have "q_last m k ind 0 (length q) s =
      Inr (fold (\<lambda>j ind. if q ! j = p then int j else ind) [0..<0 + length q] ind)"
    using array_test [OF assms(1-3)] by (intro q_last_fold) auto
  also have "fold (\<lambda>j ind. if q ! j = p then int j else ind) [0..<0 + length q] ind = int x"
    using assms(4-6) by (intro fold_unique) (auto simp: nth_eq_iff_index_eq)
  finally show ?thesis using assms(1) by (simp add: array_def)
qed

text \<open>Closing the gap removes the element; a process whose element was removed is appended.\<close>

lemma remove1_nth:
  assumes "distinct q" and "x < length q" and "i < length q - 1"
  shows "remove1 (q ! x) q ! i = (if i < x then q ! i else q ! Suc i)"
proof -
  have q: "q = take x q @ q ! x # drop (Suc x) q" using assms(2) by (rule id_take_nth_drop)
  have "q ! x \<notin> set (take x q)"
    using assms(1,2) by (auto simp: in_set_conv_nth nth_eq_iff_index_eq)
  then have "remove1 (q ! x) q = take x q @ drop (Suc x) q"
    by (subst (2) q) (simp add: remove1_append)
  then show ?thesis using assms by (auto simp: nth_append min_def)
qed

lemma q_close_array:
  assumes "\<forall>i<length q. mlfq s k i = Some (q ! i)" and "cnt s k = int (length q) - 1" and "length q \<le> QSIZE"
    and "distinct q" and "x < length q"
  shows "\<exists>g. q_close k (int x) s = Inr (s\<lparr>mlfq := (mlfq s)(k := g)\<rparr>) \<and>
    array (s\<lparr>mlfq := (mlfq s)(k := g)\<rparr>) k (remove1 (q ! x) q)"
proof -
  let ?n = "length q - 1 - x"
  let ?g = "\<lambda>j. if x \<le> j \<and> j < x + ?n then mlfq s k (Suc j) else mlfq s k j"
  have "nat (cnt s k - int x) = ?n" using assms(2,5) by linarith
  moreover have b: "x + ?n < QSIZE" "x + ?n = length q - 1" using assms(3,5) by auto
  ultimately have "q_close k (int x) s = Inr (s\<lparr>mlfq := (mlfq s)(k := ?g)\<rparr>)"
    by (simp add: q_close_def q_shift_eq)
  moreover have "array (s\<lparr>mlfq := (mlfq s)(k := ?g)\<rparr>) k (remove1 (q ! x) q)"
    using assms b(2) remove1_nth [OF assms(4,5)] by (auto simp: array_def length_remove1)
  ultimately show ?thesis by blast
qed

lemma q_push_array:
  assumes "array s k q" and "length q < QSIZE"
  shows "\<exists>t. q_push k p s = Inr t \<and> array t k (q @ [p]) \<and> procs t = procs s \<and> ticks t = ticks s \<and>
    (\<forall>j. j \<noteq> k \<longrightarrow> mlfq t j = mlfq s j \<and> cnt t j = cnt s j) \<and> (\<forall>p H. inside p H t = inside p H s)"
proof -
  have c: "cnt (add_cnt k 1 s) k - 1 = int (length q)" using assms(1) by (simp add: array_def add_cnt_def)
  let ?t = "inc_end k ((add_cnt k 1 s)\<lparr>mlfq := (mlfq s)(k := (mlfq s k)(length q := Some p))\<rparr>)"
  have "q_push k p s = Inr ?t"
    using qset_eq [OF assms(2), of k "Some p" "add_cnt k 1 s"]
    unfolding q_push_def Let_def c by (simp add: add_cnt_def)
  moreover have "array ?t k (q @ [p])"
    using assms(1) by (auto simp: array_def inc_end_def add_cnt_def nth_append less_Suc_eq)
  moreover have "inside p H ?t = inside p H s" for p H
    by (rule inside_cong) (simp_all add: inc_end_def add_cnt_def)
  ultimately show ?thesis by (intro exI [of _ ?t]) (auto simp: inc_end_def add_cnt_def)
qed

section \<open>The queues\<close>

text \<open>
  The five arrays hold the lists \<open>Q\<close>: no process twice, each in the queue its \<open>qno\<close> names, every
  process that can run in a queue, and no two queued processes with the same pid.
\<close>

definition mlfq_ok :: "'a ptable_scheme \<Rightarrow> (nat \<Rightarrow> nat list) \<Rightarrow> bool" where
  "mlfq_ok s Q \<longleftrightarrow>
     (\<forall>k<5. array s k (Q k) \<and> distinct (Q k) \<and> (\<forall>p\<in>set (Q k). p < NPROC \<and> p_qno (procs s p) = k)) \<and>
     (\<forall>j<5. \<forall>k<5. \<forall>p\<in>set (Q j). \<forall>q\<in>set (Q k). p_pid (procs s p) = p_pid (procs s q) \<longrightarrow> p = q) \<and>
     (\<forall>p<NPROC. p_state (procs s p) \<in> {RUNNABLE, RUNNING} \<longrightarrow>
        p_qno (procs s p) < 5 \<and> p \<in> set (Q (p_qno (procs s p))))"

definition move :: "nat \<Rightarrow> nat \<Rightarrow> nat \<Rightarrow> (nat \<Rightarrow> nat list) \<Rightarrow> nat \<Rightarrow> nat list" where
  "move p a b Q = Q(a := remove1 p (Q a), b := Q b @ [p])"

lemma mlfq_okD:
  assumes "mlfq_ok s Q" and "k < 5"
  shows "array s k (Q k)" "distinct (Q k)" "\<And>p. p \<in> set (Q k) \<Longrightarrow> p < NPROC \<and> p_qno (procs s p) = k"
  using assms by (auto simp: mlfq_ok_def)

lemma mlfq_ok_pid:
  "mlfq_ok s Q \<Longrightarrow> j < 5 \<Longrightarrow> k < 5 \<Longrightarrow> p \<in> set (Q j) \<Longrightarrow> q \<in> set (Q k) \<Longrightarrow>
     p_pid (procs s p) = p_pid (procs s q) \<Longrightarrow> p = q"
  unfolding mlfq_ok_def by blast

lemma mlfq_ok_cong:
  "procs t = procs s \<Longrightarrow> mlfq t = mlfq s \<Longrightarrow> cnt t = cnt s \<Longrightarrow> mlfq_ok t Q = mlfq_ok s Q"
  by (simp add: mlfq_ok_def array_def)

text \<open>The counters stay far below the size of the arrays.\<close>

lemma mlfq_ok_length:
  assumes "mlfq_ok s Q" and "k < 5"
  shows "length (Q k) \<le> NPROC"
proof -
  have "set (Q k) \<subseteq> {..<NPROC}" using mlfq_okD(3) [OF assms] by auto
  then have "card (set (Q k)) \<le> card {..<NPROC}" by (intro card_mono) auto
  then show ?thesis using distinct_card [OF mlfq_okD(2) [OF assms]] by simp
qed

text \<open>A process moves from queue \<open>a\<close> to queue \<open>b\<close> in two steps.\<close>

lemma requeue_close:
  assumes ok: "mlfq_ok s Q" and k: "a < 5" "b < 5" "a \<noteq> b" and x: "x < length (Q a)" "Q a ! x = p"
    and u: "mlfq u = mlfq s" "cnt u = (cnt s)(a := cnt s a - 1)" "procs u = (procs s)(p := y)"
      "p_pid y = p_pid (procs s p)" and m: "m = by_ptr p \<or> m = by_pid p"
  shows "\<exists>v. q_close a (int x) u = Inr v \<and> array v a (remove1 p (Q a)) \<and>
    (\<forall>k. k \<noteq> a \<longrightarrow> mlfq v k = mlfq s k \<and> cnt v k = cnt s k) \<and> procs v = procs u \<and> ticks v = ticks u \<and>
    (\<forall>p H. inside p H v = inside p H u) \<and> q_find m b v = Inr None"
proof -
  note a = mlfq_okD [OF ok k(1)] and b = mlfq_okD [OF ok k(2)]
  have l: "length (Q a) \<le> QSIZE" "length (Q b) \<le> QSIZE"
    using mlfq_ok_length [OF ok k(1)] mlfq_ok_length [OF ok k(2)] by auto
  obtain g where g: "q_close a (int x) u = Inr (u\<lparr>mlfq := (mlfq u)(a := g)\<rparr>)"
      "array (u\<lparr>mlfq := (mlfq u)(a := g)\<rparr>) a (remove1 p (Q a))"
    using q_close_array [of "Q a" u a x] a(1,2) l(1) x u by (auto simp: array_def)
  let ?v = "u\<lparr>mlfq := (mlfq u)(a := g)\<rparr>"
  have p: "p \<in> set (Q a)" using x by auto
  then have nb: "p \<notin> set (Q b)" using a(3) b(3) k(3) by auto
  have "p_pid (procs ?v j) = p_pid (procs s j)" for j using u(3,4) by simp
  then have "picks m p (Q b) ?v"
    using m mlfq_ok_pid [OF ok k(2,1) _ p] by (auto intro: picks_by_ptr picks_by_pid)
  moreover have "array ?v b (Q b)" using b(1) u(1,2) k(3) by (subst array_cong [of _ _ s]) auto
  ultimately have "q_find m b ?v = Inr None" using q_find_out [OF _ l(2) _ nb] by blast
  moreover have "inside p H ?v = inside p H u" for p H by (rule inside_cong) simp_all
  ultimately show ?thesis using g u by (intro exI [of _ ?v]) auto
qed

lemma mlfq_ok_move:
  assumes ok: "mlfq_ok s Q" and k: "a < 5" "b < 5" "a \<noteq> b" and p: "p \<in> set (Q a)"
    and t: "array t a (remove1 p (Q a))" "array t b (Q b @ [p])"
      "\<And>k. k \<noteq> a \<Longrightarrow> k \<noteq> b \<Longrightarrow> mlfq t k = mlfq s k \<and> cnt t k = cnt s k" "procs t = (procs s)(p := y)"
      "p_pid y = p_pid (procs s p)" "p_state y = p_state (procs s p)" "p_qno y = b"
  shows "mlfq_ok t (move p a b Q)"
proof -
  let ?Q = "move p a b Q"
  note a = mlfq_okD [OF ok k(1)] and b = mlfq_okD [OF ok k(2)]
  have nb: "p \<notin> set (Q k)" if "k < 5" "k \<noteq> a" for k using mlfq_okD(3) [OF ok that(1)] a(3) p that(2) by fastforce
  have sQ: "set (?Q k) = (if k = a then set (Q a) - {p} else if k = b then insert p (set (Q b)) else set (Q k))" for k
    using a(2) k(3) by (auto simp: move_def)
  have pid: "p_pid (procs t j) = p_pid (procs s j)" for j using t(4,5) by simp
  have in_old: "\<exists>j<5. q \<in> set (Q j)" if "k < 5" "q \<in> set (?Q k)" for k q
    using that p k sQ [of k] by (auto split: if_splits)
  have "array t k (?Q k) \<and> distinct (?Q k) \<and> (\<forall>q\<in>set (?Q k). q < NPROC \<and> p_qno (procs t q) = k)" if "k < 5" for k
  proof -
    note d = mlfq_okD [OF ok that]
    have "array t k (?Q k)"
      using t(1-3) d(1) k(3) array_cong [of t k s "Q k"] by (auto simp: move_def)
    moreover have "distinct (?Q k)" using d(2) a(2) b(2) nb [OF k(2)] k(3) by (auto simp: move_def)
    moreover have "q < NPROC \<and> p_qno (procs t q) = k" if "q \<in> set (?Q k)" for q
      using that d(3) a(3) b(3) p nb [OF \<open>k < 5\<close>] t(4,7) unfolding sQ by (auto split: if_splits)
    ultimately show ?thesis by blast
  qed
  moreover have "q = r" if "j < 5" "k < 5" "q \<in> set (?Q j)" "r \<in> set (?Q k)" "p_pid (procs t q) = p_pid (procs t r)" for j k q r
    using in_old [OF that(1,3)] in_old [OF that(2,4)] that(5) mlfq_ok_pid [OF ok] unfolding pid by blast
  moreover have "p_qno (procs t q) < 5 \<and> q \<in> set (?Q (p_qno (procs t q)))"
    if "q < NPROC" "p_state (procs t q) \<in> {RUNNABLE, RUNNING}" for q
  proof (cases "q = p")
    case True
    then show ?thesis using t(4,7) k(2,3) sQ [of b] by auto
  next
    case False
    then have "p_state (procs s q) \<in> {RUNNABLE, RUNNING}" "procs t q = procs s q" using that(2) t(4) by auto
    moreover from this(1) have "p_qno (procs s q) < 5" "q \<in> set (Q (p_qno (procs s q)))"
      using ok that(1) unfolding mlfq_ok_def by blast+
    ultimately show ?thesis using False unfolding sQ by auto
  qed
  ultimately show ?thesis unfolding mlfq_ok_def by blast
qed

lemma requeue_push:
  assumes ok: "mlfq_ok s Q" and k: "a < 5" "b < 5" "a \<noteq> b" and p: "p \<in> set (Q a)"
    and v: "array v a (remove1 p (Q a))" "\<forall>k. k \<noteq> a \<longrightarrow> mlfq v k = mlfq s k \<and> cnt v k = cnt s k"
      "procs v = (procs s)(p := y)"
      "p_pid y = p_pid (procs s p)" "p_state y = p_state (procs s p)" "p_qno y = b"
  shows "\<exists>t. q_push b p v = Inr t \<and> mlfq_ok t (move p a b Q) \<and> procs t = procs v \<and> ticks t = ticks v \<and>
    (\<forall>p H. inside p H t = inside p H v)"
proof -
  have b: "array v b (Q b)" using mlfq_okD(1) [OF ok k(2)] v(2) k(3) array_cong [of v b s "Q b"] by simp
  have "length (Q b) < QSIZE" using mlfq_ok_length [OF ok k(2)] by simp
  then obtain t where t: "q_push b p v = Inr t" "array t b (Q b @ [p])" "procs t = procs v" "ticks t = ticks v"
      "\<forall>j. j \<noteq> b \<longrightarrow> mlfq t j = mlfq v j \<and> cnt t j = cnt v j" "\<forall>p H. inside p H t = inside p H v"
    using q_push_array [OF b, of p] by blast
  have "array t a (remove1 p (Q a))" using v(1) t(5) k(3) array_cong [of t a v] by simp
  then have "mlfq_ok t (move p a b Q)"
    using t(2,3,5) v(2-6) by (intro mlfq_ok_move [OF ok k p, of t y]) auto
  with t show ?thesis by blast
qed

section \<open>Moving a process\<close>

lemma age_fmt: "no \<in> {1, 2, 3, 4} \<Longrightarrow> fmt_ok (str (''%d : Process with pid %d AGED from '' @ digit no @ '' to '' @
    digit (no - 1) @ '' rtime %d'' @ nl)) [Aint a, Aint b, Aint c]"
  by (auto simp: digit_def str_def)

lemma shift_fmt: "fmt_ok (str (''%d :Process with pid %d SHIFTED from 0 to 1 rtime %d'' @ nl)) [Aint a, Aint b, Aint c]"
  by (simp add: str_def)

lemma set_queue_simps [simp]:
  "p_pid (set_queue k a b x) = p_pid x" "p_state (set_queue k a b x) = p_state x" "p_qno (set_queue k a b x) = k"
  by (simp_all add: set_queue_def)

lemma inside_add_cnt [simp]: "inside p H (add_cnt k d s) = inside p H s"
  by (rule inside_cong) (simp_all add: add_cnt_def)

lemma add_cnt_simps [simp]:
  "mlfq (add_cnt k d s) = mlfq s" "cnt (add_cnt k d s) = (cnt s)(k := cnt s k + d)" "procs (add_cnt k d s) = procs s"
  "ticks (add_cnt k d s) = ticks s"
  by (simp_all add: add_cnt_def)

lemma find_queued:
  assumes ok: "mlfq_ok s Q" and k: "k < 5" and p: "p \<in> set (Q k)" and m: "m = by_ptr p \<or> m = by_pid p"
  shows "\<exists>x<length (Q k). Q k ! x = p \<and> q_find m k s = Inr (Some x) \<and> q_last m k ind 0 (nat (cnt s k)) s = Inr (int x)"
proof -
  note d = mlfq_okD [OF ok k]
  obtain x where x: "x < length (Q k)" "Q k ! x = p" using p by (auto simp: in_set_conv_nth)
  have "picks m p (Q k) s"
    using m mlfq_ok_pid [OF ok k k _ p] by (auto intro: picks_by_ptr picks_by_pid)
  moreover have "length (Q k) \<le> QSIZE" using mlfq_ok_length [OF ok k] by simp
  ultimately show ?thesis using q_find_in [OF d(1) _ _ d(2) x] q_last_in [OF d(1) _ _ d(2) x] x by blast
qed

lemma age_proc_moves:
  assumes "inside me H s" and ok: "mlfq_ok s Q" and no: "no \<in> {1, 2, 3, 4}" and p: "p \<in> set (Q no)"
  shows "\<exists>t. age_proc no p s = Inr t \<and> inside me H t \<and> mlfq_ok t (move p no (no - 1) Q) \<and>
    procs t = (procs s)(p := set_queue (no - 1) (no - 1) no (procs s p)) \<and> ticks t = ticks s"
proof -
  let ?m = "if no = 1 then by_ptr p else by_pid p"
  let ?u = "add_cnt no (- 1) (upd_proc p (set_queue (no - 1) (no - 1) no) s)"
  have k: "no < 5" "no - 1 < 5" "no \<noteq> no - 1" using no by auto
  have m: "?m = by_ptr p \<or> ?m = by_pid p" by simp
  obtain x where x: "x < length (Q no)" "Q no ! x = p" "q_find ?m no s = Inr (Some x)"
    using find_queued [OF ok k(1) p m] by blast
  have "inside me H ?u" using assms(1) by simp
  then obtain w where w: "cprintf (''%d : Process with pid %d AGED from '' @ digit no @ '' to '' @ digit (no - 1) @ '' rtime %d'' @ nl)
      [Aint (ticks ?u), Aint (p_pid (procs ?u p)), Aint (p_rtime (procs ?u p))] ?u = Inr w" "inside me H w" "quiet ?u w"
    using cprintf_returns [OF _ age_fmt [OF no]] by blast
  note q = quiet_ptable [OF w(3)]
  obtain v where v: "q_close no (int x) w = Inr v" "array v no (remove1 p (Q no))"
      "\<forall>k. k \<noteq> no \<longrightarrow> mlfq v k = mlfq s k \<and> cnt v k = cnt s k" "procs v = procs w" "ticks v = ticks w"
      "\<forall>p H. inside p H v = inside p H w" "q_find ?m (no - 1) v = Inr None"
    using requeue_close [OF ok k x(1,2), of w "set_queue (no - 1) (no - 1) no (procs s p)" ?m] q m by auto
  obtain t where t: "q_push (no - 1) p v = Inr t" "mlfq_ok t (move p no (no - 1) Q)" "procs t = procs v"
      "ticks t = ticks v" "\<forall>p H. inside p H t = inside p H v"
    using requeue_push [OF ok k p v(2,3), of "set_queue (no - 1) (no - 1) no (procs s p)"] v(4) q by auto
  have "age_proc no p s = Inr t"
    using x(3) w(1) v(1,7) t(1) unfolding age_proc_def Let_def by simp
  then show ?thesis using t v(4-6) w(2) q by auto
qed

lemma demote_moves:
  assumes "inside me H s" and ok: "mlfq_ok s Q" and no: "no < 4" and p: "p \<in> set (Q no)"
  shows "\<exists>t. demote no p s = Inr t \<and> inside me H t \<and> mlfq_ok t (move p no (no + 1) Q) \<and>
    procs t = (procs s)(p := set_queue (no + 1) no (no + 1) (procs s p)) \<and> ticks t = ticks s"
proof -
  let ?f = "set_queue (no + 1) no (no + 1)"
  let ?u = "add_cnt no (- 1) (upd_proc p ?f s)"
  let ?arg = "[Aint (ticks ?u), Aint (p_pid (procs ?u p)), Aint (p_rtime (procs ?u p))]"
  have k: "no < 5" "no + 1 < 5" "no \<noteq> no + 1" using no by auto
  obtain x where x: "x < length (Q no)" "Q no ! x = p" "no \<noteq> 0 \<Longrightarrow> q_find (by_ptr p) no s = Inr (Some x)"
      "no = 0 \<Longrightarrow> q_last (by_pid p) 0 (- 1) 0 (nat (cnt s 0)) s = Inr (int x)"
    using find_queued [OF ok k(1) p, of "by_pid p" "- 1"] find_queued [OF ok k(1) p, of "by_ptr p"]
    by (cases "no = 0") (simp_all, blast+)
  obtain v where v: "q_close no (int x) ?u = Inr v" "array v no (remove1 p (Q no))"
      "\<forall>k. k \<noteq> no \<longrightarrow> mlfq v k = mlfq s k \<and> cnt v k = cnt s k" "procs v = procs ?u" "ticks v = ticks ?u"
      "\<forall>p H. inside p H v = inside p H ?u" "q_find (by_pid p) (no + 1) v = Inr None"
    using requeue_close [OF ok k x(1,2), of ?u "?f (procs s p)" "by_pid p"] by auto
  have "inside me H v" using v(6) assms(1) by simp
  then obtain w where w: "cprintf (''%d :Process with pid %d SHIFTED from 0 to 1 rtime %d'' @ nl) ?arg v = Inr w"
      "inside me H w" "quiet v w"
    using cprintf_returns [OF _ shift_fmt] by blast
  note q = quiet_ptable [OF w(3)]
  have "array w no (remove1 p (Q no))" using v(2) q array_cong [of w no v] by simp
  moreover have "\<forall>k. k \<noteq> no \<longrightarrow> mlfq w k = mlfq s k \<and> cnt w k = cnt s k" using v(3) q by simp
  ultimately obtain t where t: "q_push (no + 1) p w = Inr t" "mlfq_ok t (move p no (no + 1) Q)" "procs t = procs w"
      "ticks t = ticks w" "\<forall>p H. inside p H t = inside p H w"
    using requeue_push [OF ok k p, of w "?f (procs s p)"] v(4) q by auto
  have "demote no p s = Inr t"
    using x(3,4) v(1,4,5,7) w(1) t(1) unfolding demote_def Let_def by (cases "no = 0") simp_all
  then show ?thesis using t v(4-6) w(2) q by auto
qed

lemma q_flag_eq:
  assumes ok: "mlfq_ok s Q" and k: "k < 5"
  shows "q_flag k s = Inr (\<exists>q\<in>set (Q k). p_state (procs s q) = RUNNABLE)"
proof -
  note d = mlfq_okD [OF ok k]
  have "length (Q k) \<le> QSIZE" using mlfq_ok_length [OF ok k] by simp
  then have "q_search is_runnable k 0 (length (Q k)) s =
      Inr (find (\<lambda>j. p_state (procs s (Q k ! j)) = RUNNABLE) [0..<0 + length (Q k)])"
    using d(1) by (intro q_search_find) (auto simp: array_def is_runnable_def deref_def)
  then have "q_flag k s = Inr (find (\<lambda>j. p_state (procs s (Q k ! j)) = RUNNABLE) [0..<length (Q k)] \<noteq> None)"
    using d(1) by (simp add: q_flag_def q_find_def array_def)
  also have "(find (\<lambda>j. p_state (procs s (Q k ! j)) = RUNNABLE) [0..<length (Q k)] \<noteq> None) =
      (\<exists>q\<in>set (Q k). p_state (procs s q) = RUNNABLE)"
    by (simp add: find_None_iff) (metis in_set_conv_nth)
  finally show ?thesis .
qed

lemma mlfq_ok_rrtime [simp]:
  "mlfq_ok (upd_proc p (\<lambda>x. x\<lparr>p_rrtime := r x\<rparr>) s) Q = mlfq_ok s Q"
proof -
  have "p_pid (procs (upd_proc p (\<lambda>x. x\<lparr>p_rrtime := r x\<rparr>) s) q) = p_pid (procs s q)"
    "p_qno (procs (upd_proc p (\<lambda>x. x\<lparr>p_rrtime := r x\<rparr>) s) q) = p_qno (procs s q)"
    "p_state (procs (upd_proc p (\<lambda>x. x\<lparr>p_rrtime := r x\<rparr>) s) q) = p_state (procs s q)" for q
    by simp_all
  then show ?thesis unfolding mlfq_ok_def array_def by simp
qed

lemma rotate4_rotates:
  assumes "inside me H s" and ok: "mlfq_ok s Q" and p: "p \<in> set (Q 4)"
  shows "\<exists>t. rotate4 p s = Inr t \<and> inside me H t \<and> mlfq_ok t (Q(4 := remove1 p (Q 4) @ [p])) \<and>
    procs t = (procs s)(p := (procs s p)\<lparr>p_rrtime := (p_rrtime (procs s p))(4 := 0)\<rparr>)"
proof -
  let ?u = "upd_proc p (\<lambda>x. x\<lparr>p_rrtime := (p_rrtime x)(4 := 0)\<rparr>) s"
  let ?q = "Q 4"
  have k: "(4::nat) < 5" by simp
  have u: "mlfq_ok ?u Q" using ok by simp
  note d = mlfq_okD [OF u k]
  have l: "length ?q < QSIZE" using mlfq_ok_length [OF ok k] by simp
  obtain x where x: "x < length ?q" "?q ! x = p" "q_find (by_ptr p) 4 ?u = Inr (Some x)"
    using find_queued [OF u k p] by blast
  let ?v = "inc_end 4 (?u\<lparr>mlfq := (mlfq s)(4 := (mlfq s 4)(length ?q := Some p))\<rparr>)"
  let ?n = "length ?q - x"
  let ?g = "\<lambda>j. if x \<le> j \<and> j < x + ?n then mlfq ?v 4 (Suc j) else mlfq ?v 4 j"
  let ?t = "?v\<lparr>mlfq := (mlfq ?v)(4 := ?g)\<rparr>"
  have c: "cnt ?u 4 = int (length ?q)" "cnt ?v 4 = int (length ?q)" "\<forall>i<length ?q. mlfq s 4 i = Some (?q ! i)"
    using d(1) by (simp_all add: array_def inc_end_def)
  have "qset 4 (cnt ?u 4) (Some p) ?u = Inr (?u\<lparr>mlfq := (mlfq s)(4 := (mlfq s 4)(length ?q := Some p))\<rparr>)"
    unfolding c(1) using qset_eq [OF l, of 4 "Some p" ?u] by simp
  moreover have "nat (cnt ?v 4 - int x) = ?n" using c(2) x(1) by linarith
  then have "q_close 4 (int x) ?v = Inr ?t"
    unfolding q_close_def using q_shift_eq [of x ?n 4 ?v] x(1) l by simp
  ultimately have r: "rotate4 p s = Inr ?t" using x(3) by (simp add: rotate4_def Let_def)
  have "remove1 p ?q ! i = (if i < x then ?q ! i else ?q ! Suc i)" if "i < length ?q - 1" for i
    using remove1_nth [OF d(2) x(1) that] x(2) by simp
  moreover have "length (remove1 p ?q) = length ?q - 1" using p by (simp add: length_remove1)
  ultimately have "array ?t 4 (remove1 p ?q @ [p])"
    using c x(1,2) by (auto simp: array_def inc_end_def nth_append less_Suc_eq_le not_less
        simp del: length_greater_0_conv)
  moreover have "array ?t j (Q j)" if "j \<noteq> 4" "j < 5" for j
    using mlfq_okD(1) [OF ok that(2)] that(1) array_cong [of ?t j s] by (simp add: inc_end_def)
  ultimately have "\<forall>k<5. array ?t k ((Q(4 := remove1 p ?q @ [p])) k)" by simp
  moreover have "set ((Q(4 := remove1 p ?q @ [p])) k) = set (Q k)" "distinct ((Q(4 := remove1 p ?q @ [p])) k)" if "k < 5" for k
    using p d(2) mlfq_okD(2) [OF ok that] by auto
  moreover have "procs ?t = procs ?u" by (simp add: inc_end_def)
  ultimately have "mlfq_ok ?t (Q(4 := remove1 p ?q @ [p]))"
    using u unfolding mlfq_ok_def by simp
  moreover have "inside me H ?t = inside me H s" by (rule inside_cong) (simp_all add: inc_end_def)
  ultimately show ?thesis using r assms(1) by (intro exI [of _ ?t]) (simp add: inc_end_def)
qed

text \<open>
  What a tick does to the queues and when the process gives up the CPU, for the running process \<open>p\<close>
  in queue \<open>no\<close>, whose slice there is \<open>2\<^sup>n\<^sup>o\<close> ticks.
\<close>

definition slice_over :: "proc \<Rightarrow> bool" where
  "slice_over x \<longleftrightarrow> p_rrtime x (p_qno x) \<noteq> 0 \<and> sint (p_rrtime x (p_qno x)) mod 2 ^ p_qno x = 0"

definition tick_queues :: "proc \<Rightarrow> nat \<Rightarrow> (nat \<Rightarrow> nat list) \<Rightarrow> nat \<Rightarrow> nat list" where
  "tick_queues x p Q =
     (if slice_over x
      then (if p_qno x < 4 then move p (p_qno x) (p_qno x + 1) Q else Q(4 := remove1 p (Q 4) @ [p]))
      else Q)"

lemma tick_waits:
  assumes "mlfq_ok s Q" and "p_qno (procs s p) < 5" and "\<not> slice_over (procs s p)"
  shows "mlfq_tick p s = Inr (p_rrtime (procs s p) (p_qno (procs s p)) \<noteq> 0 \<and>
    (\<exists>k<p_qno (procs s p). \<exists>q\<in>set (Q k). p_state (procs s q) = RUNNABLE), s)"
proof -
  have 4: "(\<exists>k<n. P k) = (n = 1 \<and> P 0 \<or> n = 2 \<and> (P 0 \<or> P 1) \<or> n = 3 \<and> (P 0 \<or> P 1 \<or> P 2) \<or>
      n = 4 \<and> (P 0 \<or> P 1 \<or> P 2 \<or> P 3))" if "n < 5" for n :: nat and P
    using that by (auto simp: less_Suc_eq numeral_nat)
  have "(2::int) ^ 4 = 16" by simp
  with assms(2,3) show ?thesis
    by (auto simp: mlfq_tick_def Let_def slice_over_def q_flag_eq [OF assms(1)] 4 simp del: power_numeral)
qed

section \<open>Properties\<close>

text \<open>
  C10: the clock tick of the MLFQ policy. When the running process has used up its slice of
  \<open>2\<^sup>n\<^sup>o\<close> ticks it goes to the end of the next queue, from the last queue to the end of the same one,
  and gives up the CPU; otherwise the queues stay as they are and it gives up the CPU exactly if a
  higher queue has a process that can run. The array operations never leave their bounds, and the
  queues stay well-formed.
\<close>

theorem mlfq_tick_rule:
  assumes "inside me H s" and "mlfq_ok s Q" and "p < NPROC" and "p_state (procs s p) = RUNNING"
  shows "\<exists>y t. mlfq_tick p s = Inr (y, t) \<and> inside me H t \<and> mlfq_ok t (tick_queues (procs s p) p Q) \<and>
    (y \<longleftrightarrow> slice_over (procs s p) \<or> p_rrtime (procs s p) (p_qno (procs s p)) \<noteq> 0 \<and>
      (\<exists>k<p_qno (procs s p). \<exists>q\<in>set (Q k). p_state (procs s q) = RUNNABLE))"
proof -
  let ?no = "p_qno (procs s p)"
  have p: "?no < 5" "p \<in> set (Q ?no)" using assms(2-4) by (auto simp: mlfq_ok_def)
  consider "\<not> slice_over (procs s p)" | "slice_over (procs s p)" "?no < 4" | "slice_over (procs s p)" "?no = 4"
    using p(1) by linarith
  then show ?thesis
  proof cases
    case 1
    then show ?thesis
      using tick_waits [OF assms(2) p(1) 1] assms(1,2) by (simp add: tick_queues_def)
  next
    case 2
    obtain t where "demote ?no p s = Inr t" "inside me H t" "mlfq_ok t (move p ?no (?no + 1) Q)"
      using demote_moves [OF assms(1,2) 2(2) p(2)] by blast
    with 2 show ?thesis by (intro exI [of _ True] exI [of _ t]) (simp add: mlfq_tick_def Let_def slice_over_def tick_queues_def)
  next
    case 3
    then have "p \<in> set (Q 4)" using p(2) by simp
    then obtain t where "rotate4 p s = Inr t" "inside me H t" "mlfq_ok t (Q(4 := remove1 p (Q 4) @ [p]))"
      using rotate4_rotates [OF assms(1,2)] by blast
    with 3 show ?thesis by (intro exI [of _ True] exI [of _ t]) (simp add: mlfq_tick_def Let_def slice_over_def tick_queues_def)
  qed
qed

text \<open>The processes \<open>aging\<close> considers, those it promotes, and what becomes of a process and of the queues.\<close>

definition too_old :: "'a ptable_scheme \<Rightarrow> nat \<Rightarrow> bool" where
  "too_old s p \<longleftrightarrow> p_state (procs s p) = RUNNABLE \<and> wait_time p s > time_age"

definition mover :: "'a ptable_scheme \<Rightarrow> nat \<Rightarrow> bool" where
  "mover s p \<longleftrightarrow> too_old s p \<and> 0 < p_qno (procs s p)"

definition aged :: "'a ptable_scheme \<Rightarrow> nat \<Rightarrow> proc" where
  "aged s p =
     (let x = procs s p; no = p_qno x; y = (if mover s p then set_queue (no - 1) (no - 1) no x else x)
      in if too_old s p then y\<lparr>p_aging_time := ticks s - (p_ctime x + p_rtime x)\<rparr> else x)"

definition aged_queues :: "nat list \<Rightarrow> 'a ptable_scheme \<Rightarrow> (nat \<Rightarrow> nat list) \<Rightarrow> nat \<Rightarrow> nat list" where
  "aged_queues ps s Q k =
     filter (\<lambda>p. \<not> (p \<in> set ps \<and> mover s p)) (Q k) @ filter (\<lambda>p. mover s p \<and> p_qno (procs s p) = Suc k) ps"

lemma mlfq_ok_queues: "mlfq_ok s Q \<Longrightarrow> (\<And>k. k < 5 \<Longrightarrow> Q k = R k) \<Longrightarrow> mlfq_ok s R"
  unfolding mlfq_ok_def by (elim conjE, intro conjI) (simp, simp, metis)

lemma mlfq_ok_aging_time [simp]:
  "mlfq_ok (upd_proc p (\<lambda>x. x\<lparr>p_aging_time := r x\<rparr>) s) Q = mlfq_ok s Q"
proof -
  have "p_pid (procs (upd_proc p (\<lambda>x. x\<lparr>p_aging_time := r x\<rparr>) s) q) = p_pid (procs s q)"
    "p_qno (procs (upd_proc p (\<lambda>x. x\<lparr>p_aging_time := r x\<rparr>) s) q) = p_qno (procs s q)"
    "p_state (procs (upd_proc p (\<lambda>x. x\<lparr>p_aging_time := r x\<rparr>) s) q) = p_state (procs s q)" for q
    by simp_all
  then show ?thesis unfolding mlfq_ok_def array_def by simp
qed

lemma move_aged_queues:
  assumes ok: "mlfq_ok s Q" and ok': "mlfq_ok t (aged_queues ps s Q)" and p: "p \<in> set (Q no)" "p \<notin> set ps"
    and m: "mover s p" "p_qno (procs s p) = no" "no < 5" and k: "k < 5"
  shows "move p no (no - 1) (aged_queues ps s Q) k = aged_queues (ps @ [p]) s Q k"
proof -
  have no: "0 < no" using m(1,2) by (simp add: mover_def)
  have np: "p \<notin> set (Q k)" if "k \<noteq> no" using mlfq_okD(3) [OF ok k] m(2) that by auto
  have "aged_queues (ps @ [p]) s Q no = filter (\<lambda>q. p \<noteq> q) (aged_queues ps s Q no)"
  proof -
    have "filter (\<lambda>q. \<not> (q \<in> set (ps @ [p]) \<and> mover s q)) (Q no) =
        filter (\<lambda>q. p \<noteq> q) (filter (\<lambda>q. \<not> (q \<in> set ps \<and> mover s q)) (Q no))"
      unfolding filter_filter by (rule filter_cong) (use m(1) in auto)
    moreover have "filter (\<lambda>q. mover s q \<and> p_qno (procs s q) = Suc no) ps =
        filter (\<lambda>q. p \<noteq> q) (filter (\<lambda>q. mover s q \<and> p_qno (procs s q) = Suc no) ps)"
      unfolding filter_filter by (rule filter_cong) (use p(2) in auto)
    ultimately show ?thesis using m(2) unfolding aged_queues_def by simp
  qed
  also have "\<dots> = remove1 p (aged_queues ps s Q no)"
    using mlfq_okD(2) [OF ok' m(3)] by (simp add: distinct_remove1_removeAll removeAll_filter_not_eq)
  finally have "remove1 p (aged_queues ps s Q no) = aged_queues (ps @ [p]) s Q no" by simp
  moreover have "aged_queues (ps @ [p]) s Q k = aged_queues ps s Q k @ (if k = no - 1 then [p] else [])" if "k \<noteq> no"
    using np [OF that] that m no by (auto simp: aged_queues_def intro!: filter_cong)
  ultimately show ?thesis using no by (auto simp: move_def)
qed

lemma aging_step_ages:
  assumes "inside me H t" and ok: "mlfq_ok t R" and p: "p < NPROC"
  shows "\<exists>u. aging_step p t = Inr u \<and> inside me H u \<and>
    mlfq_ok u (if mover t p then move p (p_qno (procs t p)) (p_qno (procs t p) - 1) R else R) \<and>
    procs u = (procs t)(p := aged t p) \<and> ticks u = ticks t"
proof (cases "too_old t p")
  case False
  then show ?thesis
    using assms by (intro exI [of _ t]) (auto simp: aging_step_def aged_def too_old_def mover_def)
next
  case True
  let ?no = "p_qno (procs t p)"
  let ?f = "\<lambda>u. upd_proc p (\<lambda>x. x\<lparr>p_aging_time := ticks u - (p_ctime x + p_rtime x)\<rparr>) u"
  have no: "?no < 5" "p \<in> set (R ?no)" using ok p True by (auto simp: mlfq_ok_def too_old_def)
  show ?thesis
  proof (cases "mover t p")
    case True
    then have "?no \<in> {1, 2, 3, 4}" using no(1) by (auto simp: mover_def)
    with age_proc_moves [OF assms(1) ok _ no(2)] obtain u where u: "age_proc ?no p t = Inr u" "inside me H u"
        "mlfq_ok u (move p ?no (?no - 1) R)" "procs u = (procs t)(p := set_queue (?no - 1) (?no - 1) ?no (procs t p))"
        "ticks u = ticks t"
      by blast
    have "aging_step p t = Inr (?f u)"
      using \<open>too_old t p\<close> u(1) \<open>?no \<in> {1, 2, 3, 4}\<close> by (simp add: aging_step_def too_old_def Let_def)
    with True \<open>too_old t p\<close> u show ?thesis by (auto simp: aged_def Let_def set_queue_def)
  next
    case False
    then have "?no = 0" using \<open>too_old t p\<close> by (simp add: mover_def)
    then have "aging_step p t = Inr (?f t)"
      using \<open>too_old t p\<close> by (simp add: aging_step_def too_old_def Let_def)
    with False \<open>too_old t p\<close> assms show ?thesis by (auto simp: aged_def Let_def)
  qed
qed

lemma aging_loop:
  assumes "inside me H s" and ok: "mlfq_ok s Q" and "distinct ps" and "set ps \<subseteq> {..<NPROC}"
  shows "\<exists>t. foldM aging_step ps s = Inr t \<and> inside me H t \<and> mlfq_ok t (aged_queues ps s Q) \<and>
    procs t = (\<lambda>p. if p \<in> set ps then aged s p else procs s p) \<and> ticks t = ticks s"
  using assms(3,4)
proof (induction ps rule: rev_induct)
  case Nil
  have "aged_queues [] s Q = Q" by (simp add: aged_queues_def fun_eq_iff)
  with assms(1,2) show ?case by simp
next
  case (snoc p ps)
  then obtain t where t: "foldM aging_step ps s = Inr t" "inside me H t" "mlfq_ok t (aged_queues ps s Q)"
      "procs t = (\<lambda>p. if p \<in> set ps then aged s p else procs s p)" "ticks t = ticks s"
    by auto
  have p: "p < NPROC" "p \<notin> set ps" using snoc.prems by auto
  have same: "procs t p = procs s p" "mover t p = mover s p" "aged t p = aged s p"
    using p(2) t(4,5) by (simp_all add: mover_def too_old_def wait_time_def aged_def Let_def cong: if_cong)
  let ?no = "p_qno (procs s p)"
  obtain u where u: "aging_step p t = Inr u" "inside me H u"
      "mlfq_ok u (if mover s p then move p ?no (?no - 1) (aged_queues ps s Q) else aged_queues ps s Q)"
      "procs u = (procs t)(p := aged s p)" "ticks u = ticks t"
    using aging_step_ages [OF t(2,3) p(1)] unfolding same by blast
  have "mlfq_ok u (aged_queues (ps @ [p]) s Q)"
  proof (cases "mover s p")
    case True
    then have "p \<in> set (Q ?no)" "?no < 5" using ok p(1) by (auto simp: mlfq_ok_def mover_def too_old_def)
    then show ?thesis
      using u(3) True move_aged_queues [OF ok t(3) _ p(2) True]
      by (auto intro: mlfq_ok_queues)
  next
    case False
    then have "aged_queues (ps @ [p]) s Q = aged_queues ps s Q"
      by (auto simp: aged_queues_def fun_eq_iff intro!: filter_cong)
    with u(3) False show ?thesis by simp
  qed
  with u t show ?case by (auto simp: foldM_append)
qed

text \<open>
  C25: \<open>aging\<close> promotes exactly the runnable processes that have waited for more than 50 ticks, each
  by one queue; they are appended to the higher queue in the order of the process table, the other
  processes keep their order, and the waiting time of those considered starts again. No array
  operation leaves its bounds and the queues stay well-formed.
\<close>

theorem aging_promotes:
  assumes "inside me H s" and "L_ptable \<notin> H" and "mlfq_ok s Q"
  shows "\<exists>t. aging s = Inr (0, t) \<and> inside me H t \<and> mlfq_ok t (aged_queues [0..<NPROC] s Q) \<and>
    (\<forall>p<NPROC. procs t p = aged s p)"
proof -
  let ?a = "acquired L_ptable s"
  have a: "acquire L_ptable s = Inr ?a" "inside me (insert L_ptable H) ?a"
    using acquire_inside [OF assms(1,2)] by simp_all
  have "mlfq_ok ?a Q" using assms(3) by (subst mlfq_ok_cong [of _ s]) simp_all
  then obtain u where u: "foldM aging_step [0..<NPROC] ?a = Inr u" "inside me (insert L_ptable H) u"
      "mlfq_ok u (aged_queues [0..<NPROC] ?a Q)" "\<forall>p<NPROC. procs u p = aged ?a p"
    using aging_loop [OF a(2) _ distinct_upt, of Q 0 NPROC] by (auto simp: lessThan_atLeast0)
  have "insert L_ptable H - {L_ptable} = H" using assms(2) by auto
  then have r: "release L_ptable u = Inr (released L_ptable u)" "inside me H (released L_ptable u)"
    using release_inside [OF u(2), of L_ptable] by simp_all
  have same: "mover ?a p = mover s p" "aged ?a p = aged s p" for p
    by (simp_all add: mover_def too_old_def wait_time_def aged_def Let_def cong: if_cong)
  have "aged_queues [0..<NPROC] ?a Q = aged_queues [0..<NPROC] s Q"
    by (simp add: aged_queues_def fun_eq_iff same)
  then have "mlfq_ok (released L_ptable u) (aged_queues [0..<NPROC] s Q)"
    using u(3) by (subst mlfq_ok_cong [of _ u]) simp_all
  moreover have "aging s = Inr (0, released L_ptable u)" using a(1) u(1) r(1) by (simp add: aging_def)
  ultimately show ?thesis using r(2) u(4) same by auto
qed

section \<open>Concrete queues\<close>

text \<open>Process 0 runs on CPU 0 and has used a tick; process 1 can run and is in queue \<open>k\<close>.\<close>

definition two_procs :: "nat \<Rightarrow> proc list" where
  "two_procs k = [(some_proc 1 RUNNING 60 0)\<lparr>p_rrtime := (\<lambda>_. 1)\<rparr>, (some_proc 2 RUNNABLE 60 0)\<lparr>p_qno := k\<rparr>]"

definition two_queues :: "nat \<Rightarrow> nat \<Rightarrow> nat list" where
  "two_queues k = (\<lambda>_. [])(0 := [0], k := (if k = 0 then [0, 1] else [1]))"

definition two_ready :: "nat \<Rightarrow> sleeps" where
  "two_ready k = (boot_sleeps (two_procs k))\<lparr>ticks := 60,
     mlfq := (\<lambda>j i. if i < length (two_queues k j) then Some (two_queues k j ! i) else None),
     cnt := (\<lambda>j. int (length (two_queues k j)))\<rparr>"

lemma two_ready_procs: "procs (two_ready k) = (\<lambda>i. if i < 2 then two_procs k ! i else zero_proc)" "ticks (two_ready k) = 60"
proof -
  have "length (two_procs k) = 2" by (simp add: two_procs_def)
  then show "procs (two_ready k) = (\<lambda>i. if i < 2 then two_procs k ! i else zero_proc)" "ticks (two_ready k) = 60"
    by (simp_all add: two_ready_def)
qed

lemma two_procs_simps [simp]:
  "p_state (two_procs k ! 0) = RUNNING" "p_state (two_procs k ! Suc 0) = RUNNABLE" "p_qno (two_procs k ! 0) = 0"
  "p_qno (two_procs k ! Suc 0) = k" "p_pid (two_procs k ! 0) = 1" "p_pid (two_procs k ! Suc 0) = 2"
  "p_rrtime (two_procs k ! 0) = (\<lambda>_. 1)" "p_ctime (two_procs k ! Suc 0) = 0" "p_rtime (two_procs k ! Suc 0) = 0"
  "p_aging_time (two_procs k ! Suc 0) = 0"
  by (simp_all add: two_procs_def some_proc_def zero_proc_def)

lemma inside_two_ready: "inside 0 {} (two_ready k)"
  using inside_boot_sleeps [of "two_procs k"] by (subst inside_cong [of _ "boot_sleeps (two_procs k)"]) (simp_all add: two_ready_def)

lemma mlfq_ok_two_ready: "k < 5 \<Longrightarrow> mlfq_ok (two_ready k) (two_queues k)"
proof -
  assume k: "k < 5"
  have "array (two_ready k) j (two_queues k j)" for j by (simp add: array_def two_ready_def)
  moreover have "distinct (two_queues k j)" "\<forall>p\<in>set (two_queues k j). p < NPROC \<and> p_qno (procs (two_ready k) p) = j" for j
    by (auto simp: two_queues_def two_ready_procs)
  moreover have "p = q" if "p \<in> set (two_queues k i)" "q \<in> set (two_queues k j)"
      "p_pid (procs (two_ready k) p) = p_pid (procs (two_ready k) q)" for i j p q
    using that by (auto simp: two_queues_def two_ready_procs split: if_splits)
  moreover have "p_qno (procs (two_ready k) p) < 5 \<and> p \<in> set (two_queues k (p_qno (procs (two_ready k) p)))"
    if "p_state (procs (two_ready k) p) \<in> {RUNNABLE, RUNNING}" for p
  proof -
    have "p = 0 \<or> p = 1" using that by (cases "p < 2") (auto simp: two_ready_procs)
    with k show ?thesis by (auto simp: two_queues_def two_ready_procs)
  qed
  ultimately show ?thesis unfolding mlfq_ok_def by blast
qed

theorem mlfq_tick_rule_witness:
  "\<exists>t. mlfq_tick 0 (two_ready 0) = Inr (True, t) \<and> mlfq_ok t ((\<lambda>_. [])(0 := [1], 1 := [0]))"
proof -
  have s: "slice_over (procs (two_ready 0) 0)" by (simp add: slice_over_def two_ready_procs)
  have p: "p_state (procs (two_ready 0) 0) = RUNNING" by (simp add: two_ready_procs)
  have "tick_queues (procs (two_ready 0) 0) 0 (two_queues 0) = (\<lambda>_. [])(0 := [1], 1 := [0])"
    using s by (auto simp: tick_queues_def two_ready_procs move_def two_queues_def fun_eq_iff)
  then show ?thesis
    using mlfq_tick_rule [OF inside_two_ready mlfq_ok_two_ready _ p] s by auto
qed

theorem aging_promotes_witness:
  "\<exists>t. aging (two_ready 2) = Inr (0, t) \<and> mlfq_ok t ((\<lambda>_. [])(0 := [0], 1 := [1])) \<and> p_qno (procs t 1) = 1"
proof -
  have m: "mover (two_ready 2) p \<longleftrightarrow> p = 1" for p
    by (cases "p < 2") (auto simp: mover_def too_old_def wait_time_def two_ready_procs less_2_cases_iff)
  obtain t where t: "aging (two_ready 2) = Inr (0, t)" "mlfq_ok t (aged_queues [0..<NPROC] (two_ready 2) (two_queues 2))"
      "\<forall>p<NPROC. procs t p = aged (two_ready 2) p"
    using aging_promotes [OF inside_two_ready _ mlfq_ok_two_ready, of 2] by auto
  have "[0..<NPROC] = 0 # 1 # [2..<NPROC]" by (simp add: upt_conv_Cons)
  moreover have "filter (\<lambda>p. p = 1 \<and> P p) [2..<NPROC] = []" for P by (simp add: filter_empty_conv)
  ultimately have "filter (\<lambda>p. p = 1 \<and> p_qno (procs (two_ready 2) p) = Suc k) [0..<NPROC] = (if k = 1 then [1] else [])" for k
    by (simp add: two_ready_procs)
  then have "aged_queues [0..<NPROC] (two_ready 2) (two_queues 2) k = ((\<lambda>_. [])(0 := [0], 1 := [1])) k" for k
    unfolding aged_queues_def m by (simp add: two_queues_def)
  then have "mlfq_ok t ((\<lambda>_. [])(0 := [0], 1 := [1]))" using t(2) by (rule mlfq_ok_queues [rotated])
  moreover have "p_qno (procs t 1) = 1"
    using t(3) m [of 1] by (simp add: aged_def Let_def mover_def two_ready_procs)
  ultimately show ?thesis using t(1) by blast
qed

end
