(* ===== verification/Trap.thy ===== *)
theory Trap
  imports Syscall Mlfq
begin

text \<open>
  Traps and interrupts (\<open>trap.c\<close>): the descriptor table, the dispatch on the trap number, the clock
  and the preemption rules of the scheduling policies. \<open>tf\<close> is the address of the trap frame, \<open>cr2\<close>
  the faulting address. The acknowledgement \<open>lapiceoi\<close> is a device access without effect on the state.
\<close>

section \<open>The descriptor table\<close>

record gatedesc =
  off_15_0 :: ushort
  gate_cs :: ushort
  gate_args :: "5 word"
  gate_rsv1 :: "3 word"
  gate_type :: "4 word"
  gate_s :: bool
  gate_dpl :: "2 word"
  gate_p :: bool
  off_31_16 :: ushort

record traps = life +
  idt :: "nat \<Rightarrow> gatedesc"

abbreviation (input) T_SYSCALL :: nat where "T_SYSCALL \<equiv> 64"
abbreviation (input) T_IRQ0 :: nat where "T_IRQ0 \<equiv> 32"

definition SETGATE :: "bool \<Rightarrow> ushort \<Rightarrow> uint \<Rightarrow> 2 word \<Rightarrow> gatedesc" where
  "SETGATE istrap sel off d =
     \<lparr>off_15_0 = ucast (off AND 0xffff), gate_cs = sel, gate_args = 0, gate_rsv1 = 0,
      gate_type = (if istrap then 0xF else 0xE), gate_s = False, gate_dpl = d, gate_p = True,
      off_31_16 = ucast (drop_bit 16 off)\<rparr>"

definition tvinit :: "(nat \<Rightarrow> uint) \<Rightarrow> 'a traps_scheme \<Rightarrow> 'a traps_scheme" where
  "tvinit vectors s =
     (let s = fold (\<lambda>i s. s\<lparr>idt := (idt s)(i := SETGATE False 8 (vectors i) 0)\<rparr>) [0..<256] s;
          s = s\<lparr>idt := (idt s)(T_SYSCALL := SETGATE True 8 (vectors T_SYSCALL) 3)\<rparr>
      in initlock L_tickslock ''time'' s)"

section \<open>The trap handler\<close>

definition tf_cs :: "uint \<Rightarrow> 'a machine_scheme \<Rightarrow> uint" where
  "tf_cs tf s = ucast (mem s (tf + TF_cs)) OR push_bit 8 (ucast (mem s (tf + TF_cs + 1)))"

definition from_user :: "uint \<Rightarrow> 'a machine_scheme \<Rightarrow> bool" where
  "from_user tf s \<longleftrightarrow> tf_cs tf s AND 3 = 3"

text \<open>\<open>if (myproc()->killed) exit()\<close>\<close>

definition exit_if_killed :: "('a conin_scheme, unit) thr" where
  "exit_if_killed =
     tbnd (ask curproc) (\<lambda>me. tbnd (proc_of me) (\<lambda>x. if p_killed x then exit_proc else ret ()))"

text \<open>\<open>if (myproc() && myproc()->killed && (tf->cs & 3) == DPL_USER) exit()\<close>\<close>

definition exit_killed_user :: "uint \<Rightarrow> ('a conin_scheme, unit) thr" where
  "exit_killed_user tf =
     tbnd (ask myproc) (\<lambda>po.
     case po of
       None \<Rightarrow> ret ()
     | Some p \<Rightarrow>
         tbnd (proc_of p) (\<lambda>x. tbnd (look (from_user tf)) (\<lambda>u.
         if p_killed x \<and> u then exit_proc else ret ())))"

definition trap_syscall :: "policy \<Rightarrow> int \<Rightarrow> uint \<Rightarrow> ('a life_scheme, unit) thr" where
  "trap_syscall pol junk tf =
     tseq exit_if_killed
     (tbnd (ask curproc) (\<lambda>me.
      tseq (set_procs me (\<lambda>x. x\<lparr>p_tf := tf\<rparr>))
     (tseq (syscall pol junk)
     exit_if_killed)))"

text \<open>The accounting of a tick for the process that runs on the CPU.\<close>

definition tick_proc :: "proc \<Rightarrow> proc" where
  "tick_proc x =
     (if p_state x = RUNNING
      then x\<lparr>p_rtime := p_rtime x + 1,
             p_rrtime := (p_rrtime x)(p_qno x := p_rrtime x (p_qno x) + 1),
             p_stat := (p_stat x)\<lparr>stat_runtime := stat_runtime (p_stat x) + 1,
               stat_ticks := (stat_ticks (p_stat x))(p_qno x := stat_ticks (p_stat x) (p_qno x) + 1)\<rparr>\<rparr>
      else if p_state x = SLEEPING then x\<lparr>p_iotime := p_iotime x + 1\<rparr>
      else x)"

definition clock :: "'a ptable_scheme \<Rightarrow> 'a ptable_scheme res" where
  "clock s =
     bnd (acquire L_tickslock s) (\<lambda>s.
     bnd (wakeup Ch_ticks (s\<lparr>ticks := ticks s + 1\<rparr>)) (\<lambda>s.
     release L_tickslock s))"

definition timer :: "policy \<Rightarrow> 'a ptable_scheme \<Rightarrow> 'a ptable_scheme res" where
  "timer pol s =
     bnd (cpuid s) (\<lambda>c.
     if c \<noteq> 0 then Inr s
     else bnd (clock s) (\<lambda>s.
          bnd (if pol = MLFQ
               then bnd (graph s) (\<lambda>(_, s). bnd (aging s) (\<lambda>(_, s). Inr s))
               else Inr s) (\<lambda>s.
          bnd (myproc s) (\<lambda>(po, s).
          Inr (case po of None \<Rightarrow> s | Some p \<Rightarrow> upd_proc p tick_proc s)))))"

text \<open>The trap numbers the kernel does not expect.\<close>

definition trap_other :: "uint \<Rightarrow> uint \<Rightarrow> 'a ptable_scheme \<Rightarrow> 'a ptable_scheme res" where
  "trap_other cr2 tf s =
     bnd (myproc s) (\<lambda>(po, s).
     let trapno = load32 (mem s) (tf + TF_trapno); err = load32 (mem s) (tf + TF_err);
         eip = load32 (mem s) (tf + TF_eip)
     in case (if tf_cs tf s AND 3 = 0 then None else po) of
          None \<Rightarrow>
            bnd (cpuid s) (\<lambda>c.
            bnd (cprintf (''unexpected trap %d from cpu %d eip %x (cr2=0x%x)'' @ nl)
                   [Aint trapno, Aint (of_nat c), Aint eip, Aint cr2] s) (\<lambda>_.
            Inl (Panic ''trap'')))
        | Some p \<Rightarrow>
            bnd (cpuid s) (\<lambda>c.
            bnd (cprintf (''pid %d %s: trap %d err %d on cpu %d eip 0x%x addr 0x%x--kill proc'' @ nl)
                   [Aint (p_pid (procs s p)), Astr (Some (p_name (procs s p))), Aint trapno, Aint err,
                    Aint (of_nat c), Aint eip, Aint cr2] s) (\<lambda>s.
            Inr (upd_proc p (\<lambda>x. x\<lparr>p_killed := True\<rparr>) s))))"

definition trap_irq :: "policy \<Rightarrow> uint \<Rightarrow> uint \<Rightarrow> 'a conin_scheme \<Rightarrow> 'a conin_scheme res" where
  "trap_irq pol cr2 tf s =
     (let n = unat (load32 (mem s) (tf + TF_trapno))
      in if n = T_IRQ0 then timer pol s
         else if n = T_IRQ0 + 14 then ideintr s
         else if n = T_IRQ0 + 15 then Inr s
         else if n = T_IRQ0 + 1 then kbdintr s
         else if n = T_IRQ0 + 4 then uartintr s
         else if n = T_IRQ0 + 7 \<or> n = T_IRQ0 + 31
         then bnd (cpuid s) (\<lambda>c.
              cprintf (''cpu%d: spurious interrupt at %x:%x'' @ nl)
                [Aint (of_nat c), Aint (tf_cs tf s), Aint (load32 (mem s) (tf + TF_eip))] s)
         else trap_other cr2 tf s)"

text \<open>Whether the running process \<open>p\<close> gives up the CPU after a clock tick, by policy.\<close>

definition preempt :: "policy \<Rightarrow> nat \<Rightarrow> 'a ptable_scheme \<Rightarrow> (bool \<times> 'a ptable_scheme) res" where
  "preempt pol p s =
     (case pol of
        DEFAULT \<Rightarrow> Inr (True, s)
      | FCFS \<Rightarrow> Inr (False, s)
      | PBS \<Rightarrow> bnd (check_priority (p_priority (procs s p)) s) (\<lambda>(c, s). Inr (c = 1, s))
      | MLFQ \<Rightarrow> mlfq_tick p s)"

definition yield_thr :: "('a ptable_scheme, unit) thr" where
  "yield_thr s es = bnd (yield s es) (\<lambda>(s, es). Inr ((), s, es))"

definition trap_preempt :: "policy \<Rightarrow> uint \<Rightarrow> ('a ptable_scheme, unit) thr" where
  "trap_preempt pol tf =
     tbnd (ask myproc) (\<lambda>po.
     case po of
       None \<Rightarrow> ret ()
     | Some p \<Rightarrow>
         tbnd (look (\<lambda>s. p_state (procs s p) = RUNNING \<and> unat (load32 (mem s) (tf + TF_trapno)) = T_IRQ0)) (\<lambda>b.
         if b then tbnd (ask (preempt pol p)) (\<lambda>y. if y then yield_thr else ret ())
         else ret ()))"

definition trap :: "policy \<Rightarrow> int \<Rightarrow> uint \<Rightarrow> uint \<Rightarrow> ('a life_scheme, unit) thr" where
  "trap pol junk cr2 tf =
     tbnd (look (\<lambda>s. unat (load32 (mem s) (tf + TF_trapno)))) (\<lambda>n.
     if n = T_SYSCALL then trap_syscall pol junk tf
     else tseq (act (trap_irq pol cr2 tf))
          (tseq (exit_killed_user tf)
          (tseq (trap_preempt pol tf)
          (exit_killed_user tf))))"

section \<open>The clock\<close>

definition woken :: "channel \<Rightarrow> proc \<Rightarrow> proc" where
  "woken ch x = (if p_state x = SLEEPING \<and> p_chan x = Some ch then x\<lparr>p_state := RUNNABLE\<rparr> else x)"

lemma wakeup1_woken: "q < NPROC \<Longrightarrow> procs (wakeup1 (Some ch) s) q = woken ch (procs s q)"
  by (simp add: wakeup1_eq woken_def)

lemma wakeup1_simps [simp]:
  "mem (wakeup1 ch s) = mem s" "ticks (wakeup1 ch s) = ticks s" "cpus (wakeup1 ch s) = cpus s"
  "this_cpu (wakeup1 ch s) = this_cpu s" "ncpu (wakeup1 ch s) = ncpu s" "lapic_id (wakeup1 ch s) = lapic_id s"
  by (simp_all add: wakeup1_eq)

lemma inside_ticks [simp]: "inside p H (s\<lparr>ticks := x\<rparr>) = inside p H s"
  by (rule inside_cong) simp_all

lemma clock_eq:
  assumes "inside p H s" and "L_tickslock \<notin> H" and "L_ptable \<notin> H"
  shows "clock s = Inr (wakeup1 (Some Ch_ticks) ((synced s)\<lparr>ticks := ticks s + 1\<rparr>))"
proof -
  let ?f = "\<lambda>s. wakeup1 (Some Ch_ticks) (s\<lparr>ticks := ticks s + 1\<rparr>)"
  let ?a = "acquired L_tickslock s"
  have a: "acquire L_tickslock s = Inr ?a" "inside p (insert L_tickslock H) ?a"
    using acquire_inside [OF assms(1,2)] by simp_all
  have i: "inside p (insert L_tickslock H) (?a\<lparr>ticks := ticks ?a + 1\<rparr>)" using a(2) by simp
  have "wakeup Ch_ticks (?a\<lparr>ticks := ticks ?a + 1\<rparr>) = Inr (?f ?a)"
    using wakeup_inside [OF i] synced_inside [OF i] assms(3) by simp
  then have "clock s = bnd (acquire L_tickslock s) (\<lambda>s. release L_tickslock (?f s))"
    using a(1) by (simp add: clock_def)
  also have "\<dots> = Inr (?f (synced s))"
    by (rule crit_section [OF assms(1,2)]) (simp_all add: wakeup1_eq cong: if_cong)
  finally show ?thesis by simp
qed

lemma timer_eq:
  assumes "inside p {} s" and "\<not> IF_flag (cur s)" and "this_cpu s = 0" and "pol \<noteq> MLFQ"
  shows "\<exists>t. timer pol s = Inr t \<and> inside p {} t \<and> ticks t = ticks s + 1 \<and> mem t = mem s \<and>
    (\<forall>q<NPROC. procs t q = (if q = p then tick_proc else (\<lambda>x. x)) (woken Ch_ticks (procs s q)))"
proof -
  let ?c = "wakeup1 (Some Ch_ticks) ((synced s)\<lparr>ticks := ticks s + 1\<rparr>)"
  have i: "inside p {} ?c" using assms(1) by simp
  have "mycpu s = Inr 0"
    using mycpu_wf [of s] assms(1-3) by (simp add: inside_def con_ok_def cpu_ok_def)
  then have "timer pol s = Inr (upd_proc p tick_proc (synced ?c))"
    using clock_eq [OF assms(1)] myproc_returns [OF i] assms(4) by (simp add: timer_def cpuid_def)
  moreover have "procs (upd_proc p tick_proc (synced ?c)) q = (if q = p then tick_proc else (\<lambda>x. x)) (woken Ch_ticks (procs s q))"
    if "q < NPROC" for q
    using that by (simp add: wakeup1_woken)
  moreover have "inside p {} (synced ?c)" using i by (simp only: inside_synced)
  ultimately show ?thesis by (intro exI [of _ "upd_proc p tick_proc (synced ?c)"]) simp
qed

section \<open>Preemption\<close>

text \<open>When the running process gives up the CPU, for the policies without queues.\<close>

definition preempts :: "policy \<Rightarrow> nat \<Rightarrow> 'a ptable_scheme \<Rightarrow> bool" where
  "preempts pol p s \<longleftrightarrow> pol = DEFAULT \<or> pol = PBS \<and>
     (\<exists>q<NPROC. p_state (procs s q) = RUNNABLE \<and> sint (p_priority (procs s q)) \<le> sint (p_priority (procs s p)))"

lemma check_priority_eq:
  assumes "inside p H s" and "L_ptable \<notin> H"
  shows "\<exists>t. check_priority prt s =
    Inr (if \<exists>q<NPROC. p_state (procs s q) = RUNNABLE \<and> sint (p_priority (procs s q)) \<le> sint prt then 1 else 0, t) \<and>
    inside p H t \<and> quiet s t"
proof -
  let ?a = "acquired L_ptable s"
  let ?P = "\<lambda>q. p_state (procs s q) = RUNNABLE \<and> sint (p_priority (procs s q)) \<le> sint prt"
  have a: "acquire L_ptable s = Inr ?a" "inside p (insert L_ptable H) ?a"
    using acquire_inside [OF assms] by simp_all
  have "insert L_ptable H - {L_ptable} = H" using assms(2) by auto
  then have r: "release L_ptable ?a = Inr (released L_ptable ?a)" "inside p H (released L_ptable ?a)"
    using release_inside [OF a(2), of L_ptable] by simp_all
  have "find ?P [0..<NPROC] = None \<longleftrightarrow> \<not> (\<exists>q<NPROC. ?P q)" by (auto simp: find_None_iff)
  then have "check_priority prt s = Inr (if \<exists>q<NPROC. ?P q then 1 else 0, released L_ptable ?a)"
    using a(1) r(1) by (auto simp: check_priority_def split: option.splits)
  moreover have "quiet s (released L_ptable ?a)"
    using quiet_trans [OF quiet_acquire [OF a(1)] quiet_release [OF r(1)]] .
  ultimately show ?thesis using r(2) by blast
qed

lemma preempt_eq:
  assumes "inside p H s" and "L_ptable \<notin> H" and "pol \<noteq> MLFQ"
  shows "\<exists>t. preempt pol p s = Inr (preempts pol p s, t) \<and> inside p H t \<and> quiet s t"
proof (cases pol)
  case PBS
  obtain t where "check_priority (p_priority (procs s p)) s =
      Inr (if \<exists>q<NPROC. p_state (procs s q) = RUNNABLE \<and> sint (p_priority (procs s q)) \<le> sint (p_priority (procs s p))
        then 1 else 0, t)" "inside p H t" "quiet s t"
    using check_priority_eq [OF assms(1,2)] by blast
  with PBS show ?thesis by (intro exI [of _ t]) (simp add: preempt_def preempts_def)
qed (use assms quiet_refl in \<open>auto simp: preempt_def preempts_def\<close>)

lemma yield_asleep:
  assumes "inside p {} s"
  shows "yield s [] = Inl Asleep"
proof -
  let ?a = "acquired L_ptable s"
  have a: "acquire L_ptable s = Inr ?a" "inside p {L_ptable} ?a"
    using acquire_inside [OF assms, of L_ptable] by simp_all
  then have "sched (set_state p RUNNABLE ?a) [] = Inl Asleep" by (intro sched_asleep [of p]) simp_all
  then show ?thesis using a(1) inside_curproc [OF a(2)] by (simp add: yield_def)
qed

lemmas thr_defs = tbnd_def tseq_def look_def ask_def act_def ret_def

lemma exit_killed_user_skip:
  assumes "inside p {} s" and "\<not> p_killed (procs s p)"
  shows "exit_killed_user tf s es = Inr ((), synced s, es)"
  using assms(2) by (simp add: exit_killed_user_def thr_defs myproc_returns [OF assms(1)])

lemma trap_preempt_eq:
  assumes "inside p {} s" and "p_state (procs s p) = RUNNING" and "unat (load32 (mem s) (tf + TF_trapno)) = T_IRQ0"
    and "pol \<noteq> MLFQ"
  shows "if preempts pol p s then trap_preempt pol tf s [] = Inl Asleep
    else \<exists>t. trap_preempt pol tf s es = Inr ((), t, es) \<and> inside p {} t \<and> quiet s t"
proof -
  let ?s = "synced s"
  have i: "inside p {} ?s" using assms(1) by (simp only: inside_synced)
  have q: "quiet s ?s" by (rule quiet_upd_cpu)
  have same: "preempts pol p ?s = preempts pol p s" by (simp add: preempts_def)
  obtain t where t: "preempt pol p ?s = Inr (preempts pol p s, t)" "inside p {} t" "quiet ?s t"
    using preempt_eq [OF i _ assms(4)] unfolding same by blast
  have "trap_preempt pol tf s es = (if preempts pol p s then yield_thr t es else Inr ((), t, es))" for es
    using t(1) assms(2,3) by (simp add: trap_preempt_def thr_defs myproc_returns [OF assms(1)])
  then show ?thesis
    using yield_asleep [OF t(2)] t(2) quiet_trans [OF q t(3)] by (simp add: yield_thr_def)
qed



end
