(* ===== verification/Paging.thy ===== *)
theory Paging
  imports Vm
begin

text \<open>
  Page tables as the hardware reads them: what the stores of \<open>walkpgdir\<close> and \<open>mappages\<close> do to the
  address translation. A page directory is well-formed when it and its page tables are different
  pages that the allocator has handed out.
\<close>

section \<open>Addresses\<close>

lemma unat_field: "unat (drop_bit a w AND mask b) = unat (w :: uint) div 2 ^ a mod 2 ^ b"
proof -
  have "take_bit 32 (unat w) = unat w" using unsigned_less [of w] by (simp add: take_bit_nat_eq_self)
  then have "unat (drop_bit a w) = drop_bit a (unat w)" by (simp add: unsigned_drop_bit_eq)
  also have "\<dots> = unat w div 2 ^ a" by (rule drop_bit_eq_div)
  finally have "unat (drop_bit a w) = unat w div 2 ^ a" .
  moreover have "unat (drop_bit a w AND mask b) = take_bit b (unat (drop_bit a w))"
    by (simp only: unsigned_take_bit_eq flip: take_bit_eq_mask)
  ultimately show ?thesis by (simp only: take_bit_eq_mod)
qed

lemma unat_PDX: "unat (PDX va) = unat va div 2 ^ 22"
proof -
  have "unat va div 2 ^ 22 < 1024" using unsigned_less [of va] by (simp add: div_less_iff_less_mult)
  then show ?thesis using unat_field [of 22 va 10] by (simp add: PDX_def mask_eq_exp_minus_1)
qed

lemma unat_PTX: "unat (PTX va) = unat va div 2 ^ 12 mod 1024"
  using unat_field [of 12 va 10] by (simp add: PTX_def mask_eq_exp_minus_1)

lemma unat_offset: "unat (va AND 0xFFF) = unat (va :: uint) mod 4096"
  using unat_field [of 0 va 12] by (simp add: mask_eq_exp_minus_1)

lemma same_indices:
  assumes "PDX va = PDX vb" and "PTX va = PTX vb"
  shows "unat va div 4096 = unat vb div 4096"
proof -
  have "n div 4096 = 1024 * (n div 2 ^ 22) + n div 2 ^ 12 mod 1024" for n :: nat
    using div_mult2_eq [of n "2 ^ 12" "2 ^ 10"] mult_div_mod_eq [of 1024 "n div 2 ^ 12"] by simp
  moreover have "unat va div 2 ^ 22 = unat vb div 2 ^ 22" "unat va div 2 ^ 12 mod 1024 = unat vb div 2 ^ 12 mod 1024"
    using assms unat_PDX unat_PTX by metis+
  ultimately show ?thesis by metis
qed

lemma page_plus:
  assumes "page_aligned va" and "unat off < 4096"
  shows "unat (va + off) = unat va + unat off" "(va + off) AND 0xFFF = off" "PDX (va + off) = PDX va" "PTX (va + off) = PTX va"
proof -
  obtain i where i: "unat va = 4096 * i" "i < 2 ^ 20" using unat_page [OF assms(1)] by blast
  then show u: "unat (va + off) = unat va + unat off" using assms(2) by (simp add: unat_word_ariths)
  have d: "(unat va + unat off) div 4096 = i" "(unat va + unat off) mod 4096 = unat off" using i assms(2) by simp_all
  have "(unat va + unat off) div 2 ^ 22 = unat va div 2 ^ 22"
    using div_mult2_eq [of "unat va + unat off" "2 ^ 12" "2 ^ 10"] div_mult2_eq [of "unat va" "2 ^ 12" "2 ^ 10"] d i by simp
  then show "PDX (va + off) = PDX va" using u by (simp add: word_unat_eq_iff unat_PDX)
  show "PTX (va + off) = PTX va" using u d i by (simp add: word_unat_eq_iff unat_PTX)
  show "(va + off) AND 0xFFF = off" using u d by (simp add: word_unat_eq_iff unat_offset)
qed

section \<open>Entries\<close>

lemma index_less: "unat (PDX va) < 1024" "unat (PTX va) < 1024"
  using unsigned_less [of va] by (simp_all add: unat_PDX unat_PTX div_less_iff_less_mult)

text \<open>Entries of tables do not overlap.\<close>

lemma entry_apart:
  assumes "page_aligned T" "page_aligned U" and ij: "unat i < 1024" "unat j < 1024" and "T \<noteq> U \<or> i \<noteq> j" and k: "unat k < 4"
  shows "4 \<le> unat (U + 4 * j + k - (T + 4 * i))"
proof (cases "T = U")
  case True
  then have "i \<noteq> j" using assms(5) by simp
  have "unat (4 * j + k) = 4 * unat j + unat k" "unat (4 * i) = 4 * unat i"
    using ij k by (simp_all add: unat_word_ariths)
  moreover have "unat i \<noteq> unat j" using \<open>i \<noteq> j\<close> by (simp add: word_unat_eq_iff)
  ultimately have "4 \<le> unat (4 * j + k - 4 * i)" using ij k by (auto simp: unat_sub_if')
  with True show ?thesis by (simp add: algebra_simps)
next
  case False
  have l: "unat (4 * j + k) < 4096" "unat (4 * i) \<le> 4092" using ij k by (simp_all add: unat_word_ariths)
  have "4096 \<le> unat (U + (4 * j + k) - T)" using pages_apart [OF assms(1,2) False l(1)] .
  with l(2) have "4 \<le> unat (U + (4 * j + k) - T - 4 * i)" by (simp add: unat_sub_if')
  then show ?thesis by (simp add: algebra_simps)
qed

lemma entry_store_other:
  assumes "page_aligned T" "page_aligned U" "unat i < 1024" "unat j < 1024" and "T \<noteq> U \<or> i \<noteq> j"
  shows "load32 (store32 m (T + 4 * i) w) (U + 4 * j) = load32 m (U + 4 * j)"
  by (rule load32_cong) (rule store32_outside [OF entry_apart [OF assms]])

lemma entry_memset_other:
  assumes "page_aligned T" "page_aligned U" and "T \<noteq> U" and "unat j < 1024"
  shows "load32 (memset T 0 PGSIZE m) (U + 4 * j) = load32 m (U + 4 * j)"
proof (rule load32_cong)
  fix k :: uint assume "unat k < 4"
  then have "unat (4 * j + k) < 4096" using assms(4) by (simp add: unat_word_ariths)
  from pages_apart [OF assms(1-3) this] show "memset T 0 PGSIZE m (U + 4 * j + k) = m (U + 4 * j + k)"
    by (simp add: memset_apply add.assoc)
qed

lemma entry_memset_same:
  assumes "unat j < 1024"
  shows "load32 (memset T 0 PGSIZE m) (T + 4 * j) = 0"
proof -
  have "unat (4 * j + k) < 4096" if "unat k < 4" for k :: uint using that assms by (simp add: unat_word_ariths)
  then have "load32 (memset T 0 PGSIZE m) (T + 4 * j) = load32 (\<lambda>_. 0) (T + 4 * j)"
    by (intro load32_cong) (simp add: memset_apply add.assoc)
  then show ?thesis by (simp add: load32_def)
qed

lemma low_bits: "page_aligned a \<Longrightarrow> n < 12 \<Longrightarrow> \<not> bit a n"
proof -
  assume "page_aligned a" "n < 12"
  then have "a AND mask 12 = 0" by (simp add: page_aligned_def word_mod_2p_is_mask flip: take_bit_eq_mask) (simp add: take_bit_eq_mod)
  then have "\<not> bit (a AND mask 12) n" by simp
  with \<open>n < 12\<close> show "\<not> bit a n" by (simp add: bit_and_iff bit_mask_iff)
qed

lemma present_iff: "present e \<longleftrightarrow> bit e 0" "writable_entry e \<longleftrightarrow> bit e 1"
  using bit_iff_and_push_bit_not_eq_0 [of e 0] bit_iff_and_push_bit_not_eq_0 [of e 1]
  by (simp_all add: present_def writable_entry_def)

text \<open>The entry that \<open>mappages\<close> writes.\<close>

lemma entry_fields:
  assumes "page_aligned pa" and "perm AND NOT 0xFFF = 0"
  shows "PTE_ADDR (pa OR perm OR PTE_P) = pa" "present (pa OR perm OR PTE_P)"
    "writable_entry (pa OR perm OR PTE_P) \<longleftrightarrow> writable_entry perm"
proof -
  have m: "(0xFFF :: uint) = mask 12" by (simp add: mask_eq_exp_minus_1)
  have p: "\<not> bit perm n" if "12 \<le> n" "n < 32" for n
  proof -
    have "\<not> bit (perm AND NOT (mask 12)) n" using assms(2) m by simp
    with that show ?thesis by (simp add: bit_and_iff bit_not_iff bit_mask_iff)
  qed
  show "PTE_ADDR (pa OR perm OR PTE_P) = pa"
    unfolding PTE_ADDR_def m
  proof (rule bit_word_eqI)
    fix n assume "n < LENGTH(32)"
    then show "bit ((pa OR perm OR PTE_P) AND NOT (mask 12)) n = bit pa n"
      using p [of n] low_bits [OF assms(1), of n]
      by (cases "n < 12") (auto simp: bit_and_iff bit_or_iff bit_not_iff bit_mask_iff bit_1_iff)
  qed
  show "present (pa OR perm OR PTE_P)" by (simp add: present_iff bit_or_iff)
  show "writable_entry (pa OR perm OR PTE_P) \<longleftrightarrow> writable_entry perm"
    using low_bits [OF assms(1), of 1] by (simp add: present_iff bit_or_iff bit_1_iff)
qed

lemma entry_in_page:
  assumes "unat i < 1024" and "unat (a - (T + 4 * i)) < 4"
  shows "a \<in> page_bytes T"
proof -
  have u: "unat (4 * i + k) = 4 * unat i + unat k" if "unat k < 4" for k :: uint
    using that assms(1) by (simp add: unat_word_ariths)
  have "a - T = 4 * i + (a - (T + 4 * i))" by (simp add: algebra_simps)
  then have "unat (a - T) = 4 * unat i + unat (a - (T + 4 * i))" using u [OF assms(2)] by metis
  with assms show ?thesis by (simp add: page_bytes_def)
qed

lemma store_in_page: "unat i < 1024 \<Longrightarrow> a \<notin> page_bytes T \<Longrightarrow> store32 m (T + 4 * i) w a = m a"
  using entry_in_page [of i a T] by (intro store32_outside) (meson not_less)

section \<open>Well-formed page directories\<close>

abbreviation pde_of :: "mem \<Rightarrow> uint \<Rightarrow> uint \<Rightarrow> uint" where
  "pde_of m pgdir d \<equiv> load32 m (pgdir + 4 * d)"

abbreviation table_of :: "uint \<Rightarrow> uint" where
  "table_of e \<equiv> P2V (PTE_ADDR e)"

definition pgdir_ok :: "uint \<Rightarrow> 'a vm_scheme \<Rightarrow> uint list \<Rightarrow> bool" where
  "pgdir_ok pgdir s ps \<longleftrightarrow> free_pages s ps \<and> page_ok (kend s) pgdir \<and> pgdir \<notin> set ps \<and>
     (\<forall>d. unat d < 1024 \<and> present (pde_of (mem s) pgdir d) \<longrightarrow>
        (let T = table_of (pde_of (mem s) pgdir d)
         in page_ok (kend s) T \<and> T \<notin> set ps \<and> T \<noteq> pgdir \<and> writable_entry (pde_of (mem s) pgdir d))) \<and>
     (\<forall>d e. unat d < 1024 \<and> unat e < 1024 \<and> d \<noteq> e \<and> present (pde_of (mem s) pgdir d) \<and> present (pde_of (mem s) pgdir e) \<longrightarrow>
        table_of (pde_of (mem s) pgdir d) \<noteq> table_of (pde_of (mem s) pgdir e))"

lemma pgdir_ok_table:
  assumes "pgdir_ok pgdir s ps" and "unat d < 1024" and "present (pde_of (mem s) pgdir d)"
  shows "page_ok (kend s) (table_of (pde_of (mem s) pgdir d))" "table_of (pde_of (mem s) pgdir d) \<notin> set ps"
    "table_of (pde_of (mem s) pgdir d) \<noteq> pgdir" "writable_entry (pde_of (mem s) pgdir d)"
    "page_aligned (table_of (pde_of (mem s) pgdir d))"
  using assms by (auto simp: pgdir_ok_def Let_def page_ok_def)

lemma pgdir_ok_pgdir: "pgdir_ok pgdir s ps \<Longrightarrow> page_aligned pgdir"
  by (simp add: pgdir_ok_def page_ok_def)

text \<open>The entries of a translation that a store keeps.\<close>

definition pte_of :: "mem \<Rightarrow> uint \<Rightarrow> uint \<Rightarrow> uint" where
  "pte_of m pgdir va = load32 m (table_of (pde_of m pgdir (PDX va)) + 4 * PTX va)"

lemma mmu_entries:
  "va < KERNBASE \<Longrightarrow> mmu w pgdir va m =
    (if present (pde_of m pgdir (PDX va)) \<and> present (pte_of m pgdir va) \<and>
        (w \<longrightarrow> writable_entry (pde_of m pgdir (PDX va)) \<and> writable_entry (pte_of m pgdir va))
     then Some (P2V (PTE_ADDR (pte_of m pgdir va)) + (va AND 0xFFF)) else None)"
  by (simp add: mmu_def pte_of_def Let_def linorder_not_le [symmetric])

text \<open>Writing the entry of a page in an existing table.\<close>

lemma store_pte:
  fixes w :: uint
  assumes ok: "pgdir_ok pgdir s ps" and p: "present (pde_of (mem s) pgdir (PDX va))"
  defines "m \<equiv> store32 (mem s) (table_of (pde_of (mem s) pgdir (PDX va)) + 4 * PTX va) w"
  shows "pgdir_ok pgdir (s\<lparr>mem := m\<rparr>) ps" "\<And>d. unat d < 1024 \<Longrightarrow> pde_of m pgdir d = pde_of (mem s) pgdir d"
    "pte_of m pgdir va = w"
    "\<And>vb. unat vb div 4096 \<noteq> unat va div 4096 \<Longrightarrow> present (pde_of (mem s) pgdir (PDX vb)) \<Longrightarrow> pte_of m pgdir vb = pte_of (mem s) pgdir vb"
proof -
  let ?T = "table_of (pde_of (mem s) pgdir (PDX va))"
  note T = pgdir_ok_table [OF ok index_less(1) p] and D = pgdir_ok_pgdir [OF ok]
  show e: "pde_of m pgdir d = pde_of (mem s) pgdir d" if "unat d < 1024" for d
    unfolding m_def using entry_store_other [OF T(5) D index_less(2) that] T(3) by simp
  show "pte_of m pgdir va = w" unfolding pte_of_def e [OF index_less(1)] by (simp add: m_def)
  show "pte_of m pgdir vb = pte_of (mem s) pgdir vb"
    if vb: "unat vb div 4096 \<noteq> unat va div 4096" "present (pde_of (mem s) pgdir (PDX vb))" for vb
  proof -
    note U = pgdir_ok_table [OF ok index_less(1) vb(2)]
    have "?T \<noteq> table_of (pde_of (mem s) pgdir (PDX vb)) \<or> PTX va \<noteq> PTX vb"
    proof (rule disjCI)
      assume "\<not> PTX va \<noteq> PTX vb"
      then have "PDX va \<noteq> PDX vb" using same_indices [of va vb] vb(1) by auto
      then show "?T \<noteq> table_of (pde_of (mem s) pgdir (PDX vb))"
        using ok p vb(2) index_less(1) unfolding pgdir_ok_def by blast
    qed
    from entry_store_other [OF T(5) U(5) index_less(2) index_less(2) this]
    show ?thesis unfolding pte_of_def e [OF index_less(1)] by (simp add: m_def)
  qed
  have f: "free_pages (s\<lparr>mem := m\<rparr>) ps"
  proof (rule free_pages_use [where out = "{?T}"])
    show "free_pages s ps" using ok by (simp add: pgdir_ok_def)
    show "\<forall>a. m a \<noteq> mem s a \<longrightarrow> (\<exists>q\<in>{?T}. a \<in> page_bytes q)"
      unfolding m_def using store_in_page [OF index_less(2)] by blast
  qed (use T in auto)
  show "pgdir_ok pgdir (s\<lparr>mem := m\<rparr>) ps"
    using ok f e unfolding pgdir_ok_def by (simp add: Let_def cong: conj_cong)
qed

text \<open>A new, empty table.\<close>

lemma new_table_fields:
  assumes "page_aligned T"
  shows "table_of (V2P T OR PTE_P OR PTE_W OR PTE_U) = T" "present (V2P T OR PTE_P OR PTE_W OR PTE_U)"
    "writable_entry (V2P T OR PTE_P OR PTE_W OR PTE_U)"
proof -
  have "page_aligned (V2P T)"
  proof -
    obtain i where "unat T = 4096 * i" using unat_page [OF assms] by blast
    then have "4096 dvd unat (T - 0x80000000)" by (auto simp: unat_sub_if' intro!: dvd_diff_nat dvd_add)
    then show ?thesis by (simp add: page_aligned_iff V2P_def dvd_eq_mod_eq_0)
  qed
  then have "PTE_ADDR (V2P T OR 6 OR PTE_P) = V2P T" "present (V2P T OR 6 OR PTE_P)" "writable_entry (V2P T OR 6 OR PTE_P)"
    using entry_fields [of "V2P T" 6] by (simp_all add: writable_entry_def)
  moreover have "V2P T OR PTE_P OR PTE_W OR PTE_U = V2P T OR 6 OR PTE_P" by simp
  ultimately show "table_of (V2P T OR PTE_P OR PTE_W OR PTE_U) = T" "present (V2P T OR PTE_P OR PTE_W OR PTE_U)"
    "writable_entry (V2P T OR PTE_P OR PTE_W OR PTE_U)" by (simp_all add: P2V_def V2P_def)
qed

lemma new_table:
  assumes ok: "pgdir_ok pgdir s (T # ps)" and n: "\<not> present (pde_of (mem s) pgdir (PDX va))"
    and t: "kend t = kend s" "free_pages t ps" "mem t = mem s"
  defines "m \<equiv> store32 (memset T 0 PGSIZE (mem s)) (pgdir + 4 * PDX va) (V2P T OR PTE_P OR PTE_W OR PTE_U)"
  shows "pgdir_ok pgdir (t\<lparr>mem := m\<rparr>) ps" "pde_of m pgdir (PDX va) = V2P T OR PTE_P OR PTE_W OR PTE_U"
    "\<And>vb w. vb < KERNBASE \<Longrightarrow> mmu w pgdir vb m = mmu w pgdir vb (mem s)"
proof -
  have free: "free_pages s (T # ps)" using ok by (simp add: pgdir_ok_def)
  have T: "page_ok (kend s) T" "T \<notin> set ps" "T \<noteq> pgdir" using ok free by (auto simp: pgdir_ok_def free_pages_def)
  have Ta: "page_aligned T" using T(1) by (simp add: page_ok_def)
  note D = pgdir_ok_pgdir [OF ok] and nf = new_table_fields [OF Ta]
  show e: "pde_of m pgdir (PDX va) = V2P T OR PTE_P OR PTE_W OR PTE_U" by (simp add: m_def)
  have eo: "pde_of m pgdir d = pde_of (mem s) pgdir d" if "unat d < 1024" "d \<noteq> PDX va" for d
    unfolding m_def using entry_store_other [OF D D index_less(1) that(1)] that(2) entry_memset_other [OF Ta D T(3) that(1)]
    by simp
  have old: "present (pde_of (mem s) pgdir d) \<Longrightarrow> unat d < 1024 \<Longrightarrow> d \<noteq> PDX va \<and> table_of (pde_of (mem s) pgdir d) \<noteq> T" for d
    using n ok by (auto simp: pgdir_ok_def Let_def)
  show "mmu w pgdir vb m = mmu w pgdir vb (mem s)" if vb: "vb < KERNBASE" for vb w
  proof (cases "PDX vb = PDX va")
    case True
    have "pte_of m pgdir vb = load32 (memset T 0 PGSIZE (mem s)) (T + 4 * PTX vb)"
      unfolding pte_of_def True e nf(1)
      unfolding m_def using entry_store_other [OF D Ta index_less(1,2)] T(3) by simp
    then have "pte_of m pgdir vb = 0" using entry_memset_same [OF index_less(2)] by simp
    then have "\<not> present (pte_of m pgdir vb)" by (simp add: present_def)
    with n True show ?thesis by (simp add: mmu_entries [OF vb])
  next
    case False
    have same: "pde_of m pgdir (PDX vb) = pde_of (mem s) pgdir (PDX vb)" using eo [OF index_less(1) False] .
    show ?thesis
    proof (cases "present (pde_of (mem s) pgdir (PDX vb))")
      case True
      note U = pgdir_ok_table [OF ok index_less(1) True]
      have "pte_of m pgdir vb = pte_of (mem s) pgdir vb"
        unfolding pte_of_def same unfolding m_def
        using entry_store_other [OF D U(5) index_less] entry_memset_other [OF Ta U(5) _ index_less(2)] U(3) old [OF True index_less(1)]
        by (auto simp: eq_commute [of T] eq_commute [of pgdir])
      then show ?thesis by (simp add: mmu_entries [OF vb] same)
    next
      case False
      then show ?thesis by (simp add: mmu_entries [OF vb] same)
    qed
  qed
  have f: "free_pages (t\<lparr>mem := m\<rparr>) ps"
  proof (rule free_pages_use [where out = "{T, pgdir}"])
    show "\<forall>a. m a \<noteq> mem t a \<longrightarrow> (\<exists>q\<in>{T, pgdir}. a \<in> page_bytes q)"
    proof (intro allI impI)
      fix a assume a: "m a \<noteq> mem t a"
      show "\<exists>q\<in>{T, pgdir}. a \<in> page_bytes q"
      proof (cases "a \<in> page_bytes pgdir")
        case False
        then have "memset T 0 PGSIZE (mem s) a \<noteq> mem s a"
          using a store_in_page [OF index_less(1) False] by (simp add: m_def t(3))
        then show ?thesis by (simp add: memset_apply page_bytes_def split: if_splits)
      qed blast
    qed
    show "\<forall>q\<in>{T, pgdir}. page_ok (kend t) q" using T ok t(1) by (simp add: pgdir_ok_def)
    show "set ps \<inter> {T, pgdir} = {}" using T ok by (auto simp: pgdir_ok_def)
  qed (rule t(2))
  show "pgdir_ok pgdir (t\<lparr>mem := m\<rparr>) ps"
    unfolding pgdir_ok_def
  proof (intro conjI allI impI)
    fix d assume d: "unat d < 1024 \<and> present (pde_of (mem (t\<lparr>mem := m\<rparr>)) pgdir d)"
    show "let U = table_of (pde_of (mem (t\<lparr>mem := m\<rparr>)) pgdir d)
       in page_ok (kend (t\<lparr>mem := m\<rparr>)) U \<and> U \<notin> set ps \<and> U \<noteq> pgdir \<and> writable_entry (pde_of (mem (t\<lparr>mem := m\<rparr>)) pgdir d)"
    proof (cases "d = PDX va")
      case True
      with e nf T t show ?thesis by (simp add: Let_def)
    next
      case False
      then have s: "pde_of m pgdir d = pde_of (mem s) pgdir d" using eo d by simp
      then have "present (pde_of (mem s) pgdir d)" using d by simp
      with pgdir_ok_table [OF ok _ this] d s t show ?thesis by (simp add: Let_def)
    qed
  next
    fix c d assume cd: "unat c < 1024 \<and> unat d < 1024 \<and> c \<noteq> d \<and> present (pde_of (mem (t\<lparr>mem := m\<rparr>)) pgdir c) \<and>
      present (pde_of (mem (t\<lparr>mem := m\<rparr>)) pgdir d)"
    then consider "c = PDX va" "d \<noteq> PDX va" | "d = PDX va" "c \<noteq> PDX va" | "c \<noteq> PDX va" "d \<noteq> PDX va" by blast
    then show "table_of (pde_of (mem (t\<lparr>mem := m\<rparr>)) pgdir c) \<noteq> table_of (pde_of (mem (t\<lparr>mem := m\<rparr>)) pgdir d)"
    proof cases
      case 1
      then show ?thesis using cd old [of d] eo [of d] e nf by auto
    next
      case 2
      then show ?thesis using cd old [of c] eo [of c] e nf by auto
    next
      case 3
      then show ?thesis using cd eo [of c] eo [of d] ok unfolding pgdir_ok_def by simp
    qed
  qed (use f ok t in \<open>simp_all add: pgdir_ok_def\<close>)
qed

section \<open>Walking and mapping\<close>

lemma entry_nonzero:
  assumes "page_ok e T" and "unat i < 1024"
  shows "T + 4 * i \<noteq> 0"
proof -
  have "unat (4 * i) < 4096" using assms(2) by (simp add: unat_word_ariths)
  then have "unat (T + 4 * i) = unat T + unat (4 * i)" using page_plus(1) assms(1) by (simp add: page_ok_def)
  moreover have "unat T \<noteq> 0" using page_ok_nonzero [OF assms(1)] by (simp add: unat_gt_0)
  ultimately show ?thesis by (metis add_is_0 unat_0)
qed

lemma walkpgdir_alloc:
  assumes ok: "pgdir_ok pgdir s ps"
  shows "\<exists>pte t qs. walkpgdir pgdir va True s = Inr (pte, t) \<and> pgdir_ok pgdir t qs \<and> kend t = kend s \<and>
    (\<forall>vb w. vb < KERNBASE \<longrightarrow> mmu w pgdir vb (mem t) = mmu w pgdir vb (mem s)) \<and>
    (pte = 0 \<and> ps = [] \<or> pte \<noteq> 0 \<and> present (pde_of (mem t) pgdir (PDX va)) \<and> pte = table_of (pde_of (mem t) pgdir (PDX va)) + 4 * PTX va)"
proof (cases "present (pde_of (mem s) pgdir (PDX va))")
  case True
  let ?T = "table_of (pde_of (mem s) pgdir (PDX va))"
  have "?T + 4 * PTX va \<noteq> 0" using entry_nonzero [OF pgdir_ok_table(1) [OF ok index_less(1) True] index_less(2)] .
  then show ?thesis using ok True by (intro exI [of _ "?T + 4 * PTX va"] exI [of _ s] exI [of _ ps]) (simp add: walkpgdir_def)
next
  case False
  have free: "free_pages s ps" using ok by (simp add: pgdir_ok_def)
  obtain r where r: "kalloc s = Inr (case ps of [] \<Rightarrow> 0 | p # _ \<Rightarrow> p, (ksync s)\<lparr>kmem_freelist := r\<rparr>)"
      "free_pages ((ksync s)\<lparr>kmem_freelist := r\<rparr>) (tl ps)"
    using kalloc_pages [OF free] by blast
  let ?t = "(ksync s)\<lparr>kmem_freelist := r\<rparr>"
  have t: "mem ?t = mem s" "kend ?t = kend s" by simp_all
  show ?thesis
  proof (cases ps)
    case Nil
    have "pgdir_ok pgdir ?t []" using ok r(2) Nil unfolding pgdir_ok_def t by simp
    with Nil False r(1) t show ?thesis
      by (intro exI [of _ 0] exI [of _ ?t] exI [of _ "[]"]) (simp add: walkpgdir_def Let_def)
  next
    case (Cons T qs)
    have T: "page_ok (kend s) T" using free Cons by (simp add: free_pages_def)
    then have Ta: "page_aligned T" "T \<noteq> 0" by (simp_all add: page_ok_def page_ok_nonzero [OF T])
    let ?m = "store32 (memset T 0 PGSIZE (mem s)) (pgdir + 4 * PDX va) (V2P T OR PTE_P OR PTE_W OR PTE_U)"
    note nt = new_table [OF ok [unfolded Cons] False t(2) r(2) [unfolded Cons list.sel] t(1)]
    have "walkpgdir pgdir va True s = Inr (T + 4 * PTX va, ?t\<lparr>mem := ?m\<rparr>)"
      using False r(1) Cons Ta(2) by (simp add: walkpgdir_def Let_def)
    moreover have "T + 4 * PTX va \<noteq> 0" using entry_nonzero [OF T index_less(2)] .
    moreover have "present (pde_of ?m pgdir (PDX va))" "table_of (pde_of ?m pgdir (PDX va)) = T"
      unfolding nt(2) using new_table_fields [OF Ta(1)] by simp_all
    ultimately show ?thesis using nt t(2)
      by (intro exI [of _ "T + 4 * PTX va"] exI [of _ "?t\<lparr>mem := ?m\<rparr>"] exI [of _ qs]) simp
  qed
qed

text \<open>One page.\<close>

lemma map_page:
  assumes ok: "pgdir_ok pgdir s ps" and va: "page_aligned va" "va < KERNBASE" "mmu False pgdir va (mem s) = None"
    and pa: "page_aligned pa" "perm AND NOT 0xFFF = 0"
  shows "\<exists>r t qs. mappages_loop 0 pgdir va pa perm s = Inr (r, t) \<and> pgdir_ok pgdir t qs \<and> kend t = kend s \<and>
    (\<forall>vb w. vb < KERNBASE \<and> unat vb div 4096 \<noteq> unat va div 4096 \<longrightarrow> mmu w pgdir vb (mem t) = mmu w pgdir vb (mem s)) \<and>
    (r = - 1 \<and> ps = [] \<or> r = 0 \<and> (\<forall>off. unat off < 4096 \<longrightarrow>
       mmu False pgdir (va + off) (mem t) = Some (P2V pa + off) \<and>
       mmu True pgdir (va + off) (mem t) = (if writable_entry perm then Some (P2V pa + off) else None)))"
proof -
  obtain pte t qs where w: "walkpgdir pgdir va True s = Inr (pte, t)" "pgdir_ok pgdir t qs" "kend t = kend s"
      "\<forall>vb w. vb < KERNBASE \<longrightarrow> mmu w pgdir vb (mem t) = mmu w pgdir vb (mem s)"
      "pte = 0 \<and> ps = [] \<or> pte \<noteq> 0 \<and> present (pde_of (mem t) pgdir (PDX va)) \<and> pte = table_of (pde_of (mem t) pgdir (PDX va)) + 4 * PTX va"
    using walkpgdir_alloc [OF ok] by blast
  show ?thesis
  proof (cases "pte = 0")
    case True
    with w show ?thesis by (intro exI [of _ "- 1"] exI [of _ t] exI [of _ qs]) (simp add: mappages_loop.simps)
  next
    case False
    let ?e = "pa OR perm OR PTE_P"
    let ?m = "store32 (mem t) pte ?e"
    have p: "present (pde_of (mem t) pgdir (PDX va))" "pte = table_of (pde_of (mem t) pgdir (PDX va)) + 4 * PTX va"
      using w(5) False by simp_all
    note st = store_pte [OF w(2) p(1), where w = ?e, folded p(2)] and ef = entry_fields [OF pa]
    have "mmu False pgdir va (mem t) = None" using w(4) va by simp
    then have "\<not> present (load32 (mem t) pte)" using p by (simp add: mmu_entries [OF va(2)] pte_of_def split: if_splits)
    then have "mappages_loop 0 pgdir va pa perm s = Inr (0, t\<lparr>mem := ?m\<rparr>)"
      using w(1) False by (simp add: mappages_loop.simps)
    moreover have "mmu w pgdir vb ?m = mmu w pgdir vb (mem s)" if "vb < KERNBASE" "unat vb div 4096 \<noteq> unat va div 4096" for vb w
    proof -
      have "mmu w pgdir vb ?m = mmu w pgdir vb (mem t)"
        using st(4) [OF that(2)] st(2) [OF index_less(1)] by (auto simp: mmu_entries [OF that(1)])
      then show ?thesis using w(4) that(1) by simp
    qed
    moreover have "mmu w pgdir (va + off) ?m = (if w \<longrightarrow> writable_entry perm then Some (P2V pa + off) else None)"
      if off: "unat off < 4096" for off w
    proof -
      note pp = page_plus [OF va(1) off]
      have "va + off < KERNBASE"
      proof -
        obtain i where "unat va = 4096 * i" using unat_page [OF va(1)] by blast
        with va(2) pp(1) off show ?thesis by (simp add: word_less_nat_alt)
      qed
      moreover have "pte_of ?m pgdir (va + off) = ?e" using st(3) pp(3,4) by (simp add: pte_of_def)
      moreover have "pde_of ?m pgdir (PDX (va + off)) = pde_of (mem t) pgdir (PDX va)" using st(2) [OF index_less(1)] pp(3) by simp
      ultimately show ?thesis
        using ef p(1) pgdir_ok_table(4) [OF w(2) index_less(1) p(1)] pp(2) by (simp add: mmu_entries)
    qed
    ultimately show ?thesis using st(1) w(3)
      by (intro exI [of _ 0] exI [of _ "t\<lparr>mem := ?m\<rparr>"] exI [of _ qs]) simp
  qed
qed

lemma mappages_loop_Suc:
  "mappages_loop (Suc n) pgdir va pa perm s =
     bnd (mappages_loop 0 pgdir va pa perm s) (\<lambda>(r, t).
       if r = 0 then mappages_loop n pgdir (va + PGSIZE) (pa + PGSIZE) perm t else Inr (r, t))"
  unfolding mappages_loop.simps [of "Suc n"] mappages_loop.simps [of 0]
  by (cases "walkpgdir pgdir va True s") (auto simp: Let_def)

lemma page_aligned_plus: "page_aligned a \<Longrightarrow> page_aligned (a + PGSIZE)"
proof -
  assume "page_aligned a"
  then obtain i where i: "unat a = 4096 * i" "i < 2 ^ 20" using unat_page by blast
  have "unat (a + 4096) = (4096 * i + 4096) mod 2 ^ 32" using i by (simp add: unat_word_ariths)
  moreover have "4096 dvd (4096 * i + 4096) mod 2 ^ 32" by (rule dvd_mod) simp_all
  ultimately show ?thesis by (simp add: page_aligned_iff dvd_eq_mod_eq_0)
qed

text \<open>The virtual pages from \<open>va\<close> on, \<open>n\<close> of them.\<close>

abbreviation in_pages :: "uint \<Rightarrow> nat \<Rightarrow> uint \<Rightarrow> bool" where
  "in_pages va n vb \<equiv> unat va div 4096 \<le> unat vb div 4096 \<and> unat vb div 4096 < unat va div 4096 + n"

lemma map_pages:
  assumes "pgdir_ok pgdir s ps" and "page_aligned va" "unat va + 4096 * Suc n \<le> 2 ^ 31" "\<forall>vb. in_pages va (Suc n) vb \<longrightarrow> mmu False pgdir vb (mem s) = None"
    and "page_aligned pa" "perm AND NOT 0xFFF = 0"
  shows "\<exists>r t qs. mappages_loop n pgdir va pa perm s = Inr (r, t) \<and> pgdir_ok pgdir t qs \<and> kend t = kend s \<and>
    (\<forall>vb w. vb < KERNBASE \<and> \<not> in_pages va (Suc n) vb \<longrightarrow> mmu w pgdir vb (mem t) = mmu w pgdir vb (mem s)) \<and>
    (r = - 1 \<or> r = 0 \<and> (\<forall>off. unat off < 4096 * Suc n \<longrightarrow>
       mmu False pgdir (va + off) (mem t) = Some (P2V pa + off) \<and>
       mmu True pgdir (va + off) (mem t) = (if writable_entry perm then Some (P2V pa + off) else None)))"
  using assms
proof (induction n arbitrary: s ps va pa)
  case 0
  have "va < KERNBASE" using 0(3) by (simp add: word_less_nat_alt)
  moreover have "mmu False pgdir va (mem s) = None" using 0(4) by simp
  ultimately show ?case using map_page [OF 0(1,2) _ _ 0(5,6)] by (force simp: le_less_Suc_eq)
next
  case (Suc n)
  obtain i where i: "unat va = 4096 * i" using unat_page [OF Suc.prems(2)] by blast
  have va: "va < KERNBASE" "mmu False pgdir va (mem s) = None"
    using Suc.prems(3,4) by (simp_all add: word_less_nat_alt)
  obtain r t qs where t: "mappages_loop 0 pgdir va pa perm s = Inr (r, t)" "pgdir_ok pgdir t qs" "kend t = kend s"
      "\<forall>vb w. vb < KERNBASE \<and> unat vb div 4096 \<noteq> unat va div 4096 \<longrightarrow> mmu w pgdir vb (mem t) = mmu w pgdir vb (mem s)"
      "r = - 1 \<or> r = 0 \<and> (\<forall>off. unat off < 4096 \<longrightarrow>
         mmu False pgdir (va + off) (mem t) = Some (P2V pa + off) \<and>
         mmu True pgdir (va + off) (mem t) = (if writable_entry perm then Some (P2V pa + off) else None))"
    using map_page [OF Suc.prems(1,2) va Suc.prems(5,6)] by blast
  show ?case
  proof (cases "r = 0")
    case False
    with t show ?thesis
      by (intro exI [of _ "- 1"] exI [of _ t] exI [of _ qs]) (auto simp: mappages_loop_Suc)
  next
    case True
    let ?va = "va + PGSIZE" and ?pa = "pa + PGSIZE"
    have nx: "unat ?va = unat va + 4096" using Suc.prems(3) by (simp add: unat_word_ariths)
    have dv: "unat ?va div 4096 = Suc i" "unat va div 4096 = i" using nx i by simp_all
    have below: "vb < KERNBASE" if "unat vb div 4096 < i + Suc (Suc n)" for vb :: uint
    proof -
      have "unat vb < 4096 * (i + Suc (Suc n))" using that by (simp add: div_less_iff_less_mult mult.commute)
      then show ?thesis using Suc.prems(3) i by (simp add: word_less_nat_alt)
    qed
    have "mmu False pgdir vb (mem t) = None" if "in_pages ?va (Suc n) vb" for vb
      using that t(4) Suc.prems(4) below [of vb] dv by auto
    moreover have "unat ?va + 4096 * Suc n \<le> 2 ^ 31" using Suc.prems(3) nx by simp
    ultimately obtain r' u qs' where u: "mappages_loop n pgdir ?va ?pa perm t = Inr (r', u)" "pgdir_ok pgdir u qs'" "kend u = kend t"
        "\<forall>vb w. vb < KERNBASE \<and> \<not> in_pages ?va (Suc n) vb \<longrightarrow> mmu w pgdir vb (mem u) = mmu w pgdir vb (mem t)"
        "r' = - 1 \<or> r' = 0 \<and> (\<forall>off. unat off < 4096 * Suc n \<longrightarrow>
           mmu False pgdir (?va + off) (mem u) = Some (P2V ?pa + off) \<and>
           mmu True pgdir (?va + off) (mem u) = (if writable_entry perm then Some (P2V ?pa + off) else None))"
      using Suc.IH [OF t(2) page_aligned_plus [OF Suc.prems(2)] _ _ page_aligned_plus [OF Suc.prems(5)] Suc.prems(6)] by blast
    have loop: "mappages_loop (Suc n) pgdir va pa perm s = Inr (r', u)" using t(1) True u(1) by (simp add: mappages_loop_Suc)
    have others: "mmu w pgdir vb (mem u) = mmu w pgdir vb (mem s)" if "vb < KERNBASE" "\<not> in_pages va (Suc (Suc n)) vb" for vb w
      using that u(4) t(4) dv by auto
    have "r' = 0 \<longrightarrow> mmu w pgdir (va + off) (mem u) = (if w \<longrightarrow> writable_entry perm then Some (P2V pa + off) else None)"
      if off: "unat off < 4096 * Suc (Suc n)" for off w
    proof
      assume "r' = 0"
      show "mmu w pgdir (va + off) (mem u) = (if w \<longrightarrow> writable_entry perm then Some (P2V pa + off) else None)"
      proof (cases "unat off < 4096")
        case True
        have "unat (va + off) = 4096 * i + unat off" using page_plus(1) [OF Suc.prems(2) True] i by simp
        then have "unat (va + off) div 4096 = i" using True by simp
        then have "mmu w pgdir (va + off) (mem u) = mmu w pgdir (va + off) (mem t)" using u(4) below [of "va + off"] dv by simp
        with t(5) \<open>r = 0\<close> True show ?thesis by (cases w) auto
      next
        case False
        then have "unat (off - 4096) < 4096 * Suc n" using off by (simp add: unat_sub_if')
        with u(5) \<open>r' = 0\<close> show ?thesis
          by (cases w) (auto simp: P2V_def dest!: spec [of _ "off - 4096"])
      qed
    qed
    from this [of _ False] this [of _ True] show ?thesis
      using loop u(2,3,5) t(3) others by (intro exI [of _ r'] exI [of _ u] exI [of _ qs']) auto
  qed
qed


text \<open>A page directory with one empty table, and no free memory.\<close>

definition one_table :: vm where
  "one_table = kmem.extend (boot_kmem\<lparr>mem := store32 (\<lambda>_. 0) 0x80200000 0x201007\<rparr>) \<lparr>kpgdir = 0, kdata = 0x80109000\<rparr>"

lemma one_table_pde:
  assumes "unat d < 1024"
  shows "pde_of (mem one_table) 0x80200000 d = (if d = 0 then 0x201007 else 0)"
proof -
  have m: "mem one_table = store32 (\<lambda>_. 0) (0x80200000 + 4 * 0) 0x201007" by (simp add: one_table_def kmem.defs)
  have "page_aligned 0x80200000" by (simp add: page_aligned_def)
  from entry_store_other [OF this this _ assms, of 0 "\<lambda>_. 0" "0x201007"]
  have "d \<noteq> 0 \<Longrightarrow> pde_of (mem one_table) 0x80200000 d = 0" unfolding m by (simp add: load32_def)
  moreover have "pde_of (mem one_table) 0x80200000 0 = 0x201007" unfolding m by simp
  ultimately show ?thesis by simp
qed

lemma one_table_pte: "unat i < 1024 \<Longrightarrow> load32 (mem one_table) (0x80201000 + 4 * i) = 0"
proof -
  assume i: "unat i < 1024"
  have m: "mem one_table = store32 (\<lambda>_. 0) (0x80200000 + 4 * 0) 0x201007" by (simp add: one_table_def kmem.defs)
  have "page_aligned 0x80200000" "page_aligned 0x80201000" by (simp_all add: page_aligned_def)
  from entry_store_other [OF this _ i, of 0 "\<lambda>_. 0" "0x201007"] show ?thesis
    unfolding m by (simp add: load32_def)
qed

lemma one_table_ok: "pgdir_ok 0x80200000 one_table []"
proof -
  have "free_pages one_table []" by (simp add: free_pages_def kmem_ready_def one_table_def kmem.defs)
  moreover have "kend one_table = 0x801154a8" by (simp add: one_table_def kmem.defs)
  moreover have "page_ok 0x801154a8 0x80200000" "page_ok 0x801154a8 0x80201000"
    by (simp_all add: page_ok_def page_aligned_def V2P_def word_le_nat_alt word_less_nat_alt)
  moreover have "table_of 0x201007 = 0x80201000" by (simp add: PTE_ADDR_def P2V_def)
  ultimately show ?thesis
    unfolding pgdir_ok_def by (auto simp: one_table_pde present_def writable_entry_def Let_def split: if_splits)
qed


end
