(* ===== verification/Mp.thy ===== *)
theory Mp
  imports Ide
begin

text \<open>
  The search for the multiprocessor tables that the firmware leaves in memory (\<open>mp.c\<close>, \<open>mp.h\<close>):
  which CPUs and which interrupt controller the kernel finds. Structures are read from byte memory
  at the offsets of their fields. The loop over the table may run forever, so it is a partial
  function: \<^term>\<open>None\<close> when it does not end.
\<close>

section \<open>State\<close>

text \<open>The variable \<open>lapic\<close> and the interrupt mode configuration register behind the ports 0x22, 0x23.\<close>

record mpsys = bcache +
  lapic_addr :: uint
  imcr :: "uchar \<Rightarrow> uchar"

section \<open>The floating pointer\<close>

definition load16 :: "mem \<Rightarrow> uint \<Rightarrow> uint" where
  "load16 m a = ucast (m a) OR push_bit 8 (ucast (m (a + 1)))"

definition mp_sum :: "mem \<Rightarrow> uint \<Rightarrow> nat \<Rightarrow> uchar" where
  "mp_sum m a len = sum_list (bytes_at m a len)"

text \<open>The addresses that the loop visits: every 16 bytes, the size of \<open>struct mp\<close>.\<close>

definition mpsearch1 :: "mem \<Rightarrow> uint \<Rightarrow> nat \<Rightarrow> uint option" where
  "mpsearch1 m a len =
     find (\<lambda>p. bytes_at m p 4 = [95, 77, 80, 95] \<and> mp_sum m p 16 = 0)
       (map (\<lambda>i. P2V a + 16 * of_nat i) [0..<(len + 15) div 16])"

definition mpsearch :: "mem \<Rightarrow> uint option" where
  "mpsearch m =
     (let bda = P2V 0x400;
          p = push_bit 4 (push_bit 8 (ucast (m (bda + 0x0F))) OR ucast (m (bda + 0x0E)));
          first = (if p \<noteq> 0 then mpsearch1 m p 1024
                   else let p = (push_bit 8 (ucast (m (bda + 0x14))) OR ucast (m (bda + 0x13))) * 1024
                        in mpsearch1 m (p - 1024) 1024)
      in case first of Some mp \<Rightarrow> Some mp | None \<Rightarrow> mpsearch1 m 0xF0000 0x10000)"

definition mpconfig :: "mem \<Rightarrow> (uint \<times> uint) option" where
  "mpconfig m =
     (case mpsearch m of
        None \<Rightarrow> None
      | Some mp \<Rightarrow>
          if load32 m (mp + 4) = 0 then None
          else let conf = P2V (load32 m (mp + 4))
               in if bytes_at m conf 4 \<noteq> [80, 67, 77, 80] then None
                  else if m (conf + 6) \<noteq> 1 \<and> m (conf + 6) \<noteq> 4 then None
                  else if mp_sum m conf (unat (load16 m (conf + 4))) \<noteq> 0 then None
                  else Some (mp, conf))"

section \<open>The configuration table\<close>

definition mp_proc :: "uint \<Rightarrow> 'a mpsys_scheme \<Rightarrow> 'a mpsys_scheme" where
  "mp_proc p s =
     (if ncpu s < NCPU
      then (upd_cpu (ncpu s) (\<lambda>c. c\<lparr>apicid := mem s (p + 1)\<rparr>) s)\<lparr>ncpu := ncpu s + 1\<rparr>
      else s)"

text \<open>
  The loop of \<open>mpinit\<close> over the entries, with the flag \<open>ismp\<close>. The \<open>break\<close> of the \<open>default\<close> case
  leaves the \<open>switch\<close> only: the loop goes on with the same entry.
\<close>

partial_function (option) mp_loop ::
    "uint \<Rightarrow> uint \<Rightarrow> bool \<Rightarrow> 'a mpsys_scheme \<Rightarrow> (bool \<times> 'a mpsys_scheme) option" where
  "mp_loop p e ismp s =
     (if p < e then
        (if mem s p = 0 then mp_loop (p + 20) e ismp (mp_proc p s)
         else if mem s p = 2 then mp_loop (p + 8) e ismp (s\<lparr>ioapicid := mem s (p + 1)\<rparr>)
         else if mem s p = 1 \<or> mem s p = 3 \<or> mem s p = 4 then mp_loop (p + 8) e ismp s
         else mp_loop p e False s)
      else Some (ismp, s))"

definition mpinit :: "'a mpsys_scheme \<Rightarrow> 'a mpsys_scheme res option" where
  "mpinit s =
     (case mpconfig (mem s) of
        None \<Rightarrow> Some (Inl (Panic ''Expect to run on an SMP''))
      | Some (mp, conf) \<Rightarrow>
          (case mp_loop (conf + 44) (conf + load16 (mem s) (conf + 4)) True
                  (s\<lparr>lapic_addr := load32 (mem s) (conf + 36)\<rparr>) of
             None \<Rightarrow> None
           | Some (ismp, s) \<Rightarrow>
               if \<not> ismp then Some (Inl (Panic ''Didn't find a suitable machine''))
               else if mem s (mp + 12) \<noteq> 0
               then Some (Inr (s\<lparr>imcr := (imcr s)(0x70 := imcr s 0x70 OR 1)\<rparr>))
               else Some (Inr s)))"

section \<open>When the loop ends\<close>

text \<open>The walk from an entry to the end of the table meets known kinds of entries only.\<close>

inductive known_entries :: "mem \<Rightarrow> uint \<Rightarrow> uint \<Rightarrow> bool" for m e where
  past_end: "\<not> p < e \<Longrightarrow> known_entries m e p"
| processor: "p < e \<Longrightarrow> m p = 0 \<Longrightarrow> known_entries m e (p + 20) \<Longrightarrow> known_entries m e p"
| other: "p < e \<Longrightarrow> m p \<in> {1, 2, 3, 4} \<Longrightarrow> known_entries m e (p + 8) \<Longrightarrow> known_entries m e p"

inductive_cases known_entriesE: "known_entries m e p"

lemma mp_proc_frame [simp]: "mem (mp_proc p s) = mem s" "imcr (mp_proc p s) = imcr s"
  by (simp_all add: mp_proc_def upd_cpu_def)

lemma mp_proc_ncpu: "ncpu s \<le> ncpu (mp_proc p s)" "ncpu s \<le> NCPU \<Longrightarrow> ncpu (mp_proc p s) \<le> NCPU"
  by (simp_all add: mp_proc_def)

lemma mp_loop_ends:
  "known_entries m e p \<Longrightarrow> mem s = m \<Longrightarrow> mp_loop p e ismp s \<noteq> None"
proof (induction arbitrary: s rule: known_entries.induct)
  case (past_end p)
  then show ?case by (subst mp_loop.simps) simp
next
  case (processor p)
  then show ?case by (subst mp_loop.simps) simp
next
  case (other p)
  then show ?case by (subst mp_loop.simps) auto
qed

lemma mp_loop_result:
  assumes "mp_loop p e ismp s = Some y"
  shows "known_entries (mem s) e p \<and> fst y = ismp \<and> mem (snd y) = mem s \<and> ncpu s \<le> ncpu (snd y) \<and>
    (ncpu s \<le> NCPU \<longrightarrow> ncpu (snd y) \<le> NCPU)"
proof (rule mp_loop.raw_induct [OF _ assms])
  fix loop :: "uint \<Rightarrow> uint \<Rightarrow> bool \<Rightarrow> 'a mpsys_scheme \<Rightarrow> (bool \<times> 'a mpsys_scheme) option"
    and p e ismp s y
  assume IH: "\<And>p e ismp s y. loop p e ismp s = Some y \<Longrightarrow> known_entries (mem s) e p \<and> fst y = ismp \<and>
    mem (snd y) = mem s \<and> ncpu s \<le> ncpu (snd y) \<and> (ncpu s \<le> NCPU \<longrightarrow> ncpu (snd y) \<le> NCPU)"
    and y: "(if p < e then
        (if mem s p = 0 then loop (p + 20) e ismp (mp_proc p s)
         else if mem s p = 2 then loop (p + 8) e ismp (s\<lparr>ioapicid := mem s (p + 1)\<rparr>)
         else if mem s p = 1 \<or> mem s p = 3 \<or> mem s p = 4 then loop (p + 8) e ismp s
         else loop p e False s)
      else Some (ismp, s)) = Some y"
  show "known_entries (mem s) e p \<and> fst y = ismp \<and> mem (snd y) = mem s \<and> ncpu s \<le> ncpu (snd y) \<and>
    (ncpu s \<le> NCPU \<longrightarrow> ncpu (snd y) \<le> NCPU)"
  proof (cases "p < e")
    case True
    consider (cpu) "mem s p = 0" | (ioapic) "mem s p = 2" | (skip) "mem s p \<in> {1, 3, 4}"
      | (unknown) "mem s p \<notin> {0, 1, 2, 3, 4}" by auto
    then show ?thesis
    proof cases
      case cpu
      then show ?thesis
        using IH [of "p + 20" e ismp "mp_proc p s" y] y True mp_proc_ncpu [of s p]
        by (auto intro: known_entries.processor)
    next
      case ioapic
      then show ?thesis
        using IH [of "p + 8" e ismp "s\<lparr>ioapicid := mem s (p + 1)\<rparr>" y] y True
        by (auto intro: known_entries.other)
    next
      case skip
      then show ?thesis
        using IH [of "p + 8" e ismp s y] y True by (auto intro: known_entries.other)
    next
      case unknown
      then have "known_entries (mem s) e p" using IH [of p e False s y] y True by auto
      then show ?thesis using unknown True by (auto elim: known_entriesE)
    qed
  next
    case False
    then show ?thesis using y by (auto intro: known_entries.past_end)
  qed
qed

text \<open>
  C17: Once the firmware's table is found, \<open>mpinit\<close> comes back exactly when every entry that it
  walks over is of a kind it knows; it then never panics, finds at most \<open>NCPU\<close> CPUs and leaves memory as it
  was. On any other table it runs forever: the flag \<open>ismp\<close> that its last panic tests is never seen.
\<close>

theorem mpinit_returns_iff:
  assumes "mpconfig (mem s) = Some (mp, conf)" and "ncpu s \<le> NCPU"
  shows "(mpinit s \<noteq> None \<longleftrightarrow>
      known_entries (mem s) (conf + load16 (mem s) (conf + 4)) (conf + 44)) \<and>
    (\<forall>r. mpinit s = Some r \<longrightarrow> (\<exists>t. r = Inr t \<and> ncpu s \<le> ncpu t \<and> ncpu t \<le> NCPU \<and> mem t = mem s))"
proof -
  let ?s = "s\<lparr>lapic_addr := load32 (mem s) (conf + 36)\<rparr>"
  let ?loop = "mp_loop (conf + 44) (conf + load16 (mem s) (conf + 4)) True ?s"
  have ends: "known_entries (mem s) (conf + load16 (mem s) (conf + 4)) (conf + 44) \<Longrightarrow> ?loop \<noteq> None"
    by (rule mp_loop_ends) simp_all
  show ?thesis
  proof (cases ?loop)
    case None
    then show ?thesis using ends assms(1) by (auto simp: mpinit_def)
  next
    case (Some y)
    then have "fst y" using mp_loop_result [OF Some] by simp
    then obtain t where y: "y = (True, t)" by (cases y) auto
    show ?thesis
      using mp_loop_result [OF Some] Some assms by (auto simp: mpinit_def y)
  qed
qed

text \<open>A machine whose table has one entry, of the given kind.\<close>

definition one_entry :: "uchar \<Rightarrow> mem" where
  "one_entry k a =
     (if a = P2V 0x40F then 0x10
      else if P2V 0x10000 \<le> a \<and> a < P2V 0x10010
      then [95, 77, 80, 95, 0, 0, 2, 0, 1, 4, 158, 0, 0, 0, 0, 0] ! unat (a - P2V 0x10000)
      else if P2V 0x20000 \<le> a \<and> a < P2V 0x20008
      then [80, 67, 77, 80, 52, 0, 4, 152] ! unat (a - P2V 0x20000)
      else if a = P2V 0x2002C then k
      else if a = P2V 0x2002D then - k
      else 0)"

definition mp_boot :: "uchar \<Rightarrow> mpsys" where
  "mp_boot k = bcache.extend (boot_bcache\<lparr>mem := one_entry k, ncpu := 0\<rparr>)
     \<lparr>lapic_addr = 0, imcr = (\<lambda>_. 0)\<rparr>"

lemma mp_boot_simps [simp]: "mem (mp_boot k) = one_entry k" "ncpu (mp_boot k) = 0"
  by (simp_all add: mp_boot_def bcache.defs)

lemma upt_first: "0 < n \<Longrightarrow> [0..<n] = 0 # [1..<n]"
  by (simp add: upt_rec)

lemma one_entry_config: "mpconfig (one_entry k) = Some (P2V 0x10000, P2V 0x20000)"
proof -
  let ?m = "one_entry k"
  have "bytes_at ?m (P2V 0x10000) 4 = [95, 77, 80, 95]" "mp_sum ?m (P2V 0x10000) 16 = 0"
    by (simp_all add: bytes_at_def mp_sum_def one_entry_def P2V_def upt_rec)
  then have "mpsearch1 ?m 0x10000 1024 = Some (P2V 0x10000)"
    by (simp add: mpsearch1_def upt_first)
  moreover have "?m (P2V 0x400 + 0x0F) = 0x10" "?m (P2V 0x400 + 0x0E) = 0"
    by (simp_all add: one_entry_def P2V_def)
  ultimately have "mpsearch ?m = Some (P2V 0x10000)"
    by (simp add: mpsearch_def)
  moreover have "load32 ?m (P2V 0x10000 + 4) = 0x20000" "load16 ?m (P2V 0x20000 + 4) = 52"
    "bytes_at ?m (P2V 0x20000) 4 = [80, 67, 77, 80]" "?m (P2V 0x20000 + 6) = 4"
    by (simp_all add: load32_def load16_def bytes_at_def one_entry_def P2V_def upt_rec)
  moreover have "mp_sum ?m (P2V 0x20000) 52 = 0"
    by (simp add: bytes_at_def mp_sum_def one_entry_def P2V_def upt_rec)
  ultimately show ?thesis by (simp add: mpconfig_def)
qed

text \<open>A table with an interrupt controller is accepted; with an entry of the kind 9 the kernel hangs.\<close>

theorem mpinit_returns_iff_witness: "mpinit (mp_boot 2) \<noteq> None \<and> mpinit (mp_boot 9) = None"
proof -
  let ?p = "P2V 0x20000 + 44" and ?e = "P2V 0x20000 + 52"
  have len: "load16 (one_entry k) (P2V 0x20000 + 4) = 52" and at: "one_entry k ?p = k" for k
    by (simp_all add: load16_def one_entry_def P2V_def)
  have p: "?p < ?e" "\<not> ?p + 8 < ?e" by (simp_all add: P2V_def)
  have "known_entries (one_entry 2) ?e ?p"
    using p at [of 2] by (intro known_entries.other [OF _ _ known_entries.past_end]) simp_all
  moreover have "\<not> known_entries (one_entry 9) ?e ?p"
    using p at [of 9] by (auto elim: known_entriesE)
  moreover have "mpinit (mp_boot k) \<noteq> None \<longleftrightarrow> known_entries (one_entry k) ?e ?p" for k
    using mpinit_returns_iff [of "mp_boot k" "P2V 0x10000" "P2V 0x20000"] one_entry_config [of k] len [of k]
    by simp
  ultimately show ?thesis by blast
qed

end
