(* ===== verification/User.thy ===== *)
theory User
  imports Console
begin

text \<open>
  What user programs are written over: the system calls they read and write with, the C library of
  \<open>ulib.c\<close> and the formatted output of \<open>printf.c\<close>. The world of a program is what successive reads
  of each open descriptor deliver, the files it can open, the descriptors that accept output and
  what has been written. A string is the list of the bytes before its NUL. Routines that write
  through pointers (\<open>strcpy\<close>, \<open>memset\<close>, \<open>memmove\<close>) are over the byte memory of \<open>Cstring\<close>.
\<close>

section \<open>System calls\<close>

text \<open>
  A delivery is the data of one read, or \<^term>\<open>None\<close> for an error; an empty list of deliveries is
  the end of the file.
\<close>

type_synonym delivery = "uchar list option"

record uworld =
  u_fd :: "nat \<Rightarrow> delivery list option"
  u_files :: "uchar list \<Rightarrow> delivery list option"
  u_sink :: "nat \<Rightarrow> bool"
  u_out :: "(nat \<times> uchar list) list"

definition u_read :: "nat \<Rightarrow> nat \<Rightarrow> uworld \<Rightarrow> int \<times> uchar list \<times> uworld" where
  "u_read fd n w =
     (case u_fd w fd of
        None \<Rightarrow> (-1, [], w)
      | Some [] \<Rightarrow> (0, [], w)
      | Some (None # ds) \<Rightarrow> (-1, [], w\<lparr>u_fd := (u_fd w)(fd \<mapsto> ds)\<rparr>)
      | Some (Some bs # ds) \<Rightarrow>
          (int (min n (length bs)), take n bs,
           w\<lparr>u_fd := (u_fd w)(fd \<mapsto> if length bs \<le> n then ds else Some (drop n bs) # ds)\<rparr>))"

definition u_write :: "nat \<Rightarrow> uchar list \<Rightarrow> uworld \<Rightarrow> int \<times> uworld" where
  "u_write fd bs w =
     (if u_sink w fd then (int (length bs), w\<lparr>u_out := u_out w @ [(fd, bs)]\<rparr>) else (-1, w))"

definition u_open :: "uchar list \<Rightarrow> uworld \<Rightarrow> int \<times> uworld" where
  "u_open path w =
     (case u_files w path of
        None \<Rightarrow> (-1, w)
      | Some ds \<Rightarrow>
          (case find (\<lambda>fd. u_fd w fd = None) [0..<16] of
             None \<Rightarrow> (-1, w)
           | Some fd \<Rightarrow> (int fd, w\<lparr>u_fd := (u_fd w)(fd \<mapsto> ds)\<rparr>)))"

definition u_close :: "nat \<Rightarrow> uworld \<Rightarrow> uworld" where
  "u_close fd w = w\<lparr>u_fd := (u_fd w)(fd := None)\<rparr>"

text \<open>The bytes that were written to a descriptor, in order.\<close>

definition written :: "nat \<Rightarrow> uworld \<Rightarrow> uchar list" where
  "written fd w = concat (map snd (filter (\<lambda>x. fst x = fd) (u_out w)))"

text \<open>How much a descriptor can still deliver: it decreases with every read that returns data.\<close>

definition pending :: "nat \<Rightarrow> uworld \<Rightarrow> nat" where
  "pending fd w =
     (case u_fd w fd of None \<Rightarrow> 0
      | Some ds \<Rightarrow> sum_list (map (\<lambda>d. case d of None \<Rightarrow> 1 | Some bs \<Rightarrow> Suc (length bs)) ds))"

lemma u_read_pending: "u_read fd n w = (k, bs, w') \<Longrightarrow> 0 < k \<Longrightarrow> pending fd w' < pending fd w"
  by (auto simp: u_read_def pending_def split: option.splits list.splits if_splits)

lemma u_read_frame:
  "u_read fd n w = (k, bs, w') \<Longrightarrow>
   u_out w' = u_out w \<and> u_sink w' = u_sink w \<and> u_files w' = u_files w"
  by (auto simp: u_read_def split: option.splits list.splits)

lemma u_read_length: "u_read fd n w = (k, bs, w') \<Longrightarrow> 0 \<le> k \<Longrightarrow> k = int (length bs) \<and> length bs \<le> n"
  by (auto simp: u_read_def split: option.splits list.splits)

section \<open>Programs\<close>

text \<open>A step of a program returns, ends the program, or leaves what C defines.\<close>

datatype 'a step = Ret 'a uworld | Exited uworld | Stuck string

fun andthen :: "'a step \<Rightarrow> ('a \<Rightarrow> uworld \<Rightarrow> 'b step) \<Rightarrow> 'b step" where
  "andthen (Ret x w) f = f x w"
| "andthen (Exited w) f = Exited w"
| "andthen (Stuck e) f = Stuck e"

section \<open>\<open>printf.c\<close>\<close>

definition putc :: "nat \<Rightarrow> uchar \<Rightarrow> uworld \<Rightarrow> uworld" where
  "putc fd c w = snd (u_write fd [c] w)"

definition puts :: "nat \<Rightarrow> uchar list \<Rightarrow> uworld \<Rightarrow> uworld" where
  "puts fd cs w = fold (putc fd) cs w"

definition u_digit :: "nat \<Rightarrow> uchar" where
  "u_digit d = (if d < 10 then 48 + of_nat d else 65 + of_nat (d - 10))"

definition u_printint :: "nat \<Rightarrow> uint \<Rightarrow> nat \<Rightarrow> bool \<Rightarrow> uworld \<Rightarrow> uworld" where
  "u_printint fd xx base sg w =
     (let neg = (sg \<and> sint xx < 0);
          x = (if neg then - xx else xx);
          buf = map u_digit (print_digits base (unat x)) @ (if neg then [45] else [])
      in puts fd (rev buf) w)"

fun printf_loop :: "nat \<Rightarrow> bool \<Rightarrow> uchar list \<Rightarrow> carg list \<Rightarrow> uworld \<Rightarrow> unit step" where
  "printf_loop fd state [] ap w = Ret () w"
| "printf_loop fd False (c # fmt) ap w =
     (if c = 37 then printf_loop fd True fmt ap w else printf_loop fd False fmt ap (putc fd c w))"
| "printf_loop fd True (c # fmt) ap w =
     (if c = 100 then
        (case ap of Aint x # ap \<Rightarrow> printf_loop fd False fmt ap (u_printint fd x 10 True w)
         | _ \<Rightarrow> Stuck ''printf: argument'')
      else if c = 120 \<or> c = 112 then
        (case ap of Aint x # ap \<Rightarrow> printf_loop fd False fmt ap (u_printint fd x 16 False w)
         | _ \<Rightarrow> Stuck ''printf: argument'')
      else if c = 115 then
        (case ap of
           Astr p # ap \<Rightarrow>
             printf_loop fd False fmt ap
               (puts fd (case p of None \<Rightarrow> str ''(null)'' | Some cs \<Rightarrow> cs) w)
         | _ \<Rightarrow> Stuck ''printf: argument'')
      else if c = 99 then
        (case ap of Aint x # ap \<Rightarrow> printf_loop fd False fmt ap (putc fd (ucast x) w)
         | _ \<Rightarrow> Stuck ''printf: argument'')
      else if c = 37 then printf_loop fd False fmt ap (putc fd c w)
      else printf_loop fd False fmt ap (putc fd c (putc fd 37 w)))"

definition printf :: "nat \<Rightarrow> string \<Rightarrow> carg list \<Rightarrow> uworld \<Rightarrow> unit step" where
  "printf fd fmt ap w = printf_loop fd False (str fmt) ap w"

text \<open>
  The loop with which \<open>cat\<close>, \<open>wc\<close> and \<open>grep\<close> run over the files they are given.
\<close>

fun each_file :: "string \<Rightarrow> (nat \<Rightarrow> uchar list \<Rightarrow> uworld \<Rightarrow> unit step) \<Rightarrow> uchar list list
    \<Rightarrow> uworld \<Rightarrow> unit step" where
  "each_file prog body [] w = Exited w"
| "each_file prog body (f # fs) w =
     (let (fd, w) = u_open f w
      in if fd < 0
         then andthen (printf 1 (prog @ '': cannot open %s'' @ [CHR 0x0A]) [Astr (Some f)] w)
                (\<lambda>_ w. Exited w)
         else andthen (body (nat fd) f w) (\<lambda>_ w. each_file prog body fs (u_close (nat fd) w)))"

section \<open>\<open>ulib.c\<close>\<close>

partial_function (option) strcpy_loop :: "uint \<Rightarrow> uint \<Rightarrow> mem \<Rightarrow> mem option" where
  "strcpy_loop s t m =
     (if m t \<noteq> 0 then strcpy_loop (s + 1) (t + 1) (m(s := m t)) else Some (m(s := m t)))"

definition strcpy :: "uint \<Rightarrow> uint \<Rightarrow> mem \<Rightarrow> mem option" where
  "strcpy s t m = strcpy_loop s t m"

fun strcmp :: "uchar list \<Rightarrow> uchar list \<Rightarrow> int" where
  "strcmp [] q = 0 - (case q of [] \<Rightarrow> 0 | d # _ \<Rightarrow> uint d)"
| "strcmp (c # p) q =
     (case q of
        [] \<Rightarrow> uint c - 0
      | d # q \<Rightarrow> if c = d then strcmp p q else uint c - uint d)"

fun ulib_strlen :: "uchar list \<Rightarrow> nat" where
  "ulib_strlen [] = 0"
| "ulib_strlen (c # s) = Suc (ulib_strlen s)"

definition ulib_memset :: "uint \<Rightarrow> uint \<Rightarrow> uint \<Rightarrow> mem \<Rightarrow> mem" where
  "ulib_memset dst c n m = stosb dst c (unat n) m"

fun strchr :: "uchar list \<Rightarrow> uchar \<Rightarrow> nat option" where
  "strchr [] c = None"
| "strchr (x # s) c = (if x = c then Some 0 else map_option Suc (strchr s c))"

text \<open>The bytes that \<open>gets\<close> stores before the final NUL.\<close>

fun gets_loop :: "nat \<Rightarrow> uworld \<Rightarrow> uchar list \<times> uworld" where
  "gets_loop 0 w = ([], w)"
| "gets_loop (Suc k) w =
     (let (cc, bs, w) = u_read 0 1 w
      in if cc < 1 then ([], w)
         else let c = hd bs
              in if c = 10 \<or> c = 13 then ([c], w)
                 else let (cs, w) = gets_loop k w in (c # cs, w))"

definition gets :: "int \<Rightarrow> uworld \<Rightarrow> uchar list \<times> uworld" where
  "gets mx w = gets_loop (nat (mx - 1)) w"

fun atoi_loop :: "uint \<Rightarrow> uchar list \<Rightarrow> uint" where
  "atoi_loop n [] = n"
| "atoi_loop n (c # s) = (if 48 \<le> c \<and> c \<le> 57 then atoi_loop (n * 10 + ucast c - 48) s else n)"

definition atoi :: "uchar list \<Rightarrow> uint" where
  "atoi s = atoi_loop 0 s"

definition ulib_memmove :: "uint \<Rightarrow> uint \<Rightarrow> int \<Rightarrow> mem \<Rightarrow> mem" where
  "ulib_memmove vdst vsrc n m = copy_up (nat n) vdst vsrc m"

section \<open>Facts about the library\<close>

lemma u_write_sink [simp]: "u_sink (snd (u_write fd bs w)) = u_sink w"
  by (simp add: u_write_def)

lemma putc_sink [simp]: "u_sink (putc fd c w) = u_sink w"
  by (simp add: putc_def)

lemma puts_sink [simp]: "u_sink (puts fd cs w) = u_sink w"
  unfolding puts_def by (induction cs arbitrary: w) simp_all

lemma written_putc: "u_sink w fd \<Longrightarrow> written fd (putc fd c w) = written fd w @ [c]"
  by (simp add: written_def putc_def u_write_def)

lemma written_puts: "u_sink w fd \<Longrightarrow> written fd (puts fd cs w) = written fd w @ cs"
  unfolding puts_def by (induction cs arbitrary: w) (simp_all add: written_putc)

lemma printf_plain:
  "37 \<notin> set fmt \<Longrightarrow> printf_loop fd False (fmt @ fs) ap w = printf_loop fd False fs ap (puts fd fmt w)"
  by (induction fmt arbitrary: w) (auto simp: puts_def)

lemma strchr_Some:
  "strchr s c = Some i \<longleftrightarrow> i < length s \<and> s ! i = c \<and> c \<notin> set (take i s)"
proof (induction s arbitrary: i)
  case (Cons x s)
  then show ?case by (cases i) auto
qed simp

lemma strchr_None: "strchr s c = None \<longleftrightarrow> c \<notin> set s"
  by (induction s) auto

lemma strcmp_eq_0: "0 \<notin> set p \<Longrightarrow> 0 \<notin> set q \<Longrightarrow> strcmp p q = 0 \<longleftrightarrow> p = q"
  by (induction p q rule: strcmp.induct) (auto split: list.splits simp: uint_0_iff)

text \<open>
  The library's \<open>memmove\<close> copies upwards whatever the overlap, so it agrees with the kernel's
  unless the destination lies inside the source.
\<close>

lemma ulib_memmove_eq:
  assumes "\<not> (src < dst \<and> src + n > dst)" and "unat n < 2 ^ 31"
  shows "ulib_memmove dst src (sint n) m = memmove dst src n m"
proof -
  have "int (unat n) < int (2 ^ 31)" using assms(2) by (simp only: of_nat_less_iff)
  then have "sint n = int (unat n)"
    by (simp add: sint_uint signed_take_bit_int_eq_self_iff order.trans [OF _ unsigned_greater_eq])
  with assms(1) show ?thesis by (auto simp: ulib_memmove_def memmove_def)
qed

lemma ulib_memmove_overlap:
  "bytes_at (memmove 1 0 2 (\<lambda>a. ucast a)) 1 2 = [0, 1] \<and>
   bytes_at (ulib_memmove 1 0 2 (\<lambda>a. ucast a)) 1 2 = [0, 0]"
proof -
  have "copy_up 2 d s m = copy_up (Suc (Suc 0)) d s m"
    "copy_down 2 d s m = copy_down (Suc (Suc 0)) d s m" for d s m
    by (simp_all only: numeral_2_eq_2)
  moreover have "[0..<2] = [0, Suc 0]" by (simp add: upt_rec)
  ultimately show ?thesis by (simp add: ulib_memmove_def memmove_def bytes_at_def)
qed

text \<open>\<open>atoi\<close> reads back what \<open>printf\<close> writes for an unsigned decimal.\<close>

lemma atoi_digits:
  assumes "\<forall>d \<in> set ds. d < 10"
  shows "atoi_loop n (map u_digit (rev ds)) =
         n * 10 ^ length ds + of_nat (digits_value 10 ds)"
proof -
  have step: "atoi_loop n (map u_digit (ds @ [d])) = atoi_loop n (map u_digit ds) * 10 + of_nat d"
    if "\<forall>d \<in> set (ds @ [d]). d < 10" for n ds and d :: nat
  proof -
    have dig: "48 \<le> u_digit d \<and> u_digit d \<le> 57 \<and> ucast (u_digit d) = (48 + of_nat d :: uint)"
      if "d < 10" for d
    proof -
      have "d \<in> set [0..<10]" using that by simp
      then show ?thesis
        unfolding u_digit_def by (auto simp: upt_rec)
    qed
    show ?thesis
      using that by (induction ds arbitrary: n) (simp_all add: dig)
  qed
  show ?thesis
    using assms
  proof (induction ds)
    case (Cons d ds)
    then show ?case
      using step [of "rev ds" d n] by (simp add: digits_value_def algebra_simps)
  qed (simp add: digits_value_def)
qed

lemma atoi_printint:
  "atoi (map u_digit (rev (print_digits 10 (unat x)))) = (x :: uint)"
proof -
  have "\<forall>d \<in> set (print_digits 10 (unat x)). d < 10"
    using print_digits_less [of 10] by simp
  then show ?thesis
    using print_digits_value [of 10 "unat x"] by (simp add: atoi_def atoi_digits)
qed

end
