(* ===== verification/Grep.thy ===== *)
theory Grep
  imports User
begin

text \<open>
  The user program \<open>grep.c\<close>: the regular-expression matcher (\<open>match\<close>, \<open>matchhere\<close>,
  \<open>matchstar\<close>) and the loop that cuts the input into lines. A NUL-terminated string is the list of
  the bytes before its terminator, so that the test \<open>*text == '\0'\<close> is the test for the empty list.
  The matcher is proved equal to the language that the pattern denotes; the line loop is proved to
  print the matching lines when every read delivers the end of a line, and to lose text otherwise.
\<close>

section \<open>The matcher\<close>

function matchhere :: "uchar list \<Rightarrow> uchar list \<Rightarrow> bool"
  and matchstar :: "uchar \<Rightarrow> uchar list \<Rightarrow> uchar list \<Rightarrow> bool" where
  "matchhere re text =
     (case re of
        [] \<Rightarrow> True
      | c # re1 \<Rightarrow>
          if re1 \<noteq> [] \<and> hd re1 = 42 then matchstar c (tl re1) text
          else if c = 36 \<and> re1 = [] then text = []
          else if text \<noteq> [] \<and> (c = 46 \<or> c = hd text) then matchhere re1 (tl text)
          else False)"
| "matchstar c re text =
     (if matchhere re text then True
      else if text \<noteq> [] \<and> (hd text = c \<or> c = 46) then matchstar c re (tl text)
      else False)"
  by pat_completeness auto
termination
  by (relation "inv_image (less_than <*lex*> less_than <*lex*> less_than)
       (\<lambda>x. case x of Inl (re, text) \<Rightarrow> (length re, length text, 0)
                    | Inr (c, re, text) \<Rightarrow> (length re, length text, 1))") auto

fun match_anywhere :: "uchar list \<Rightarrow> uchar list \<Rightarrow> bool" where
  "match_anywhere re [] = matchhere re []"
| "match_anywhere re (t # xs) = (if matchhere re (t # xs) then True else match_anywhere re xs)"

definition match :: "uchar list \<Rightarrow> uchar list \<Rightarrow> bool" where
  "match re text =
     (if re \<noteq> [] \<and> hd re = 94 then matchhere (tl re) text else match_anywhere re text)"

declare matchhere.simps [simp del] matchstar.simps [simp del]

section \<open>The language of a pattern\<close>

text \<open>
  A pattern is a sequence of items, each a character (\<open>.\<close> stands for all of them) that may be
  starred, between the anchors \<open>^\<close> and \<open>$\<close>.
\<close>

datatype item = Single uchar | Star uchar

fun items :: "uchar list \<Rightarrow> item list" where
  "items [] = []"
| "items [c] = (if c = 36 then [] else [Single c])"
| "items (c # d # re) = (if d = 42 then Star c # items re else Single c # items (d # re))"

fun at_end :: "uchar list \<Rightarrow> bool" where
  "at_end [] = False"
| "at_end [c] = (c = 36)"
| "at_end (c # d # re) = (if d = 42 then at_end re else at_end (d # re))"

definition stands_for :: "uchar \<Rightarrow> uchar \<Rightarrow> bool" where
  "stands_for c x \<longleftrightarrow> c = 46 \<or> c = x"

fun item_lang :: "item \<Rightarrow> uchar list set" where
  "item_lang (Single c) = {[x] | x. stands_for c x}"
| "item_lang (Star c) = {xs. \<forall>x \<in> set xs. stands_for c x}"

fun items_lang :: "item list \<Rightarrow> uchar list set" where
  "items_lang [] = {[]}"
| "items_lang (i # is) = {u @ v | u v. u \<in> item_lang i \<and> v \<in> items_lang is}"

definition denotes :: "uchar list \<Rightarrow> uchar list \<Rightarrow> bool" where
  "denotes re text \<longleftrightarrow>
     (let from_start = (re \<noteq> [] \<and> hd re = 94); body = (if from_start then tl re else re)
      in \<exists>before u after. text = before @ u @ after \<and> u \<in> items_lang (items body)
           \<and> (from_start \<longrightarrow> before = []) \<and> (at_end body \<longrightarrow> after = []))"

text \<open>A prefix of the text is in the language of the items, and the end anchor holds.\<close>

definition fits :: "uchar list \<Rightarrow> uchar list \<Rightarrow> bool" where
  "fits re text \<longleftrightarrow>
     (\<exists>u after. text = u @ after \<and> u \<in> items_lang (items re) \<and> (at_end re \<longrightarrow> after = []))"

lemma fits_Nil: "fits [] text"
  by (simp add: fits_def)

lemma fits_end: "fits [36] text \<longleftrightarrow> text = []"
  by (simp add: fits_def)

lemma fits_single:
  assumes "re = [] \<or> hd re \<noteq> 42" and "re \<noteq> [] \<or> c \<noteq> 36"
  shows "fits (c # re) text \<longleftrightarrow> (\<exists>t xs. text = t # xs \<and> stands_for c t \<and> fits re xs)"
proof -
  have i: "items (c # re) = Single c # items re" "at_end (c # re) = at_end re"
    using assms by (cases re; simp)+
  show ?thesis
  proof
    assume "fits (c # re) text"
    then obtain u after where u: "text = u @ after" "u \<in> items_lang (Single c # items re)"
      "at_end re \<longrightarrow> after = []"
      unfolding fits_def i by blast
    then obtain x v where "u = x # v" "stands_for c x" "v \<in> items_lang (items re)" by auto
    then show "\<exists>t xs. text = t # xs \<and> stands_for c t \<and> fits re xs"
      unfolding fits_def using u by auto
  next
    assume "\<exists>t xs. text = t # xs \<and> stands_for c t \<and> fits re xs"
    then obtain t u after where u: "text = (t # u) @ after" "stands_for c t"
      "u \<in> items_lang (items re)" "at_end re \<longrightarrow> after = []"
      unfolding fits_def by auto
    have "[t] @ u \<in> items_lang (Single c # items re)"
      using u by (simp del: append_Cons) blast
    then show "fits (c # re) text"
      unfolding fits_def i using u
      by (intro exI [of _ "[t] @ u"] exI [of _ after] conjI) simp_all
  qed
qed

lemma fits_star:
  "fits (c # 42 # re) text \<longleftrightarrow>
     (\<exists>us rest. text = us @ rest \<and> (\<forall>x \<in> set us. stands_for c x) \<and> fits re rest)"
  (is "?L \<longleftrightarrow> ?R")
proof
  show ?R if ?L
    using that by (simp add: fits_def) (metis append.assoc)
  show ?L if ?R
    using that by (simp add: fits_def) (metis append.assoc)
qed

lemma fits_star_step:
  "fits (c # 42 # re) text \<longleftrightarrow>
     fits re text \<or> (\<exists>t xs. text = t # xs \<and> stands_for c t \<and> fits (c # 42 # re) xs)"
  (is "?L \<longleftrightarrow> ?R")
proof
  assume ?L
  then obtain us rest where "text = us @ rest" "\<forall>x \<in> set us. stands_for c x" "fits re rest"
    unfolding fits_star by blast
  then show ?R
    unfolding fits_star by (cases us) auto
next
  assume ?R
  then show ?L
    unfolding fits_star by (metis append_Cons append_Nil empty_iff list.set(1) set_ConsD)
qed

lemma matchhere_fits: "matchhere re text = fits re text"
  and matchstar_fits: "matchstar c re text = fits (c # 42 # re) text"
proof (induction re "text" and c re "text" rule: matchhere_matchstar.induct)
  case (1 re s)
  show ?case
  proof (cases re)
    case Nil
    then show ?thesis by (simp add: matchhere.simps fits_Nil)
  next
    case (Cons c re1)
    consider (star) "re1 \<noteq> [] \<and> hd re1 = 42" | (anchor) "c = 36 \<and> re1 = []"
      | (single) "\<not> (re1 \<noteq> [] \<and> hd re1 = 42)" "\<not> (c = 36 \<and> re1 = [])"
      by blast
    then show ?thesis
    proof cases
      case star
      then have "42 # tl re1 = re1" by (cases re1) auto
      then show ?thesis
        using 1(1) [OF Cons star] star by (simp add: Cons matchhere.simps [of "c # re1"])
    next
      case anchor
      then show ?thesis by (simp add: Cons matchhere.simps [of "[36]"] fits_end)
    next
      case single
      have "fits (c # re1) s \<longleftrightarrow> (\<exists>t xs. s = t # xs \<and> stands_for c t \<and> fits re1 xs)"
        using single by (intro fits_single) auto
      moreover have "matchhere re s \<longleftrightarrow>
          s \<noteq> [] \<and> (c = 46 \<or> c = hd s) \<and> matchhere re1 (tl s)"
        using single by (auto simp: Cons matchhere.simps [of "c # re1"])
      ultimately show ?thesis
        using 1(2) [OF Cons single] unfolding Cons by (cases s) (auto simp: stands_for_def)
    qed
  qed
next
  case (2 c re s)
  have "matchstar c re s \<longleftrightarrow>
      matchhere re s \<or> s \<noteq> [] \<and> (hd s = c \<or> c = 46) \<and> matchstar c re (tl s)"
    by (simp add: matchstar.simps [of c re s])
  also have "\<dots> \<longleftrightarrow> fits re s \<or> (\<exists>t xs. s = t # xs \<and> stands_for c t \<and> fits (c # 42 # re) xs)"
    using 2 by (cases s) (auto simp: stands_for_def)
  finally show ?case unfolding fits_star_step [of c re s] .
qed

lemma match_anywhere_iff:
  "match_anywhere re text \<longleftrightarrow> (\<exists>before rest. text = before @ rest \<and> fits re rest)"
proof (induction "text")
  case Nil
  then show ?case by (simp add: matchhere_fits)
next
  case (Cons t xs)
  then show ?case
    by (simp add: matchhere_fits) (metis Cons_eq_append_conv append_Cons append_Nil)
qed

lemma match_iff_denotes: "match re text \<longleftrightarrow> denotes re text"
proof (cases "re \<noteq> [] \<and> hd re = 94")
  case True
  then show ?thesis
    unfolding match_def denotes_def by (simp add: matchhere_fits fits_def Let_def)
next
  case False
  then have "match re text \<longleftrightarrow> (\<exists>before rest. text = before @ rest \<and> fits re rest)"
    by (auto simp: match_def match_anywhere_iff)
  then show ?thesis
    using False unfolding denotes_def Let_def fits_def by auto
qed

text \<open>
  C8: The matcher of grep terminates and accepts exactly the texts of which some part, tied to the
  start by \<open>^\<close> and to the end by \<open>$\<close>, is in the language that the pattern's characters, dots and
  stars denote: its backtracking loses no match.
\<close>

theorem match_denotes: "match re text \<longleftrightarrow> denotes re text"
  by (rule match_iff_denotes)

section \<open>The line loop\<close>

text \<open>
  The inner loop: \<open>p\<close> is what is left of the buffer up to its NUL at \<open>buf[m]\<close>; \<open>strchr\<close> stops at the
  first NUL, which may be one of the data.
\<close>

function grep_lines :: "uchar list \<Rightarrow> uchar list \<Rightarrow> uworld \<Rightarrow> uchar list \<times> uworld" where
  "grep_lines pattern p w =
     (case strchr (takeWhile (\<lambda>c. c \<noteq> 0) p) 10 of
        None \<Rightarrow> (p, w)
      | Some q \<Rightarrow>
          grep_lines pattern (drop (Suc q) p)
            (if match pattern (take q p) then snd (u_write 1 (take (Suc q) p) w) else w))"
  by pat_completeness auto
termination
proof (relation "measure (\<lambda>(pattern, p, w). length p)")
  fix pattern :: "uchar list" and p w q
  assume "strchr (takeWhile (\<lambda>c. c \<noteq> 0) p) 10 = Some q"
  then have "q < length p"
    using length_takeWhile_le [of "\<lambda>c. c \<noteq> 0" p] by (auto simp: strchr_Some)
  then show "((pattern, drop (Suc q) p,
      if match pattern (take q p) then snd (u_write 1 (take (Suc q) p) w) else w), pattern, p, w)
    \<in> measure (\<lambda>(pattern, p, w). length p)"
    by simp
qed simp

declare grep_lines.simps [simp del]

lemma grep_lines_fd: "u_fd (snd (grep_lines pattern p w)) = u_fd w"
proof (induction pattern p w rule: grep_lines.induct)
  case (1 pattern p w)
  then show ?case
    by (subst grep_lines.simps) (auto simp: u_write_def split: option.splits)
qed

text \<open>The outer loop: the first \<open>m\<close> bytes of the 1024-byte buffer are the list.\<close>

function grep_loop :: "uchar list \<Rightarrow> nat \<Rightarrow> uchar list \<Rightarrow> uworld \<Rightarrow> uworld" where
  "grep_loop pattern fd buf w =
     (let (n, bs, w) = u_read fd (1024 - length buf - 1) w
      in if n \<le> 0 then w
         else let b = buf @ bs; (p, w) = grep_lines pattern b w
              in grep_loop pattern fd (if length p = length b then [] else p) w)"
  by pat_completeness auto
termination
proof (relation "measure (\<lambda>(pattern, fd, buf, w). pending fd w)")
  fix pattern :: "uchar list" and fd :: nat and buf :: "uchar list" and w :: uworld
    and n :: int and bs b p w1 w2 x y z
  assume r: "x = u_read fd (1024 - length buf - 1) w" "(n, y) = x" "(bs, w1) = y" "\<not> n \<le> 0"
    and g: "b = buf @ bs" "z = grep_lines pattern b w1" "(p, w2) = z"
  have "pending fd w1 < pending fd w"
    using u_read_pending [of fd "1024 - length buf - 1" w n bs w1] r by simp
  moreover have "u_fd w2 = u_fd w1" using grep_lines_fd [of pattern b w1] g by (metis snd_conv)
  ultimately show "((pattern, fd, if length p = length b then [] else p, w2), pattern, fd, buf, w)
      \<in> measure (\<lambda>(pattern, fd, buf, w). pending fd w)"
    by (simp add: pending_def)
qed simp

declare grep_loop.simps [simp del]

definition grep :: "uchar list \<Rightarrow> nat \<Rightarrow> uworld \<Rightarrow> uworld" where
  "grep pattern fd w = grep_loop pattern fd [] w"

definition grep_main :: "uchar list list \<Rightarrow> uworld \<Rightarrow> unit step" where
  "grep_main argv w =
     (if length argv \<le> 1
      then andthen (printf 2 (''usage: grep pattern [file ...]'' @ [CHR 0x0A]) [] w)
             (\<lambda>_ w. Exited w)
      else let pattern = argv ! 1
           in if length argv \<le> 2 then Exited (grep pattern 0 w)
              else each_file ''grep'' (\<lambda>fd _ w. Ret () (grep pattern fd w)) (drop 2 argv) w)"

section \<open>What grep prints\<close>

text \<open>The complete lines of some data, after the bytes of a line begun before, and the line it leaves.\<close>

fun split_lines :: "uchar list \<Rightarrow> uchar list \<Rightarrow> uchar list list \<times> uchar list" where
  "split_lines acc [] = ([], acc)"
| "split_lines acc (c # cs) =
     (if c = 10 then let (ls, r) = split_lines [] cs in (acc # ls, r) else split_lines (acc @ [c]) cs)"

definition selected :: "uchar list \<Rightarrow> uchar list list \<Rightarrow> uchar list" where
  "selected pattern ls = concat (map (\<lambda>l. l @ [10]) (filter (denotes pattern) ls))"

lemma selected_append: "selected pattern (ls @ ms) = selected pattern ls @ selected pattern ms"
  by (simp add: selected_def)

lemma split_lines_append:
  "split_lines acc (a @ b) =
     (let (ls, r) = split_lines acc a; (ms, t) = split_lines r b in (ls @ ms, t))"
  by (induction acc a rule: split_lines.induct) (auto split: prod.splits)

lemma split_lines_none: "10 \<notin> set cs \<Longrightarrow> split_lines acc cs = ([], acc @ cs)"
  by (induction acc cs rule: split_lines.induct) auto

lemma split_lines_rest:
  "10 \<notin> set acc \<Longrightarrow> 10 \<notin> set (snd (split_lines acc cs))"
  by (induction acc cs rule: split_lines.induct) (auto split: prod.splits)

lemma split_lines_short:
  "10 \<in> set cs \<Longrightarrow> length (snd (split_lines acc cs)) < length cs"
proof (induction acc cs rule: split_lines.induct)
  case (2 acc c cs)
  have "length (snd (split_lines [] cs)) < Suc (length cs)" if "10 \<notin> set cs"
    using that by (simp add: split_lines_none)
  with 2 show ?case by (cases "10 \<in> set cs") (auto split: prod.splits)
qed simp

lemma split_lines_subset: "set (snd (split_lines acc cs)) \<subseteq> set acc \<union> set cs"
  by (induction acc cs rule: split_lines.induct) (auto split: prod.splits)

lemma grep_lines_spec:
  assumes "0 \<notin> set p" and "u_sink w 1"
  shows "fst (grep_lines pattern p w) = snd (split_lines [] p) \<and>
    u_sink (snd (grep_lines pattern p w)) 1 \<and>
    written 1 (snd (grep_lines pattern p w)) = written 1 w @ selected pattern (fst (split_lines [] p))"
  using assms
proof (induction pattern p w rule: grep_lines.induct)
  case (1 pattern p w)
  have str: "takeWhile (\<lambda>c. c \<noteq> 0) p = p" using 1(2) by (auto simp: takeWhile_eq_all_conv)
  show ?case
  proof (cases "strchr p 10")
    case None
    then have "grep_lines pattern p w = (p, w)"
      by (subst grep_lines.simps) (simp only: str option.case)
    then show ?thesis
      using None 1(3) by (simp add: strchr_None split_lines_none selected_def)
  next
    case (Some q)
    let ?w = "if match pattern (take q p) then snd (u_write 1 (take (Suc q) p) w) else w"
    have q: "q < length p" "p ! q = 10" "10 \<notin> set (take q p)" using Some by (auto simp: strchr_Some)
    then have p: "p = take q p @ 10 # drop (Suc q) p" by (metis id_take_nth_drop)
    have split: "split_lines [] p =
        (take q p # fst (split_lines [] (drop (Suc q) p)), snd (split_lines [] (drop (Suc q) p)))"
      by (subst p, subst split_lines_append) (simp add: split_lines_none q split: prod.splits)
    have w: "written 1 ?w = written 1 w @ selected pattern [take q p]" "u_sink ?w 1"
      using 1(3) q
      by (auto simp: selected_def match_iff_denotes written_def u_write_def take_Suc_conv_app_nth)
    have "grep_lines pattern p w = grep_lines pattern (drop (Suc q) p) ?w"
      using Some by (subst grep_lines.simps) (simp only: str option.case)
    moreover have "0 \<notin> set (drop (Suc q) p)" using 1(2) by (meson in_set_dropD)
    ultimately show ?thesis
      using 1(1) [unfolded str, OF Some _ w(2)] w(1)
      by (simp add: split selected_def)
  qed
qed

lemma grep_loop_spec:
  assumes "u_fd w fd = Some (map Some chunks)" and "u_sink w 1"
    and "\<forall>bs \<in> set chunks. 10 \<in> set bs \<and> 0 \<notin> set bs \<and> length bs \<le> 511"
    and "10 \<notin> set buf" "0 \<notin> set buf" "length buf < 512"
  shows "written 1 (grep_loop pattern fd buf w) =
    written 1 w @ selected pattern (fst (split_lines buf (concat chunks)))"
  using assms
proof (induction chunks arbitrary: buf w)
  case Nil
  then show ?case
    by (simp add: grep_loop.simps [of pattern] u_read_def selected_def)
next
  case (Cons bs chunks)
  let ?w = "w\<lparr>u_fd := (u_fd w)(fd \<mapsto> map Some chunks)\<rparr>"
  let ?g = "grep_lines pattern (buf @ bs) ?w"
  have bs: "10 \<in> set bs" "0 \<notin> set (buf @ bs)" "length bs \<le> 511" "bs \<noteq> []"
    using Cons.prems(3,5) by auto
  have sb: "split_lines [] (buf @ bs) = split_lines buf bs"
    using Cons.prems(4) by (simp add: split_lines_append split_lines_none split: prod.splits)
  have rd: "u_read fd (1023 - length buf) w = (int (length bs), bs, ?w)"
    using Cons.prems(1,6) bs by (simp add: u_read_def)
  have g: "fst ?g = snd (split_lines buf bs)" "u_sink (snd ?g) 1"
    "written 1 (snd ?g) = written 1 w @ selected pattern (fst (split_lines buf bs))"
    using grep_lines_spec [OF bs(2), of ?w pattern] Cons.prems(2) unfolding sb
    by (simp_all add: written_def)
  have short: "length (fst ?g) < length bs"
    using split_lines_short [OF bs(1), of buf] g(1) by simp
  have "grep_loop pattern fd buf w = grep_loop pattern fd (fst ?g) (snd ?g)"
    using bs(4) short
    by (subst grep_loop.simps) (simp add: rd case_prod_beta Let_def)
  also have "written 1 \<dots> = written 1 (snd ?g) @ selected pattern (fst (split_lines (fst ?g) (concat chunks)))"
  proof (rule Cons.IH)
    show "u_fd (snd ?g) fd = Some (map Some chunks)" by (simp add: grep_lines_fd)
    show "10 \<notin> set (fst ?g)" using g(1) split_lines_rest [OF Cons.prems(4)] by simp
    show "0 \<notin> set (fst ?g)"
      using g(1) bs(2) split_lines_subset [of buf bs] by auto
  qed (use Cons.prems(3) g short bs in auto)
  finally show ?case
    unfolding g by (simp add: split_lines_append selected_append case_prod_beta)
qed


definition grep_world :: "delivery list \<Rightarrow> uworld" where
  "grep_world ds = \<lparr>u_fd = [0 \<mapsto> ds], u_files = Map.empty, u_sink = (\<lambda>fd. fd = 1), u_out = []\<rparr>"

lemma grep_world_simps [simp]:
  "u_fd (grep_world ds) 0 = Some ds" "u_sink (grep_world ds) (Suc 0)"
  "written (Suc 0) (grep_world ds) = []"
  by (simp_all add: grep_world_def written_def)


text \<open>
  C36: Text is lost when a read ends before the first newline: with nothing buffered, the bytes of
  such a read have no effect on the rest of the run, although they begin the line that the next
  read goes on with. The end of the buffer and the end of a short read are not told apart.
\<close>

theorem grep_drops_partial_line:
  assumes "u_fd w fd = Some (Some bs # ds)" and "bs \<noteq> []" "10 \<notin> set bs" "length bs \<le> 1023"
  shows "grep pattern fd w = grep pattern fd (w\<lparr>u_fd := (u_fd w)(fd \<mapsto> ds)\<rparr>)"
proof -
  let ?w = "w\<lparr>u_fd := (u_fd w)(fd \<mapsto> ds)\<rparr>"
  have rd: "u_read fd 1023 w = (int (length bs), bs, ?w)"
    using assms by (simp add: u_read_def)
  have "strchr (takeWhile (\<lambda>c. c \<noteq> 0) bs) 10 = None"
    using assms(3) by (auto simp: strchr_None dest: set_takeWhileD)
  then have "grep_lines pattern bs ?w = (bs, ?w)"
    by (subst grep_lines.simps) simp
  then show ?thesis
    using assms(2) unfolding grep_def by (subst grep_loop.simps) (simp add: rd)
qed

text \<open>The line \<open>ab\<close> is found when one read delivers it and missed when two do.\<close>

theorem grep_drops_partial_line_witness:
  "written 1 (grep [97] 0 (grep_world [Some [97], Some [98, 10]])) = [] \<and>
   written 1 (grep [97] 0 (grep_world [Some [97, 98, 10]])) = [97, 98, 10]"
proof -
  have d: "denotes [97] [97, 98]" "\<not> denotes [97] [98]"
    by (simp_all add: match_def matchhere.simps flip: match_iff_denotes)
  have "grep_world [Some [97], Some [98, 10]]
      \<lparr>u_fd := (u_fd (grep_world [Some [97], Some [98, 10]]))(0 \<mapsto> [Some [98, 10]])\<rparr> =
    grep_world [Some [98, 10]]"
    by (simp add: grep_world_def)
  then have "grep [97] 0 (grep_world [Some [97], Some [98, 10]]) = grep [97] 0 (grep_world [Some [98, 10]])"
    using grep_drops_partial_line [of "grep_world [Some [97], Some [98, 10]]" 0 "[97]" "[Some [98, 10]]" "[97]"]
    by simp
  moreover have "written 1 (grep [97] 0 (grep_world [Some [98, 10]])) = []"
    "written 1 (grep [97] 0 (grep_world [Some [97, 98, 10]])) = [97, 98, 10]"
    using grep_loop_spec [of "grep_world [Some [98, 10]]" 0 "[[98, 10]]" "[]" "[97]"]
      grep_loop_spec [of "grep_world [Some [97, 98, 10]]" 0 "[[97, 98, 10]]" "[]" "[97]"] d
    by (simp_all add: grep_def selected_def)
  ultimately show ?thesis by simp
qed

end
