(* ===== verification/Uprogs.thy ===== *)
theory Uprogs
  imports User
begin

text \<open>
  The user programs \<open>cat.c\<close> and \<open>wc.c\<close>. Both are proved independent of how reads cut the input:
  \<open>cat\<close> writes the bytes it is delivered, \<open>wc\<close> counts their newlines, words and bytes.
\<close>

section \<open>\<open>wc\<close>\<close>

text \<open>The counters \<open>l\<close>, \<open>w\<close>, \<open>c\<close> and the flag \<open>inword\<close>.\<close>

type_synonym counts = "uint \<times> uint \<times> uint \<times> bool"

definition wc_byte :: "uchar \<Rightarrow> counts \<Rightarrow> counts" where
  "wc_byte b st =
     (case st of (l, w, c, inword) \<Rightarrow>
        let c = c + 1;
            l = (if b = 10 then l + 1 else l)
        in if strchr [32, 13, 9, 10, 11] b \<noteq> None then (l, w, c, False)
           else if \<not> inword then (l, w + 1, c, True)
           else (l, w, c, inword))"

function wc_loop :: "nat \<Rightarrow> counts \<Rightarrow> uworld \<Rightarrow> int \<times> counts \<times> uworld" where
  "wc_loop fd st w =
     (let (n, buf, w) = u_read fd 512 w
      in if n > 0 then wc_loop fd (fold wc_byte buf st) w else (n, st, w))"
  by pat_completeness auto
termination
  by (relation "measure (\<lambda>(fd, st, w). pending fd w)") (auto dest: u_read_pending [OF sym])

declare wc_loop.simps [simp del]

definition wc :: "nat \<Rightarrow> uchar list \<Rightarrow> uworld \<Rightarrow> unit step" where
  "wc fd name w =
     (let (n, (l, wd, c, _), w) = wc_loop fd (0, 0, 0, False) w
      in if n < 0
         then andthen (printf 1 (''wc: read error'' @ [CHR 0x0A]) [] w) (\<lambda>_ w. Exited w)
         else printf 1 (''%d %d %d %s'' @ [CHR 0x0A])
                [Aint l, Aint wd, Aint c, Astr (Some name)] w)"

definition wc_main :: "uchar list list \<Rightarrow> uworld \<Rightarrow> unit step" where
  "wc_main argv w =
     (if length argv \<le> 1 then andthen (wc 0 [] w) (\<lambda>_ w. Exited w)
      else each_file ''wc'' wc (tl argv) w)"

section \<open>\<open>cat\<close>\<close>

lemma u_write_fd: "u_write fd bs w = (k, w') \<Longrightarrow> u_fd w' = u_fd w"
  by (auto simp: u_write_def split: if_splits)

function cat :: "nat \<Rightarrow> uworld \<Rightarrow> unit step" where
  "cat fd w =
     (let (n, buf, w) = u_read fd 512 w
      in if n > 0
         then let (k, w) = u_write 1 buf w
              in if k \<noteq> n
                 then andthen (printf 1 (''cat: write error'' @ [CHR 0x0A]) [] w) (\<lambda>_ w. Exited w)
                 else cat fd w
         else if n < 0
         then andthen (printf 1 (''cat: read error'' @ [CHR 0x0A]) [] w) (\<lambda>_ w. Exited w)
         else Ret () w)"
  by pat_completeness auto
termination
  by (relation "measure (\<lambda>(fd, w). pending fd w)")
    (auto dest!: u_read_pending [OF sym] u_write_fd [OF sym] simp: pending_def)

declare cat.simps [simp del]

definition cat_main :: "uchar list list \<Rightarrow> uworld \<Rightarrow> unit step" where
  "cat_main argv w =
     (if length argv \<le> 1 then andthen (cat 0 w) (\<lambda>_ w. Exited w)
      else each_file ''cat'' (\<lambda>fd _ w. cat fd w) (tl argv) w)"

section \<open>What they compute\<close>

text \<open>Deliveries of data without an error and without an early end of file.\<close>

definition all_data :: "delivery list \<Rightarrow> bool" where
  "all_data ds \<longleftrightarrow> (\<forall>d \<in> set ds. d \<noteq> None \<and> d \<noteq> Some [])"

definition data_of :: "delivery list \<Rightarrow> uchar list" where
  "data_of ds = concat (map the ds)"

text \<open>One read of a descriptor that has data takes a non-empty piece of it from the front.\<close>

lemma u_read_data:
  assumes "u_fd w fd = Some ds" "all_data ds" "ds \<noteq> []" "0 < n"
  obtains bs ds' where "u_read fd n w = (int (length bs), bs, w\<lparr>u_fd := (u_fd w)(fd \<mapsto> ds')\<rparr>)"
    "bs \<noteq> []" "all_data ds'" "data_of ds = bs @ data_of ds'"
proof -
  obtain b r where ds: "ds = Some b # r" "b \<noteq> []" "all_data r"
    using assms(2,3) by (cases ds) (auto simp: all_data_def)
  let ?r = "if length b \<le> n then r else Some (drop n b) # r"
  show ?thesis
  proof (rule that)
    show "u_read fd n w = (int (length (take n b)), take n b, w\<lparr>u_fd := (u_fd w)(fd \<mapsto> ?r)\<rparr>)"
      using assms(1) ds by (simp add: u_read_def min.commute)
  qed (use ds assms(4) in \<open>auto simp: all_data_def data_of_def\<close>)
qed

lemma wc_loop_data:
  assumes "u_fd w fd = Some ds" "all_data ds"
  shows "wc_loop fd st w = (0, fold wc_byte (data_of ds) st, w\<lparr>u_fd := (u_fd w)(fd \<mapsto> [])\<rparr>)"
  using assms
proof (induction fd st w arbitrary: ds rule: wc_loop.induct)
  case (1 fd st w)
  show ?case
  proof (cases "ds = []")
    case True
    then show ?thesis
      using 1(2) by (subst wc_loop.simps) (auto simp: u_read_def data_of_def fun_upd_idem)
  next
    case False
    then obtain bs ds' where
      r: "u_read fd 512 w = (int (length bs), bs, w\<lparr>u_fd := (u_fd w)(fd \<mapsto> ds')\<rparr>)"
      and bs: "bs \<noteq> []" and ds': "all_data ds'" "data_of ds = bs @ data_of ds'"
      using u_read_data [OF 1(2,3) False, of 512] by auto
    have "wc_loop fd st w = wc_loop fd (fold wc_byte bs st) (w\<lparr>u_fd := (u_fd w)(fd \<mapsto> ds')\<rparr>)"
      using bs by (subst wc_loop.simps) (simp add: r)
    then show ?thesis
      using 1(1) [OF r [symmetric] refl refl, of ds'] bs ds' by (simp cong: if_cong)
  qed
qed

lemma cat_data:
  assumes "u_fd w fd = Some ds" "all_data ds" "u_sink w 1"
  shows "\<exists>w'. cat fd w = Ret () w' \<and> written 1 w' = written 1 w @ data_of ds"
  using assms
proof (induction fd w arbitrary: ds rule: cat.induct)
  case (1 fd w)
  show ?case
  proof (cases "ds = []")
    case True
    then show ?thesis
      using 1(2) by (subst cat.simps) (simp add: u_read_def data_of_def)
  next
    case False
    then obtain bs ds' where
      r: "u_read fd 512 w = (int (length bs), bs, w\<lparr>u_fd := (u_fd w)(fd \<mapsto> ds')\<rparr>)"
      and bs: "bs \<noteq> []" and ds': "all_data ds'" "data_of ds = bs @ data_of ds'"
      using u_read_data [OF 1(2,3) False, of 512] by auto
    let ?w = "w\<lparr>u_fd := (u_fd w)(fd \<mapsto> ds'), u_out := u_out w @ [(1, bs)]\<rparr>"
    have wr: "u_write 1 bs (w\<lparr>u_fd := (u_fd w)(fd \<mapsto> ds')\<rparr>) = (int (length bs), ?w)"
      using 1(4) by (simp add: u_write_def)
    have "cat fd w = cat fd ?w"
      using bs by (subst cat.simps) (simp add: r wr [simplified])
    moreover have "written 1 ?w = written 1 w @ bs" by (simp add: written_def)
    ultimately show ?thesis
      using 1(1) [OF r [symmetric] refl refl _ wr [symmetric] refl, of ds'] bs ds' 1(4) by simp
  qed
qed

text \<open>Words are maximal runs of bytes that are not white space.\<close>

definition white :: "uchar \<Rightarrow> bool" where
  "white b \<longleftrightarrow> b \<in> {32, 13, 9, 10, 11}"

fun word_starts :: "bool \<Rightarrow> uchar list \<Rightarrow> nat" where
  "word_starts inword [] = 0"
| "word_starts inword (b # bs) =
     (if white b \<or> inword then 0 else 1) + word_starts (\<not> white b) bs"

lemma wc_byte_eq:
  "wc_byte b (l, w, c, inword) =
     (l + (if b = 10 then 1 else 0), w + (if white b \<or> inword then 0 else 1), c + 1, \<not> white b)"
  by (auto simp: wc_byte_def strchr_None white_def)

lemma fold_wc_byte:
  "fold wc_byte bs (l, w, c, inword) =
     (l + of_nat (count_list bs 10), w + of_nat (word_starts inword bs), c + of_nat (length bs),
      if bs = [] then inword else \<not> white (last bs))"
proof (induction bs arbitrary: l w c inword)
  case (Cons b bs)
  show ?case
    unfolding fold_simps wc_byte_eq Cons.IH by (cases bs) (auto simp: algebra_simps)
qed simp

lemma wc_counts:
  assumes "u_fd w fd = Some ds" "all_data ds"
  shows "wc fd name w =
    printf 1 (''%d %d %d %s'' @ [CHR 0x0A])
      [Aint (of_nat (count_list (data_of ds) 10)), Aint (of_nat (word_starts False (data_of ds))),
       Aint (of_nat (length (data_of ds))), Astr (Some name)]
      (w\<lparr>u_fd := (u_fd w)(fd \<mapsto> [])\<rparr>)"
  using wc_loop_data [OF assms] by (simp add: wc_def fold_wc_byte)

end
