(* ===== verification/Sh.thy ===== *)
theory Sh
  imports User
begin

text \<open>
  The shell's command parser (\<open>sh.c\<close>): \<open>gettoken\<close>, \<open>peek\<close>, the recursive-descent parser and
  \<open>nulterminate\<close>. The command line is the list of its bytes; a pointer into it is a position, and
  the position at its end reads the NUL. The mutually recursive parsers take fuel, and the theorems
  show that \<open>4\<close> units for every byte of the line, and \<open>4\<close> more, are always enough.
\<close>

section \<open>Commands\<close>

text \<open>
  The structures \<open>execcmd\<close>, \<open>redircmd\<close>, \<open>pipecmd\<close>, \<open>listcmd\<close> and \<open>backcmd\<close>. A word is the pair of
  its first position and the position after its last byte (\<open>argv[i]\<close> and \<open>eargv[i]\<close>, \<open>file\<close> and
  \<open>efile\<close>) while the line is parsed.
\<close>

datatype 'w cmd =
    Exec "'w list"
  | Redir "'w cmd" 'w nat nat
  | Pipe "'w cmd" "'w cmd"
  | Seq "'w cmd" "'w cmd"
  | Back "'w cmd"

type_synonym span = "nat \<times> nat"

text \<open>The modes \<open>O_RDONLY\<close> and \<open>O_WRONLY|O_CREATE\<close> of \<open>fcntl.h\<close>.\<close>

abbreviation (input) RD_MODE :: nat where "RD_MODE \<equiv> 0"

abbreviation (input) WR_MODE :: nat where "WR_MODE \<equiv> 0x201"

section \<open>Tokens\<close>

definition byte_at :: "uchar list \<Rightarrow> nat \<Rightarrow> uchar" where
  "byte_at buf s = (if s < length buf then buf ! s else 0)"

definition whitespace :: "uchar list" where
  "whitespace = [32, 9, 13, 10, 11]"

definition symbols :: "uchar list" where
  "symbols = [60, 124, 62, 38, 59, 40, 41]"

function skip_white :: "uchar list \<Rightarrow> nat \<Rightarrow> nat" where
  "skip_white buf s =
     (if s < length buf \<and> strchr whitespace (byte_at buf s) \<noteq> None then skip_white buf (s + 1) else s)"
  by pat_completeness auto
termination
  by (relation "measure (\<lambda>(buf, s). length buf - s)") auto

function skip_word :: "uchar list \<Rightarrow> nat \<Rightarrow> nat" where
  "skip_word buf s =
     (if s < length buf \<and> strchr whitespace (byte_at buf s) = None \<and> strchr symbols (byte_at buf s) = None
      then skip_word buf (s + 1) else s)"
  by pat_completeness auto
termination
  by (relation "measure (\<lambda>(buf, s). length buf - s)") auto

declare skip_white.simps [simp del] skip_word.simps [simp del]

text \<open>The kind of the token, its span, and the position after it and the white space behind it.\<close>

definition gettoken :: "uchar list \<Rightarrow> nat \<Rightarrow> uchar \<times> span \<times> nat" where
  "gettoken buf s =
     (let q = skip_white buf s;
          c = byte_at buf q;
          (ret, e) =
            (if c = 0 then (c, q)
             else if c \<in> {124, 40, 41, 59, 38, 60} then (c, q + 1)
             else if c = 62 then if byte_at buf (q + 1) = 62 then (43, q + 2) else (c, q + 1)
             else (97, skip_word buf q))
      in (ret, (q, e), skip_white buf e))"

definition peek :: "uchar list \<Rightarrow> uchar list \<Rightarrow> nat \<Rightarrow> bool \<times> nat" where
  "peek buf toks s =
     (let s = skip_white buf s
      in (byte_at buf s \<noteq> 0 \<and> strchr toks (byte_at buf s) \<noteq> None, s))"

section \<open>Facts about tokens\<close>

lemma skip_white_ge: "s \<le> skip_white buf s"
proof (induction buf s rule: skip_white.induct)
  case (1 buf s)
  then show ?case by (subst skip_white.simps) auto
qed

lemma skip_white_le: "s \<le> length buf \<Longrightarrow> skip_white buf s \<le> length buf"
proof (induction buf s rule: skip_white.induct)
  case (1 buf s)
  then show ?case by (subst skip_white.simps) auto
qed

lemma skip_white_stops:
  "skip_white buf s < length buf \<Longrightarrow> strchr whitespace (byte_at buf (skip_white buf s)) = None"
proof (induction buf s rule: skip_white.induct)
  case (1 buf s)
  then show ?case by (subst skip_white.simps, subst (asm) (2) skip_white.simps) (auto split: if_splits)
qed

lemma skip_word_ge: "s \<le> skip_word buf s"
proof (induction buf s rule: skip_word.induct)
  case (1 buf s)
  then show ?case by (subst skip_word.simps) auto
qed

lemma skip_word_le: "s \<le> length buf \<Longrightarrow> skip_word buf s \<le> length buf"
proof (induction buf s rule: skip_word.induct)
  case (1 buf s)
  then show ?case by (subst skip_word.simps) auto
qed

definition word_byte :: "uchar \<Rightarrow> bool" where
  "word_byte c \<longleftrightarrow> c \<noteq> 0 \<and> c \<notin> set whitespace \<and> c \<notin> set symbols"

lemma skip_word_bytes:
  "s \<le> i \<Longrightarrow> i < skip_word buf s \<Longrightarrow>
   i < length buf \<and> buf ! i \<notin> set whitespace \<and> buf ! i \<notin> set symbols"
proof (induction buf s rule: skip_word.induct)
  case (1 buf s)
  show ?case
  proof (cases "s < length buf \<and> strchr whitespace (byte_at buf s) = None
      \<and> strchr symbols (byte_at buf s) = None")
    case True
    then have "skip_word buf s = skip_word buf (s + 1)" by (subst skip_word.simps) simp
    then show ?thesis
      using 1 True by (cases "i = s") (auto simp: strchr_None byte_at_def)
  next
    case False
    then have "skip_word buf s = s" by (subst skip_word.simps) auto
    then show ?thesis using 1(2,3) by simp
  qed
qed

lemma skip_word_stops:
  "skip_word buf s < length buf \<Longrightarrow> \<not> word_byte (byte_at buf (skip_word buf s))"
proof (induction buf s rule: skip_word.induct)
  case (1 buf s)
  show ?case
  proof (cases "s < length buf \<and> strchr whitespace (byte_at buf s) = None
      \<and> strchr symbols (byte_at buf s) = None")
    case True
    then have "skip_word buf s = skip_word buf (s + 1)" by (subst skip_word.simps) simp
    then show ?thesis using 1 True by simp
  next
    case False
    then have "skip_word buf s = s" by (subst skip_word.simps) auto
    then show ?thesis using False 1(2) by (auto simp: word_byte_def strchr_None)
  qed
qed

text \<open>
  A span is a word of the line: not empty, made of word bytes, and ended by a byte that is not one.
\<close>

definition word_span :: "uchar list \<Rightarrow> span \<Rightarrow> bool" where
  "word_span buf w \<longleftrightarrow>
     fst w < snd w \<and> snd w \<le> length buf \<and> (\<forall>i. fst w \<le> i \<and> i < snd w \<longrightarrow> word_byte (buf ! i))
     \<and> \<not> word_byte (byte_at buf (snd w))"

lemma byte_at_nonzero: "byte_at buf s \<noteq> 0 \<Longrightarrow> s < length buf"
  by (simp add: byte_at_def split: if_splits)

lemma first_byte_of_word:
  assumes "byte_at buf (skip_white buf s) \<noteq> 0" "byte_at buf (skip_white buf s) \<notin> set symbols"
  shows "skip_white buf s < skip_word buf (skip_white buf s)"
proof -
  let ?q = "skip_white buf s"
  have "?q < length buf" using assms(1) by (rule byte_at_nonzero)
  moreover from this have "strchr whitespace (byte_at buf ?q) = None" by (rule skip_white_stops)
  moreover have "strchr symbols (byte_at buf ?q) = None" using assms(2) by (simp add: strchr_None)
  ultimately have "skip_word buf ?q = skip_word buf (?q + 1)" by (subst skip_word.simps) simp
  then show ?thesis using skip_word_ge [of "?q + 1" buf] by simp
qed

text \<open>The shape of every token: nothing at the end of the line, a symbol, or a word.\<close>

lemma gettoken_cases:
  assumes "gettoken buf s = (tok, (q, e), s')"
  obtains (eol) "tok = 0" "byte_at buf q = 0" "e = q" "q = skip_white buf s" "s' = skip_white buf e"
  | (symbol) "tok \<in> set symbols \<or> tok = 43" "byte_at buf q \<noteq> 0" "q < e" "e \<le> length buf"
      "q = skip_white buf s" "s' = skip_white buf e"
  | (word) "tok = 97" "byte_at buf q \<noteq> 0" "e = skip_word buf q" "q < e"
      "q = skip_white buf s" "s' = skip_white buf e"
proof -
  let ?q = "skip_white buf s"
  let ?c = "byte_at buf ?q"
  have q: "q = ?q" "s' = skip_white buf e"
    using assms by (auto simp: gettoken_def Let_def split: prod.splits)
  have len: "Suc ?q \<le> length buf" if "?c \<noteq> 0" using byte_at_nonzero [OF that] by simp
  consider "?c = 0" | "?c \<in> {124, 40, 41, 59, 38, 60}" | "?c = 62" | "?c \<noteq> 0" "?c \<notin> set symbols"
    by (auto simp: symbols_def)
  then show thesis
  proof cases
    case 1
    then show thesis using assms by (intro eol) (auto simp: gettoken_def Let_def)
  next
    case 2
    then have "?c \<noteq> 0" by auto
    then show thesis
      using assms 2 len q by (intro symbol) (auto simp: gettoken_def Let_def symbols_def)
  next
    case 3
    have "Suc (Suc ?q) \<le> length buf" if "byte_at buf (Suc ?q) = 62"
      using byte_at_nonzero [of buf "Suc ?q"] that by simp
    then show thesis
      using assms 3 len q by (intro symbol) (auto simp: gettoken_def Let_def symbols_def split: if_splits)
  next
    case 4
    then have "?c \<noteq> 62" "?c \<notin> {124, 40, 41, 59, 38, 60}" by (auto simp: symbols_def)
    then show thesis
      using assms 4 q first_byte_of_word [OF 4] by (intro word) (auto simp: gettoken_def Let_def)
  qed
qed

lemma gettoken_advances:
  assumes "gettoken buf s = (tok, w, s')"
  shows "s \<le> s' \<and> (tok \<noteq> 0 \<longrightarrow> s < s' \<and> s < length buf)"
proof -
  obtain q e where w: "w = (q, e)" by (cases w)
  have g: "s \<le> skip_white buf s" "e \<le> skip_white buf e" by (rule skip_white_ge)+
  show ?thesis
    using assms unfolding w by (cases rule: gettoken_cases) (use g byte_at_nonzero in \<open>fastforce+\<close>)
qed

lemma gettoken_le:
  assumes "gettoken buf s = (tok, w, s')" and "s \<le> length buf"
  shows "s' \<le> length buf"
proof -
  obtain q e where w: "w = (q, e)" by (cases w)
  have *: "q \<le> length buf \<Longrightarrow> skip_word buf q \<le> length buf" by (rule skip_word_le)
  have "e \<le> length buf \<and> s' = skip_white buf e"
    using assms(1) unfolding w
    by (cases rule: gettoken_cases) (use * skip_white_le [OF assms(2)] in simp_all)
  then show ?thesis using skip_white_le by simp
qed

lemma gettoken_word:
  assumes "gettoken buf s = (97, w, s')" and "0 \<notin> set buf"
  shows "word_span buf w"
proof -
  obtain q e where w: "w = (q, e)" by (cases w)
  have "gettoken buf s = (97, (q, e), s')" using assms(1) w by simp
  then show ?thesis
  proof (cases rule: gettoken_cases)
    case word
    have "q \<le> length buf" using byte_at_nonzero [OF word(2)] by simp
    then have "e \<le> length buf" using word(3) skip_word_le by simp
    moreover have "word_byte (buf ! i)" if "q \<le> i" "i < e" for i
      using skip_word_bytes [of q i buf] that word(3) assms(2)
      by (auto simp: word_byte_def) (metis nth_mem)
    moreover have "\<not> word_byte (byte_at buf e)"
      using skip_word_stops [of buf q] word(3)
      by (cases "e < length buf") (auto simp: byte_at_def word_byte_def)
    ultimately show ?thesis using word(4) by (simp add: w word_span_def)
  qed (auto simp: symbols_def)
qed

lemma peek_spec:
  assumes "peek buf toks s = (b, s')"
  shows "s \<le> s' \<and> (s \<le> length buf \<longrightarrow> s' \<le> length buf) \<and>
    b = (s' < length buf \<and> byte_at buf s' \<noteq> 0 \<and> byte_at buf s' \<in> set toks)"
  using assms skip_white_ge [of s buf] skip_white_le [of s buf]
    byte_at_nonzero [of buf "skip_white buf s"] strchr_None [of toks "byte_at buf (skip_white buf s)"]
  by (auto simp: peek_def Let_def)

lemma skip_white_idem: "skip_white buf (skip_white buf s) = skip_white buf s"
  using skip_white_stops [of buf s] by (subst skip_white.simps) auto

lemma peek_then_token:
  assumes "peek buf toks s = (True, s1)" and "gettoken buf s1 = (tok, w, s2)"
  shows "s \<le> s1 \<and> s1 < s2 \<and> s1 < length buf"
proof -
  have s1: "s1 = skip_white buf s" "byte_at buf s1 \<noteq> 0"
    using assms(1) by (auto simp: peek_def Let_def)
  then have "tok \<noteq> 0"
    using assms(2) by (auto simp: gettoken_def Let_def skip_white_idem split: if_splits)
  then show ?thesis
    using gettoken_advances [OF assms(2)] peek_spec [OF assms(1)] by simp
qed

section \<open>The parser\<close>

text \<open>
  A panic of the parser ends the shell's child process: the message is the value. \<open>parseredirs\<close> and
  the loops of \<open>parseexec\<close> and \<open>parseline\<close> consume a token in every round.
\<close>

function parseredirs :: "uchar list \<Rightarrow> span cmd \<Rightarrow> nat \<Rightarrow> string + span cmd \<times> nat" where
  "parseredirs buf c s =
     (let (b, s) = peek buf [60, 62] s
      in if b
         then let (tok, _, s) = gettoken buf s; (kind, w, s) = gettoken buf s
              in if kind \<noteq> 97 then Inl ''missing file for redirection''
                 else parseredirs buf
                        (if tok = 60 then Redir c w RD_MODE 0
                         else if tok = 62 then Redir c w WR_MODE 1
                         else if tok = 43 then Redir c w WR_MODE 1
                         else c) s
         else Inr (c, s))"
  by pat_completeness auto
termination
proof (relation "measure (\<lambda>(buf, c, s). length buf - s)", goal_cases)
  case (2 buf c s p b s1 t tok r w s2 u kind r2 w2 s3)
  then show ?case
    using gettoken_advances [of buf s1 tok w s2] gettoken_advances [of buf s2 97 w2 s3]
      peek_spec [of buf "[60, 62]" s b s1] by auto
qed simp

declare parseredirs.simps [simp del]

text \<open>
  \<open>parseexec\<close> keeps a pointer to the \<open>execcmd\<close> it made while redirections wrap it, and adds each
  argument through that pointer: to the command at the core of the redirections.
\<close>

fun add_arg :: "'w \<Rightarrow> 'w cmd \<Rightarrow> 'w cmd" where
  "add_arg w (Exec ws) = Exec (ws @ [w])"
| "add_arg w (Redir c f mode fd) = Redir (add_arg w c) f mode fd"
| "add_arg w c = c"

text \<open>One round of \<open>parseredirs\<close>.\<close>

lemma parseredirs_cases:
  assumes "parseredirs buf c s = Inr (c', s')"
  obtains (none) s1 where "peek buf [60, 62] s = (False, s1)" "c' = c" "s' = s1"
  | (redir) s1 tok v s2 w s3 d where "peek buf [60, 62] s = (True, s1)"
      "gettoken buf s1 = (tok, v, s2)" "gettoken buf s2 = (97, w, s3)"
      "d = (if tok = 60 then Redir c w RD_MODE 0 else if tok = 62 then Redir c w WR_MODE 1
            else if tok = 43 then Redir c w WR_MODE 1 else c)"
      "parseredirs buf d s3 = Inr (c', s')"
proof -
  obtain b s1 where p: "peek buf [60, 62] s = (b, s1)" by (cases "peek buf [60, 62] s")
  obtain tok v s2 where t: "gettoken buf s1 = (tok, v, s2)" by (cases "gettoken buf s1")
  obtain kind w s3 where k: "gettoken buf s2 = (kind, w, s3)" by (cases "gettoken buf s2")
  show thesis
  proof (cases b)
    case True
    have "kind = 97"
      using assms by (subst (asm) parseredirs.simps) (simp add: p t k True split: if_splits)
    moreover have "parseredirs buf (if tok = 60 then Redir c w RD_MODE 0 else if tok = 62
        then Redir c w WR_MODE 1 else if tok = 43 then Redir c w WR_MODE 1 else c) s3 = Inr (c', s')"
      using assms by (subst (asm) parseredirs.simps) (simp add: p t k True cong: if_cong split: if_splits)
    ultimately show thesis using p t k True by (intro redir) simp_all
  next
    case False
    then show thesis
      using assms p by (intro none) (subst (asm) parseredirs.simps, simp)+
  qed
qed

lemma parseredirs_induct [consumes 1, case_names none redir]:
  assumes "parseredirs buf c s = Inr (c', s')"
    and "\<And>c s s1. peek buf [60, 62] s = (False, s1) \<Longrightarrow> P c s c s1"
    and "\<And>c s s1 tok v s2 w s3 d c' s'. peek buf [60, 62] s = (True, s1) \<Longrightarrow>
      gettoken buf s1 = (tok, v, s2) \<Longrightarrow> gettoken buf s2 = (97, w, s3) \<Longrightarrow>
      d = (if tok = 60 then Redir c w RD_MODE 0 else if tok = 62 then Redir c w WR_MODE 1
           else if tok = 43 then Redir c w WR_MODE 1 else c) \<Longrightarrow>
      P d s3 c' s' \<Longrightarrow> P c s c' s'"
  shows "P c s c' s'"
  using assms(1)
proof (induction "length buf - s" arbitrary: c s rule: less_induct)
  case less
  from less.prems show ?case
  proof (cases rule: parseredirs_cases)
    case (none s1)
    then show ?thesis using assms(2) by simp
  next
    case (redir s1 tok v s2 w s3 d)
    have "length buf - s3 < length buf - s"
      using peek_then_token [OF redir(1,2)] gettoken_advances [OF redir(3)] by linarith
    then show ?thesis using assms(3) [OF redir(1-4)] less.hyps redir(5) by blast
  qed
qed

lemma parseredirs_advances: "parseredirs buf c s = Inr (c', s') \<Longrightarrow> s \<le> s'"
proof (induction rule: parseredirs_induct)
  case (none c s s1)
  then show ?case using peek_spec by blast
next
  case (redir c s s1 tok v s2 w s3 d c' s')
  then show ?case
    using peek_then_token [OF redir(1,2)] gettoken_advances [OF redir(3)] by linarith
qed

function parseargs :: "uchar list \<Rightarrow> span cmd \<Rightarrow> nat \<Rightarrow> nat \<Rightarrow> string + span cmd \<times> nat" where
  "parseargs buf ret argc s =
     (let (b, s) = peek buf [124, 41, 38, 59] s
      in if b then Inr (ret, s)
         else let (tok, w, s) = gettoken buf s
              in if tok = 0 then Inr (ret, s)
                 else if tok \<noteq> 97 then Inl ''syntax''
                 else if argc + 1 \<ge> 10 then Inl ''too many args''
                 else case parseredirs buf (add_arg w ret) s of
                        Inl e \<Rightarrow> Inl e
                      | Inr (ret, s) \<Rightarrow> parseargs buf ret (argc + 1) s)"
  by pat_completeness auto
termination
proof (relation "measure (\<lambda>(buf, c, argc, s). length buf - s)", goal_cases)
  case (2 buf ret argc s p b s1 t tok r w s2 y ret' s3)
  then show ?case
    using gettoken_advances [of buf s1 97 w s2] parseredirs_advances [of buf "add_arg w ret" s2 ret' s3]
      peek_spec [of buf "[124, 41, 38, 59]" s b s1] by auto
qed simp

declare parseargs.simps [simp del]

function parsebacks :: "uchar list \<Rightarrow> span cmd \<Rightarrow> nat \<Rightarrow> span cmd \<times> nat" where
  "parsebacks buf c s =
     (let (b, s) = peek buf [38] s
      in if b then let (_, _, s) = gettoken buf s in parsebacks buf (Back c) s else (c, s))"
  by pat_completeness auto
termination
proof (relation "measure (\<lambda>(buf, c, s). length buf - s)", goal_cases)
  case (2 buf c s p b s1 t tok r w s2)
  then show ?case
    using peek_then_token [of buf "[38]" s s1 tok w s2] by auto
qed simp

declare parsebacks.simps [simp del]

text \<open>The results of the recursive parsers: \<^term>\<open>None\<close> when the fuel is used up.\<close>

type_synonym parsed = "(string + span cmd \<times> nat) option"

definition pthen :: "parsed \<Rightarrow> (span cmd \<Rightarrow> nat \<Rightarrow> parsed) \<Rightarrow> parsed" where
  "pthen r f =
     (case r of None \<Rightarrow> None | Some (Inl e) \<Rightarrow> Some (Inl e) | Some (Inr (c, s)) \<Rightarrow> f c s)"

fun parseline :: "nat \<Rightarrow> uchar list \<Rightarrow> nat \<Rightarrow> parsed"
  and parsepipe :: "nat \<Rightarrow> uchar list \<Rightarrow> nat \<Rightarrow> parsed"
  and parseexec :: "nat \<Rightarrow> uchar list \<Rightarrow> nat \<Rightarrow> parsed"
  and parseblock :: "nat \<Rightarrow> uchar list \<Rightarrow> nat \<Rightarrow> parsed" where
  "parseline 0 buf s = None"
| "parseline (Suc n) buf s =
     pthen (parsepipe n buf s) (\<lambda>c s.
       let (c, s) = parsebacks buf c s;
           (b, s) = peek buf [59] s
       in if b
          then let (_, _, s) = gettoken buf s
               in pthen (parseline n buf s) (\<lambda>d s. Some (Inr (Seq c d, s)))
          else Some (Inr (c, s)))"
| "parsepipe 0 buf s = None"
| "parsepipe (Suc n) buf s =
     pthen (parseexec n buf s) (\<lambda>c s.
       let (b, s) = peek buf [124] s
       in if b
          then let (_, _, s) = gettoken buf s
               in pthen (parsepipe n buf s) (\<lambda>d s. Some (Inr (Pipe c d, s)))
          else Some (Inr (c, s)))"
| "parseexec 0 buf s = None"
| "parseexec (Suc n) buf s =
     (let (b, s) = peek buf [40] s
      in if b then parseblock n buf s
         else case parseredirs buf (Exec []) s of
                Inl e \<Rightarrow> Some (Inl e)
              | Inr (ret, s) \<Rightarrow> Some (parseargs buf ret 0 s))"
| "parseblock 0 buf s = None"
| "parseblock (Suc n) buf s =
     (let (b, s) = peek buf [40] s
      in if \<not> b then Some (Inl ''parseblock'')
         else let (_, _, s) = gettoken buf s
              in pthen (parseline n buf s) (\<lambda>c s.
                   let (b, s) = peek buf [41] s
                   in if \<not> b then Some (Inl ''syntax - missing )'')
                      else let (_, _, s) = gettoken buf s in Some (parseredirs buf c s)))"

section \<open>What the parser builds\<close>

text \<open>The arguments at the core of redirections, and the bound \<open>MAXARGS\<close> with room for the null.\<close>

fun core :: "'w cmd \<Rightarrow> 'w list option" where
  "core (Exec ws) = Some ws"
| "core (Redir c f mode fd) = core c"
| "core c = None"

fun argv_ok :: "'w cmd \<Rightarrow> bool" where
  "argv_ok (Exec ws) \<longleftrightarrow> length ws < 10"
| "argv_ok (Redir c f mode fd) \<longleftrightarrow> argv_ok c"
| "argv_ok (Pipe c d) \<longleftrightarrow> argv_ok c \<and> argv_ok d"
| "argv_ok (Seq c d) \<longleftrightarrow> argv_ok c \<and> argv_ok d"
| "argv_ok (Back c) \<longleftrightarrow> argv_ok c"

definition cmd_ok :: "uchar list \<Rightarrow> span cmd \<Rightarrow> bool" where
  "cmd_ok buf c \<longleftrightarrow> argv_ok c \<and> (\<forall>w \<in> set_cmd c. word_span buf w)"

lemma add_arg_core [simp]: "core (add_arg w c) = map_option (\<lambda>ws. ws @ [w]) (core c)"
  by (induction c) simp_all

lemma add_arg_set: "core c \<noteq> None \<Longrightarrow> set_cmd (add_arg w c) = insert w (set_cmd c)"
  by (induction c) auto

lemma argv_ok_core: "core c = Some ws \<Longrightarrow> argv_ok c \<longleftrightarrow> length ws < 10"
  by (induction c) auto

lemma cmd_ok_simps [simp]:
  "cmd_ok buf (Exec ws) \<longleftrightarrow> length ws < 10 \<and> (\<forall>w \<in> set ws. word_span buf w)"
  "cmd_ok buf (Redir c f mode fd) \<longleftrightarrow> cmd_ok buf c \<and> word_span buf f"
  "cmd_ok buf (Pipe c d) \<longleftrightarrow> cmd_ok buf c \<and> cmd_ok buf d"
  "cmd_ok buf (Seq c d) \<longleftrightarrow> cmd_ok buf c \<and> cmd_ok buf d"
  "cmd_ok buf (Back c) \<longleftrightarrow> cmd_ok buf c"
  by (auto simp: cmd_ok_def)

lemma cmd_ok_add_arg:
  assumes "cmd_ok buf c" "core c = Some ws" "word_span buf w" "length ws < 9"
  shows "cmd_ok buf (add_arg w c)"
  using assms argv_ok_core [of "add_arg w c" "ws @ [w]"]
  by (auto simp: cmd_ok_def add_arg_set)

text \<open>The end position of a parser lies between its start and the end of the line.\<close>

definition advances :: "uchar list \<Rightarrow> nat \<Rightarrow> nat \<Rightarrow> bool" where
  "advances buf s s' \<longleftrightarrow> s \<le> s' \<and> (s \<le> length buf \<longrightarrow> s' \<le> length buf)"

lemma advances_refl [simp]: "advances buf s s"
  by (simp add: advances_def)

lemma advances_trans: "advances buf s t \<Longrightarrow> advances buf t u \<Longrightarrow> advances buf s u"
  by (auto simp: advances_def)

lemma advances_peek: "peek buf toks s = (b, s') \<Longrightarrow> advances buf s s'"
  using peek_spec [of buf toks s b s'] by (simp add: advances_def)

lemma advances_gettoken: "gettoken buf s = (tok, w, s') \<Longrightarrow> advances buf s s'"
  using gettoken_advances [of buf s tok w s'] gettoken_le [of buf s tok w s']
  by (simp add: advances_def)

lemmas advances_intros = advances_peek advances_gettoken

lemma parseredirs_ok:
  assumes "parseredirs buf c s = Inr (c', s')" and "0 \<notin> set buf"
  shows "advances buf s s' \<and> core c' = core c \<and> (cmd_ok buf c \<longrightarrow> cmd_ok buf c')"
  using assms(1)
proof (induction rule: parseredirs_induct)
  case (none c s s1)
  then show ?case by (simp add: advances_peek)
next
  case (redir c s s1 tok v s2 w s3 d c' s')
  have "word_span buf w" using gettoken_word [OF redir(3) assms(2)] .
  moreover have "advances buf s s3"
    using redir(1-3) by (meson advances_intros advances_trans)
  ultimately show ?case
    using redir(4,5) by (auto intro: advances_trans split: if_splits)
qed

lemma parseargs_ok:
  assumes "parseargs buf ret argc s = Inr (c', s')" and "0 \<notin> set buf"
    and "core ret = Some ws" "length ws = argc" "cmd_ok buf ret"
  shows "advances buf s s' \<and> cmd_ok buf c'"
  using assms
proof (induction buf ret argc s arbitrary: ws rule: parseargs.induct)
  case (1 buf ret argc s)
  obtain b s1 where p: "peek buf [124, 41, 38, 59] s = (b, s1)"
    by (cases "peek buf [124, 41, 38, 59] s")
  obtain tok w s2 where t: "gettoken buf s1 = (tok, w, s2)" by (cases "gettoken buf s1")
  have step: "parseargs buf ret argc s =
     (if b then Inr (ret, s1) else if tok = 0 then Inr (ret, s2) else if tok \<noteq> 97 then Inl ''syntax''
      else if argc + 1 \<ge> 10 then Inl ''too many args''
      else case parseredirs buf (add_arg w ret) s2 of Inl e \<Rightarrow> Inl e
           | Inr (ret, s) \<Rightarrow> parseargs buf ret (argc + 1) s)"
    by (subst parseargs.simps) (simp add: p t)
  have adv: "advances buf s s1" "advances buf s s2"
    using p t by (meson advances_intros advances_trans)+
  show ?case
  proof (cases "b \<or> tok = 0")
    case True
    then show ?thesis using 1(2,6) adv unfolding step by (auto split: if_splits)
  next
    case False
    then have tok: "tok = 97" "argc < 9" using 1(2) unfolding step by (auto split: if_splits)
    obtain ret2 s3 where r: "parseredirs buf (add_arg w ret) s2 = Inr (ret2, s3)"
      and more: "parseargs buf ret2 (argc + 1) s3 = Inr (c', s')"
      using 1(2) False tok unfolding step by (auto split: if_splits sum.splits)
    have "cmd_ok buf (add_arg w ret)"
      using 1(3-6) tok t by (intro cmd_ok_add_arg [of buf ret ws]) (auto intro: gettoken_word)
    then have ok: "advances buf s2 s3" "core ret2 = Some (ws @ [w])" "cmd_ok buf ret2"
      using parseredirs_ok [OF r 1(3)] 1(4) by simp_all
    have "advances buf s3 s' \<and> cmd_ok buf c'"
      using 1(1) [OF p [symmetric] refl _ t [symmetric] refl refl _ _ _ r refl more 1(3) ok(2)] False tok
        1(5) ok(3) by simp
    then show ?thesis using adv ok(1) by (blast intro: advances_trans)
  qed
qed

lemma parsebacks_ok:
  assumes "parsebacks buf c s = (c', s')"
  shows "advances buf s s' \<and> (cmd_ok buf c \<longrightarrow> cmd_ok buf c')"
  using assms
proof (induction buf c s rule: parsebacks.induct)
  case (1 buf c s)
  obtain b s1 where p: "peek buf [38] s = (b, s1)" by (cases "peek buf [38] s")
  obtain tok w s2 where t: "gettoken buf s1 = (tok, w, s2)" by (cases "gettoken buf s1")
  have step: "parsebacks buf c s = (if b then parsebacks buf (Back c) s2 else (c, s1))"
    by (subst parsebacks.simps) (simp add: p t)
  have adv: "advances buf s s1" "advances buf s s2"
    using p t by (meson advances_intros advances_trans)+
  show ?case
    using 1(1) [OF p [symmetric] refl _ t [symmetric] refl] 1(2) adv unfolding step
    by (auto split: if_splits intro: advances_trans)
qed

text \<open>A parser returns: with a panic, or with a command and a position that fit the line.\<close>

definition returns :: "uchar list \<Rightarrow> nat \<Rightarrow> parsed \<Rightarrow> bool" where
  "returns buf s r \<longleftrightarrow>
     (case r of None \<Rightarrow> False | Some (Inl e) \<Rightarrow> True
      | Some (Inr (c, s')) \<Rightarrow> advances buf s s' \<and> cmd_ok buf c)"

lemma returns_simps [simp]:
  "\<not> returns buf s None" "returns buf s (Some (Inl e))"
  "returns buf s (Some (Inr (c, s'))) \<longleftrightarrow> advances buf s s' \<and> cmd_ok buf c"
  by (simp_all add: returns_def)

lemma returns_from: "returns buf t r \<Longrightarrow> advances buf s t \<Longrightarrow> returns buf s r"
  by (auto simp: returns_def split: option.splits sum.splits intro: advances_trans)

lemma returns_pthen:
  assumes "returns buf s r"
    and "\<And>c t. advances buf s t \<Longrightarrow> cmd_ok buf c \<Longrightarrow> returns buf s (f c t)"
  shows "returns buf s (pthen r f)"
  using assms by (cases r) (auto simp: pthen_def split: sum.splits)

lemma returns_parseredirs:
  "0 \<notin> set buf \<Longrightarrow> cmd_ok buf c \<Longrightarrow> returns buf s (Some (parseredirs buf c s))"
  using parseredirs_ok [of buf c s] by (cases "parseredirs buf c s") (auto simp: returns_def)

lemma returns_parseargs:
  "0 \<notin> set buf \<Longrightarrow> core ret = Some [] \<Longrightarrow> cmd_ok buf ret \<Longrightarrow> returns buf s (Some (parseargs buf ret 0 s))"
  using parseargs_ok [of buf ret 0 s] by (cases "parseargs buf ret 0 s") (auto simp: returns_def)

text \<open>After a token that \<open>peek\<close> has seen, four units of fuel are free.\<close>

lemma token_frees_fuel:
  assumes "peek buf toks s = (True, s1)" "gettoken buf s1 = (tok, w, s2)" "advances buf r s"
    and "r \<le> length buf"
  shows "advances buf r s2 \<and> s2 \<le> length buf \<and> 4 * (length buf - s2) + 4 \<le> 4 * (length buf - r)"
proof -
  have "advances buf r s2"
    using assms(1-3) by (meson advances_intros advances_trans)
  moreover have "r \<le> s1" "s1 < s2" "s1 < length buf"
    using peek_then_token [OF assms(1,2)] assms(3) by (auto simp: advances_def)
  ultimately show ?thesis using assms(4) by (auto simp: advances_def)
qed

text \<open>One unfolding of each parser, relative to the calls it makes.\<close>

lemma parseline_step:
  assumes "s \<le> length buf" and "returns buf s (parsepipe n buf s)"
    and line: "\<And>t. t \<le> length buf \<Longrightarrow> 4 * (length buf - t) + 4 \<le> 4 * (length buf - s) \<Longrightarrow>
      returns buf t (parseline n buf t)"
  shows "returns buf s (parseline (Suc n) buf s)"
  unfolding parseline.simps
proof (rule returns_pthen [OF assms(2)])
  fix c t
  assume t: "advances buf s t" "cmd_ok buf c"
  obtain d t1 where b: "parsebacks buf c t = (d, t1)" by (cases "parsebacks buf c t")
  obtain p t2 where p: "peek buf [59] t1 = (p, t2)" by (cases "peek buf [59] t1")
  obtain tok w t3 where g: "gettoken buf t2 = (tok, w, t3)" by (cases "gettoken buf t2")
  have t1: "advances buf s t1" "cmd_ok buf d"
    using parsebacks_ok [OF b] t by (auto intro: advances_trans)
  have "returns buf s (pthen (parseline n buf t3) (\<lambda>e s. Some (Inr (Seq d e, s))))" if p
    using token_frees_fuel [of buf "[59]" t1 t2 tok w t3 s] p g t1 that assms(1)
    by (intro returns_pthen returns_from [OF line]) auto
  moreover have "advances buf s t2" using t1(1) p by (meson advances_intros advances_trans)
  ultimately show "returns buf s (let (c, s) = parsebacks buf c t; (b, s) = peek buf [59] s
      in if b then let (_, _, s) = gettoken buf s
           in pthen (parseline n buf s) (\<lambda>d s. Some (Inr (Seq c d, s)))
         else Some (Inr (c, s)))"
    using t1(2) by (simp add: b p g)
qed

lemma parsepipe_step:
  assumes "s \<le> length buf" and "returns buf s (parseexec n buf s)"
    and pipe: "\<And>t. t \<le> length buf \<Longrightarrow> 4 * (length buf - t) + 4 \<le> 4 * (length buf - s) \<Longrightarrow>
      returns buf t (parsepipe n buf t)"
  shows "returns buf s (parsepipe (Suc n) buf s)"
  unfolding parsepipe.simps
proof (rule returns_pthen [OF assms(2)])
  fix c t
  assume t: "advances buf s t" "cmd_ok buf c"
  obtain p t2 where p: "peek buf [124] t = (p, t2)" by (cases "peek buf [124] t")
  obtain tok w t3 where g: "gettoken buf t2 = (tok, w, t3)" by (cases "gettoken buf t2")
  have "returns buf s (pthen (parsepipe n buf t3) (\<lambda>e s. Some (Inr (Pipe c e, s))))" if p
    using token_frees_fuel [of buf "[124]" t t2 tok w t3 s] p g t that assms(1)
    by (intro returns_pthen returns_from [OF pipe]) auto
  moreover have "advances buf s t2" using t(1) p by (meson advances_intros advances_trans)
  ultimately show "returns buf s (let (b, s) = peek buf [124] t
      in if b then let (_, _, s) = gettoken buf s
           in pthen (parsepipe n buf s) (\<lambda>d s. Some (Inr (Pipe c d, s)))
         else Some (Inr (c, s)))"
    using t(2) by (simp add: p g)
qed

lemma parseexec_step:
  assumes "s \<le> length buf" "0 \<notin> set buf"
    and block: "\<And>t. s \<le> t \<Longrightarrow> t \<le> length buf \<Longrightarrow> returns buf t (parseblock n buf t)"
  shows "returns buf s (parseexec (Suc n) buf s)"
proof -
  obtain p t where p: "peek buf [40] s = (p, t)" by (cases "peek buf [40] s")
  have t: "advances buf s t" "t \<le> length buf" "s \<le> t"
    using assms(1) advances_peek [OF p] by (auto simp: advances_def)
  have "returns buf t (case parseredirs buf (Exec []) t of Inl e \<Rightarrow> Some (Inl e)
      | Inr (ret, s) \<Rightarrow> Some (parseargs buf ret 0 s))"
    using parseredirs_ok [of buf "Exec []" t] assms(2)
    by (auto split: sum.splits intro!: returns_from [OF returns_parseargs])
  then show ?thesis
    using t block [OF t(3,2)] by (auto simp: p intro: returns_from)
qed

lemma parseblock_step:
  assumes "s \<le> length buf" "0 \<notin> set buf"
    and line: "\<And>t. t \<le> length buf \<Longrightarrow> 4 * (length buf - t) + 4 \<le> 4 * (length buf - s) \<Longrightarrow>
      returns buf t (parseline n buf t)"
  shows "returns buf s (parseblock (Suc n) buf s)"
proof -
  obtain p t where p: "peek buf [40] s = (p, t)" by (cases "peek buf [40] s")
  obtain tok w u where g: "gettoken buf t = (tok, w, u)" by (cases "gettoken buf t")
  have close: "returns buf u (let (b, s) = peek buf [41] x
      in if \<not> b then Some (Inl ''syntax - missing )'')
         else let (_, _, s) = gettoken buf s in Some (parseredirs buf c s))"
    if x: "advances buf u x" "cmd_ok buf c" for c x
  proof -
    obtain q y where q: "peek buf [41] x = (q, y)" by (cases "peek buf [41] x")
    obtain tk v z where z: "gettoken buf y = (tk, v, z)" by (cases "gettoken buf y")
    have "advances buf u z" using x(1) q z by (meson advances_intros advances_trans)
    then show ?thesis
      using returns_parseredirs [OF assms(2) x(2)] by (auto simp: q z intro: returns_from)
  qed
  have "returns buf s (pthen (parseline n buf u) (\<lambda>c x. let (b, s) = peek buf [41] x
      in if \<not> b then Some (Inl ''syntax - missing )'')
         else let (_, _, s) = gettoken buf s in Some (parseredirs buf c s)))" if p
    using token_frees_fuel [of buf "[40]" s t tok w u s] p g that assms(1)
    by (intro returns_from [OF returns_pthen [OF line close]]) auto
  then show ?thesis by (simp add: p g)
qed

lemma parse_returns:
  assumes "0 \<notin> set buf" and "s \<le> length buf"
  shows "(4 * (length buf - s) + 3 < n \<longrightarrow> returns buf s (parseline n buf s)) \<and>
    (4 * (length buf - s) + 2 < n \<longrightarrow> returns buf s (parsepipe n buf s)) \<and>
    (4 * (length buf - s) + 1 < n \<longrightarrow> returns buf s (parseexec n buf s)) \<and>
    (4 * (length buf - s) < n \<longrightarrow> returns buf s (parseblock n buf s))"
  using assms(2)
proof (induction n arbitrary: s)
  case 0
  then show ?case by simp
next
  case (Suc n)
  have "returns buf s (parseline (Suc n) buf s)" if "4 * (length buf - s) + 3 < Suc n"
    using Suc that by (intro parseline_step) auto
  moreover have "returns buf s (parsepipe (Suc n) buf s)" if "4 * (length buf - s) + 2 < Suc n"
    using Suc that by (intro parsepipe_step) auto
  moreover have "returns buf s (parseexec (Suc n) buf s)" if "4 * (length buf - s) + 1 < Suc n"
    using Suc that assms(1) by (intro parseexec_step) auto
  moreover have "returns buf s (parseblock (Suc n) buf s)" if "4 * (length buf - s) < Suc n"
    using Suc that assms(1) by (intro parseblock_step) auto
  ultimately show ?case by blast
qed

section \<open>\<open>nulterminate\<close> and \<open>parsecmd\<close>\<close>

text \<open>The buffer with the line and its NUL; every word's end position receives a NUL.\<close>

fun nulterminate :: "span cmd \<Rightarrow> uchar list \<Rightarrow> uchar list" where
  "nulterminate (Exec ws) b = fold (\<lambda>w b. b[snd w := 0]) ws b"
| "nulterminate (Redir c f mode fd) b = (nulterminate c b)[snd f := 0]"
| "nulterminate (Pipe c d) b = nulterminate d (nulterminate c b)"
| "nulterminate (Seq c d) b = nulterminate d (nulterminate c b)"
| "nulterminate (Back c) b = nulterminate c b"

text \<open>
  \<open>parsecmd\<close>: a panic writes its message to descriptor 2 and ends the process, after the leftovers
  of a line that was not parsed to its end. The result is the command and the buffer it points into.
\<close>

definition sh_panic :: "uchar list \<Rightarrow> uworld \<Rightarrow> 'a step" where
  "sh_panic msg w = andthen (printf 2 (''%s'' @ [CHR 0x0A]) [Astr (Some msg)] w) (\<lambda>_ w. Exited w)"

definition parsecmd :: "uchar list \<Rightarrow> uworld \<Rightarrow> (span cmd \<times> uchar list) step option" where
  "parsecmd buf w =
     (case parseline (4 * length buf + 4) buf 0 of
        None \<Rightarrow> None
      | Some (Inl e) \<Rightarrow> Some (sh_panic (str e) w)
      | Some (Inr (c, s)) \<Rightarrow>
          let (_, s) = peek buf [] s
          in Some (if s \<noteq> length buf
                   then andthen (printf 2 (''leftovers: %s'' @ [CHR 0x0A]) [Astr (Some (drop s buf))] w)
                          (\<lambda>_ w. sh_panic (str ''syntax'') w)
                   else Ret (c, nulterminate c (buf @ [0])) w))"

text \<open>The C string at a position of the buffer, and the text of a span of the line.\<close>

definition cstring :: "uchar list \<Rightarrow> nat \<Rightarrow> uchar list" where
  "cstring b q = takeWhile (\<lambda>c. c \<noteq> 0) (drop q b)"

definition span_text :: "uchar list \<Rightarrow> span \<Rightarrow> uchar list" where
  "span_text buf w = take (snd w - fst w) (drop (fst w) buf)"

lemma nulterminate_length [simp]: "length (nulterminate c b) = length b"
proof (induction c arbitrary: b)
  case (Exec ws)
  show ?case by (induction ws arbitrary: b) simp_all
qed simp_all

lemma nth_put_nul: "i < length b \<Longrightarrow> b[j := 0] ! i = (if i = j then 0 else b ! i)"
  by (cases "j < length b") (auto simp: list_update_beyond)

lemma nulterminate_nth:
  assumes "i < length b"
  shows "nulterminate c b ! i = (if i \<in> snd ` set_cmd c then 0 else b ! i)"
  using assms
proof (induction c arbitrary: b)
  case (Exec ws)
  then show ?case by (induction ws arbitrary: b) (auto simp: nth_put_nul)
qed (auto simp: nth_put_nul)

text \<open>
  The NULs only replace bytes that end words, so no word is cut, and each is ended where the parser
  saw its end.
\<close>

lemma nulterminate_words:
  assumes "cmd_ok buf c" and "0 \<notin> set buf" and w: "w \<in> set_cmd c"
  shows "cstring (nulterminate c (buf @ [0])) (fst w) = span_text buf w"
proof -
  let ?b = "nulterminate c (buf @ [0])"
  have spans: "word_span buf v" if "v \<in> set_cmd c" for v
    using assms(1) that by (auto simp: cmd_ok_def)
  have ws: "fst w < snd w" "snd w \<le> length buf" and bytes: "\<And>i. fst w \<le> i \<Longrightarrow> i < snd w \<Longrightarrow> word_byte (buf ! i)"
    using spans [OF w] by (auto simp: word_span_def)
  have keep: "?b ! i = buf ! i" if "fst w \<le> i" "i < snd w" for i
  proof -
    have "i \<noteq> snd v" if "v \<in> set_cmd c" for v
      using spans [OF that] bytes [of i] \<open>fst w \<le> i\<close> \<open>i < snd w\<close> ws
      by (auto simp: word_span_def byte_at_def split: if_splits)
    then show ?thesis
      using that ws by (auto simp: nulterminate_nth nth_append)
  qed
  have "?b ! snd w = 0" using ws w by (auto simp: nulterminate_nth)
  moreover have "drop (fst w) (take (snd w) ?b) = span_text buf w"
    using ws keep by (intro nth_equalityI) (auto simp: span_text_def)
  moreover have "?b = take (snd w) ?b @ ?b ! snd w # drop (Suc (snd w)) ?b"
    using ws(2) by (intro id_take_nth_drop) simp
  moreover have "drop (fst w) (take (snd w) ?b @ y) = drop (fst w) (take (snd w) ?b) @ y" for y
    using ws by simp
  ultimately have drp: "drop (fst w) ?b = span_text buf w @ 0 # drop (Suc (snd w)) ?b"
    by metis
  have "\<forall>x \<in> set (span_text buf w). x \<noteq> 0"
    using bytes ws by (auto simp: span_text_def in_set_conv_nth word_byte_def)
  then show ?thesis
    unfolding cstring_def drp by (simp add: takeWhile_append2 takeWhile_tail)
qed

lemma sh_panic_exits: "\<exists>w'. sh_panic msg w = Exited w'"
  by (simp add: sh_panic_def printf_def str_def)


definition idle_world :: uworld where
  "idle_world = \<lparr>u_fd = Map.empty, u_files = Map.empty, u_sink = (\<lambda>_. True), u_out = []\<rparr>"


end
