(* ===== verification/Shprint.thy ===== *)
theory Shprint
  imports Sh
begin

text \<open>
  The shell's grammar (\<open>sh.c\<close>), stated by a printer: every command that the parser can build, written
  out with parentheses around its parts, is parsed back to itself.
\<close>

section \<open>Printing\<close>

text \<open>A command as a line, every part in parentheses.\<close>

fun print_cmd :: "uchar list cmd \<Rightarrow> uchar list" where
  "print_cmd (Exec ws) = concat (map (\<lambda>w. w @ [32]) ws)"
| "print_cmd (Redir c f mode fd) =
     40 # print_cmd c @ 41 # (if fd = 0 then 60 else 62) # f @ [32]"
| "print_cmd (Pipe c d) = 40 # print_cmd c @ 41 # 124 # 40 # print_cmd d @ [41]"
| "print_cmd (Seq c d) = 40 # print_cmd c @ 41 # 59 # 40 # print_cmd d @ [41]"
| "print_cmd (Back c) = 40 # print_cmd c @ 41 # [38]"

definition a_word :: "uchar list \<Rightarrow> bool" where
  "a_word w \<longleftrightarrow> w \<noteq> [] \<and> (\<forall>c \<in> set w. word_byte c)"

fun printable :: "uchar list cmd \<Rightarrow> bool" where
  "printable (Exec ws) \<longleftrightarrow> length ws < 10 \<and> (\<forall>w \<in> set ws. a_word w)"
| "printable (Redir c f mode fd) \<longleftrightarrow>
     printable c \<and> a_word f \<and> (mode, fd) \<in> {(RD_MODE, 0), (WR_MODE, 1)}"
| "printable (Pipe c d) \<longleftrightarrow> printable c \<and> printable d"
| "printable (Seq c d) \<longleftrightarrow> printable c \<and> printable d"
| "printable (Back c) \<longleftrightarrow> printable c"

text \<open>What is left of the line at a position.\<close>

definition left_at :: "uchar list \<Rightarrow> nat \<Rightarrow> uchar list \<Rightarrow> bool" where
  "left_at buf s xs \<longleftrightarrow> s \<le> length buf \<and> drop s buf = xs"

definition tight :: "uchar list \<Rightarrow> bool" where
  "tight xs \<longleftrightarrow> xs = [] \<or> hd xs \<notin> set whitespace"

lemma left_at_Cons:
  assumes "left_at buf s (x # xs)"
  shows "byte_at buf s = x" "s < length buf" "left_at buf (Suc s) xs"
proof -
  show *: "s < length buf" using assms by (cases "s < length buf") (auto simp: left_at_def)
  show "byte_at buf s = x" "left_at buf (Suc s) xs"
    using assms * by (auto simp: left_at_def byte_at_def) (metis hd_drop_conv_nth list.sel(1),
      metis Cons_nth_drop_Suc list.inject)
qed

lemma left_at_Nil: "left_at buf s [] \<Longrightarrow> s = length buf \<and> byte_at buf s = 0"
  by (auto simp: left_at_def byte_at_def)

lemma left_at_append: "left_at buf s (w @ xs) \<Longrightarrow> left_at buf (s + length w) xs \<and> span_text buf (s, s + length w) = w"
proof -
  assume a: "left_at buf s (w @ xs)"
  then have "length buf - s = length w + length xs" by (metis left_at_def length_append length_drop)
  then show ?thesis
    using a by (auto simp: left_at_def span_text_def) (metis add.commute append_eq_conv_conj drop_drop)
qed

lemma skip_white_tight: "left_at buf s xs \<Longrightarrow> tight xs \<Longrightarrow> skip_white buf s = s"
  by (cases xs)
    (auto simp: skip_white.simps [of buf s] tight_def strchr_None left_at_Cons dest: left_at_Nil)

lemma peek_tight:
  assumes "left_at buf s xs" "tight xs" "0 \<notin> set xs"
  shows "peek buf toks s = (xs \<noteq> [] \<and> hd xs \<in> set toks, s)"
  using skip_white_tight [OF assms(1,2)] assms
  by (cases xs) (auto simp: peek_def left_at_Cons strchr_None dest: left_at_Nil)

lemma skip_word_over:
  assumes "left_at buf s (w @ xs)" "\<forall>c \<in> set w. word_byte c" "xs = [] \<or> \<not> word_byte (hd xs)" "0 \<notin> set xs"
  shows "skip_word buf s = s + length w"
  using assms(1,2)
proof (induction w arbitrary: s)
  case Nil
  then show ?case
    using assms(3,4) left_at_Cons(1) [of buf s]
    by (cases xs) (auto simp: skip_word.simps [of buf s] word_byte_def strchr_None dest: left_at_Nil)
next
  case (Cons c w)
  have "skip_word buf s = skip_word buf (Suc s)"
    using left_at_Cons [of buf s c "w @ xs"] Cons.prems
    by (subst skip_word.simps) (simp add: word_byte_def strchr_None)
  then show ?case
    using Cons.IH [of "Suc s"] left_at_Cons(3) [of buf s c "w @ xs"] Cons.prems by simp
qed

lemma word_byte_not [simp]:
  "\<not> word_byte 0" "\<not> word_byte 32" "\<not> word_byte 40" "\<not> word_byte 41" "\<not> word_byte 38"
  "\<not> word_byte 59" "\<not> word_byte 60" "\<not> word_byte 62" "\<not> word_byte 124"
  by (simp_all add: word_byte_def whitespace_def symbols_def)

lemma skip_white_space:
  assumes "left_at buf s (32 # xs)" "tight xs"
  shows "skip_white buf s = Suc s"
  using left_at_Cons [OF assms(1)] skip_white_tight [of buf "Suc s" xs] assms(2)
  by (subst skip_white.simps) (simp add: whitespace_def)

lemma gettoken_a_word:
  assumes "left_at buf s (w @ 32 # xs)" "a_word w" "tight xs" "0 \<notin> set xs"
  shows "gettoken buf s = (97, (s, s + length w), Suc (s + length w))"
proof -
  obtain c v where w: "w = c # v" using assms(2) by (cases w) (auto simp: a_word_def)
  have c: "word_byte c" using assms(2) by (simp add: w a_word_def)
  have at: "skip_white buf s = s"
    using assms(1) c by (intro skip_white_tight [of _ _ "w @ 32 # xs"]) (auto simp: w tight_def word_byte_def)
  have e: "skip_word buf s = s + length w"
    using assms by (intro skip_word_over [of buf s w "32 # xs"]) (auto simp: a_word_def)
  have "skip_white buf (s + length w) = Suc (s + length w)"
    using left_at_append [OF assms(1)] assms(3) by (intro skip_white_space) auto
  moreover have "byte_at buf s = c" using left_at_Cons(1) [of buf s c] assms(1) by (simp add: w)
  ultimately show ?thesis
    using c at e by (auto simp: gettoken_def Let_def word_byte_def symbols_def)
qed

lemma gettoken_symbol:
  assumes "left_at buf s (x # xs)" "x \<in> {124, 40, 41, 59, 38, 60, 62}" "tight xs"
    and "x = 62 \<Longrightarrow> xs \<noteq> [] \<Longrightarrow> hd xs \<noteq> 62"
  shows "gettoken buf s = (x, (s, Suc s), Suc s)"
proof -
  have at: "skip_white buf s = s"
    using assms(1,2) by (intro skip_white_tight [of _ _ "x # xs"]) (auto simp: tight_def whitespace_def)
  have nxt: "skip_white buf (Suc s) = Suc s"
    using skip_white_tight [OF left_at_Cons(3) [OF assms(1)] assms(3)] .
  have "x = 62 \<Longrightarrow> byte_at buf (Suc s) \<noteq> 62"
    using left_at_Cons(3) [OF assms(1)] assms(4) left_at_Cons(1) [of buf "Suc s"]
    by (cases xs) (auto dest: left_at_Nil)
  then show ?thesis
    using at nxt left_at_Cons(1) [OF assms(1)] assms(2) by (auto simp: gettoken_def Let_def)
qed

section \<open>Parsing what was printed\<close>

lemma parseredirs_none:
  assumes "left_at buf s xs" "tight xs" "0 \<notin> set xs" "xs = [] \<or> hd xs \<notin> {60, 62}"
  shows "parseredirs buf c s = Inr (c, s)"
  using assms(4) by (subst parseredirs.simps) (auto simp: peek_tight [OF assms(1-3)])

lemma parseredirs_one:
  assumes "left_at buf s (x # f @ 32 # xs)" "x \<in> {60, 62}" "a_word f"
    and "tight xs" "0 \<notin> set xs" "xs = [] \<or> hd xs \<notin> {60, 62}"
  shows "\<exists>v t. parseredirs buf c s =
      Inr (Redir c v (if x = 60 then RD_MODE else WR_MODE) (if x = 60 then 0 else 1), t)
    \<and> left_at buf t xs \<and> span_text buf v = f"
proof -
  obtain a g where f: "f = a # g" "word_byte a" using assms(3) by (cases f) (auto simp: a_word_def)
  have nz: "0 \<notin> set f" using assms(3) by (auto simp: a_word_def)
  have tf: "tight (f @ 32 # xs)" using f by (simp add: tight_def word_byte_def)
  have pk: "peek buf [60, 62] s = (True, s)"
    using assms(2,5) nz by (subst peek_tight [OF assms(1)]) (auto simp: tight_def whitespace_def)
  have g1: "gettoken buf s = (x, (s, Suc s), Suc s)"
    using f assms(2) tf by (intro gettoken_symbol [OF assms(1)]) auto
  note at = left_at_Cons(3) [OF assms(1)]
  have g2: "gettoken buf (Suc s) = (97, (Suc s, Suc s + length f), Suc (Suc s + length f))"
    using gettoken_a_word [OF at assms(3-5)] .
  have fin: "left_at buf (Suc (Suc s + length f)) xs"
    using left_at_append [OF at] left_at_Cons(3) by blast
  have "parseredirs buf d (Suc (Suc s + length f)) = Inr (d, Suc (Suc s + length f))" for d
    using parseredirs_none [OF fin assms(4-6)] .
  then have "parseredirs buf c s = Inr (Redir c (Suc s, Suc s + length f)
      (if x = 60 then RD_MODE else WR_MODE) (if x = 60 then 0 else 1), Suc (Suc s + length f))"
    using assms(2) by (subst parseredirs.simps) (auto simp: pk g1 g2)
  then show ?thesis using fin left_at_append [OF at] by blast
qed

lemma a_word_nz: "a_word w \<Longrightarrow> 0 \<notin> set w"
  by (auto simp: a_word_def)

lemma a_word_hd: "a_word w \<Longrightarrow> w \<noteq> [] \<and> word_byte (hd w)"
  by (auto simp: a_word_def)

lemma left_at_length: "left_at buf s xs \<Longrightarrow> length buf - s = length xs"
  by (auto simp: left_at_def)

lemma parseargs_printed:
  assumes "left_at buf s (concat (map (\<lambda>w. w @ [32]) ws) @ rest)" "\<forall>w \<in> set ws. a_word w"
    and rest: "rest = [] \<or> hd rest \<in> {124, 41, 38, 59}" "0 \<notin> set rest"
    and "length vs + length ws < 10"
  shows "\<exists>us t. parseargs buf (Exec vs) (length vs) s = Inr (Exec (vs @ us), t)
    \<and> left_at buf t rest \<and> map (span_text buf) us = ws"
  using assms(1,2,5)
proof (induction ws arbitrary: s vs)
  case Nil
  then have at: "left_at buf s rest" by simp
  have t: "tight rest" using rest(1) by (auto simp: tight_def whitespace_def)
  have "parseargs buf (Exec vs) (length vs) s = Inr (Exec vs, s)"
  proof (cases "rest = []")
    case True
    then have "gettoken buf s = (0, (s, s), s)"
      using at skip_white_tight [OF at t] left_at_Nil [of buf s] by (auto simp: gettoken_def Let_def)
    then show ?thesis
      using True by (subst parseargs.simps) (simp add: peek_tight [OF at t rest(2)])
  next
    case False
    then show ?thesis
      using rest(1) by (subst parseargs.simps) (auto simp: peek_tight [OF at t rest(2)])
  qed
  then show ?case using at by auto
next
  case (Cons w ws)
  let ?more = "concat (map (\<lambda>w. w @ [32]) ws) @ rest"
  have at: "left_at buf s (w @ 32 # ?more)" using Cons.prems(1) by simp
  have w: "a_word w" "\<forall>w \<in> set ws. a_word w" using Cons.prems(2) by simp_all
  have nz: "0 \<notin> set ?more" "0 \<notin> set w" using w rest(2) by (auto dest: a_word_nz)
  have hds: "?more = [] \<or> hd ?more \<notin> set whitespace \<union> {60, 62}"
    using w(2) rest(1) by (cases ws) (auto simp: a_word_def word_byte_def whitespace_def symbols_def hd_append)
  then have t: "tight ?more" by (auto simp: tight_def)
  have g: "gettoken buf s = (97, (s, s + length w), Suc (s + length w))"
    using gettoken_a_word [OF at w(1) t nz(1)] .
  have nxt: "left_at buf (Suc (s + length w)) ?more"
    using left_at_append [OF at] left_at_Cons(3) by blast
  have hw: "hd (w @ 32 # ?more) \<notin> set [124, 41, 38, 59]" "tight (w @ 32 # ?more)"
    using w(1) by (auto simp: a_word_def tight_def word_byte_def symbols_def hd_append neq_Nil_conv)
  have pk: "peek buf [124, 41, 38, 59] s = (False, s)"
    using hw(1) nz by (subst peek_tight [OF at hw(2)]) auto
  have rd: "parseredirs buf c (Suc (s + length w)) = Inr (c, Suc (s + length w))" for c
    using hds by (intro parseredirs_none [OF nxt t nz(1)]) auto
  have "parseargs buf (Exec vs) (length vs) s =
      parseargs buf (Exec (vs @ [(s, s + length w)])) (length (vs @ [(s, s + length w)])) (Suc (s + length w))"
    using Cons.prems(3) by (subst parseargs.simps) (simp add: pk g rd)
  moreover obtain us t where "parseargs buf (Exec (vs @ [(s, s + length w)]))
      (length (vs @ [(s, s + length w)])) (Suc (s + length w)) =
      Inr (Exec ((vs @ [(s, s + length w)]) @ us), t)" "left_at buf t rest" "map (span_text buf) us = ws"
    using Cons.IH [OF nxt w(2), of "vs @ [(s, s + length w)]"] Cons.prems(3) by auto
  ultimately show ?case
    using left_at_append [OF at] by (intro exI [of _ "(s, s + length w) # us"] exI [of _ t]) simp
qed

lemma print_cmd_starts:
  assumes "printable c"
  shows "0 \<notin> set (print_cmd c) \<and> (print_cmd c = [] \<or> hd (print_cmd c) = 40 \<or> word_byte (hd (print_cmd c)))"
  using assms
proof (induction c)
  case (Exec ws)
  then show ?case
    by (cases ws) (auto simp: hd_append dest: a_word_nz a_word_hd)
qed (auto dest: a_word_nz)

text \<open>A parenthesised part, given that the parser reads what is inside the parentheses.\<close>

definition reads_back :: "uchar list cmd \<Rightarrow> uchar list \<Rightarrow> bool" where
  "reads_back c buf \<longleftrightarrow>
     (\<forall>s rest n. left_at buf s (print_cmd c @ rest) \<longrightarrow> rest = [] \<or> hd rest = 41 \<longrightarrow> 0 \<notin> set rest \<longrightarrow>
        4 * (length buf - s) + 3 < n \<longrightarrow>
        (\<exists>t s'. parseline n buf s = Some (Inr (t, s')) \<and> left_at buf s' rest
           \<and> map_cmd (span_text buf) t = c))"

lemma parse_paren:
  assumes "reads_back c buf" "printable c" and at: "left_at buf s (40 # print_cmd c @ 41 # rest)"
    and rest: "tight rest" "0 \<notin> set rest" and n: "4 * (length buf - s) + 1 < n"
  shows "\<exists>t s'. parseexec n buf s = Some (parseredirs buf t s') \<and> left_at buf s' rest
    \<and> map_cmd (span_text buf) t = c"
proof -
  obtain m where m: "n = Suc (Suc m)" using n by (cases n; cases "n - 1") auto
  have nz: "0 \<notin> set (print_cmd c)" using print_cmd_starts [OF assms(2)] by simp
  have t: "tight (print_cmd c @ 41 # rest)"
    using print_cmd_starts [OF assms(2)]
    by (cases "print_cmd c") (auto simp: tight_def word_byte_def whitespace_def)
  have t0: "tight (40 # xs)" for xs by (simp add: tight_def whitespace_def)
  have t1: "tight (41 # xs)" for xs by (simp add: tight_def whitespace_def)
  have pk: "peek buf [40] s = (True, s)"
    using nz rest(2) by (subst peek_tight [OF at t0]) auto
  have g: "gettoken buf s = (40, (s, Suc s), Suc s)"
    by (rule gettoken_symbol [OF at _ t]) auto
  have "4 * (length buf - Suc s) + 3 < m" using n m left_at_Cons(2) [OF at] by auto
  then have "\<exists>u x. parseline m buf (Suc s) = Some (Inr (u, x)) \<and> left_at buf x (41 # rest)
      \<and> map_cmd (span_text buf) u = c"
    using assms(1) [unfolded reads_back_def, rule_format, OF left_at_Cons(3) [OF at], of m] rest(2)
    by simp
  then obtain u x where u: "parseline m buf (Suc s) = Some (Inr (u, x))" "left_at buf x (41 # rest)"
    "map_cmd (span_text buf) u = c" by blast
  have pk2: "peek buf [41] x = (True, x)" using rest(2) by (subst peek_tight [OF u(2) t1]) auto
  have g2: "gettoken buf x = (41, (x, Suc x), Suc x)"
    by (rule gettoken_symbol [OF u(2) _ rest(1)]) auto
  have "parseexec n buf s = Some (parseredirs buf u (Suc x))"
    by (simp add: m pk g u(1) pthen_def pk2 g2)
  moreover have "left_at buf (Suc x) rest" using left_at_Cons(3) [OF u(2)] .
  ultimately show ?thesis using u(3) by blast
qed

lemma parse_paren_plain:
  assumes "reads_back c buf" "printable c" "left_at buf s (40 # print_cmd c @ 41 # rest)"
    and "tight rest" "0 \<notin> set rest" "rest = [] \<or> hd rest \<notin> {60, 62}" "4 * (length buf - s) + 1 < n"
  shows "\<exists>t s'. parseexec n buf s = Some (Inr (t, s')) \<and> left_at buf s' rest
    \<and> map_cmd (span_text buf) t = c"
proof -
  obtain t s' where t: "parseexec n buf s = Some (parseredirs buf t s')" "left_at buf s' rest"
    "map_cmd (span_text buf) t = c"
    using parse_paren [OF assms(1-5,7)] by blast
  then show ?thesis using parseredirs_none [OF t(2) assms(4-6)] by auto
qed

lemma parsepipe_plain:
  assumes "parseexec n buf s = Some (Inr (t, s'))" "left_at buf s' rest" "tight rest" "0 \<notin> set rest"
    and "rest = [] \<or> hd rest \<noteq> 124"
  shows "parsepipe (Suc n) buf s = Some (Inr (t, s'))"
  using assms(1,5) peek_tight [OF assms(2-4), of "[124]"] by (auto simp: pthen_def)

lemma parsebacks_none:
  assumes "left_at buf s rest" "tight rest" "0 \<notin> set rest" "rest = [] \<or> hd rest \<noteq> 38"
  shows "parsebacks buf t s = (t, s)"
  using assms(4) peek_tight [OF assms(1-3), of "[38]"] by (subst parsebacks.simps) auto

lemma parseline_plain:
  assumes "parsepipe n buf s = Some (Inr (t, s'))" "left_at buf s' rest" "tight rest" "0 \<notin> set rest"
    and "rest = [] \<or> hd rest \<notin> {38, 59}"
  shows "parseline (Suc n) buf s = Some (Inr (t, s'))"
  using assms(1,5) peek_tight [OF assms(2-4), of "[59]"] parsebacks_none [OF assms(2-4)]
  by (auto simp: pthen_def)

lemma tight_symbols [simp]:
  "tight []" "tight (40 # xs)" "tight (41 # xs)" "tight (124 # xs)" "tight (59 # xs)"
  "tight (38 # xs)" "tight (60 # xs)" "tight (62 # xs)"
  by (simp_all add: tight_def whitespace_def)

lemma tight_rest: "rest = [] \<or> hd rest = 41 \<Longrightarrow> tight rest"
  by (cases rest) auto

lemma three_units:
  assumes "k + 3 < n"
  obtains m where "n = Suc (Suc (Suc m))"
  using assms that [of "n - 3"] by linarith

lemma reads_back_Exec:
  assumes "printable (Exec ws)"
  shows "reads_back (Exec ws) buf"
  unfolding reads_back_def
proof (intro allI impI)
  fix s rest n
  assume at: "left_at buf s (print_cmd (Exec ws) @ rest)" and rest: "rest = [] \<or> hd rest = 41" "0 \<notin> set rest"
    and n: "4 * (length buf - s) + 3 < n"
  obtain m where m: "n = Suc (Suc (Suc m))" using n by (rule three_units)
  let ?xs = "print_cmd (Exec ws) @ rest"
  have st: "print_cmd (Exec ws) = [] \<or> word_byte (hd (print_cmd (Exec ws)))"
    using assms by (cases ws) (auto simp: hd_append dest: a_word_hd)
  have nz: "0 \<notin> set ?xs" using print_cmd_starts [OF assms] rest(2) by simp
  have hds: "?xs = [] \<or> hd ?xs \<notin> set whitespace \<union> {40, 60, 62}"
    using st rest(1) by (auto simp: hd_append word_byte_def whitespace_def symbols_def)
  then have t: "tight ?xs" by (auto simp: tight_def)
  have pk: "peek buf [40] s = (False, s)" using hds peek_tight [OF at t nz, of "[40]"] by auto
  have rd: "parseredirs buf (Exec []) s = Inr (Exec [], s)"
    using hds by (intro parseredirs_none [OF at t nz]) auto
  obtain us x where us: "parseargs buf (Exec []) 0 s = Inr (Exec us, x)" "left_at buf x rest"
    "map (span_text buf) us = ws"
    using parseargs_printed [of buf s ws rest "[]"] at rest assms by auto
  have "parseexec (Suc m) buf s = Some (Inr (Exec us, x))" by (simp add: pk rd us(1))
  then have "parseline n buf s = Some (Inr (Exec us, x))"
    unfolding m using us(2) rest tight_rest [OF rest(1)]
    by (intro parseline_plain [of _ _ _ _ _ rest] parsepipe_plain [of _ _ _ _ _ rest]) auto
  then show "\<exists>t s'. parseline n buf s = Some (Inr (t, s')) \<and> left_at buf s' rest
      \<and> map_cmd (span_text buf) t = Exec ws"
    using us by auto
qed

lemma reads_back_Redir:
  assumes "printable (Redir c f mode fd)" "reads_back c buf"
  shows "reads_back (Redir c f mode fd) buf"
  unfolding reads_back_def
proof (intro allI impI)
  fix s rest n
  assume at0: "left_at buf s (print_cmd (Redir c f mode fd) @ rest)"
    and rest: "rest = [] \<or> hd rest = 41" "0 \<notin> set rest" and n: "4 * (length buf - s) + 3 < n"
  obtain m where m: "n = Suc (Suc (Suc m))" using n by (rule three_units)
  let ?x = "if fd = 0 then 60 else 62 :: uchar"
  have c: "printable c" "a_word f" "fd = 0 \<and> mode = RD_MODE \<or> fd = 1 \<and> mode = WR_MODE"
    using assms(1) by auto
  have at: "left_at buf s (40 # print_cmd c @ 41 # ?x # f @ 32 # rest)" using at0 by simp
  have "\<exists>t x. parseexec (Suc m) buf s = Some (parseredirs buf t x)
      \<and> left_at buf x (?x # f @ 32 # rest) \<and> map_cmd (span_text buf) t = c"
    by (rule parse_paren [OF assms(2) c(1) at]) (use rest(2) a_word_nz [OF c(2)] n m in auto)
  then obtain t x where t: "parseexec (Suc m) buf s = Some (parseredirs buf t x)"
    "left_at buf x (?x # f @ 32 # rest)" "map_cmd (span_text buf) t = c" by blast
  obtain v y where v: "parseredirs buf t x = Inr (Redir t v mode fd, y)" "left_at buf y rest"
    "span_text buf v = f"
    using parseredirs_one [OF t(2) _ c(2) tight_rest [OF rest(1)] rest(2), of t] rest(1) c(3) by auto
  have "parseline n buf s = Some (Inr (Redir t v mode fd, y))"
    unfolding m using t(1) v(1,2) rest tight_rest [OF rest(1)]
    by (intro parseline_plain [of _ _ _ _ _ rest] parsepipe_plain [of _ _ _ _ _ rest]) auto
  then show "\<exists>t s'. parseline n buf s = Some (Inr (t, s')) \<and> left_at buf s' rest
      \<and> map_cmd (span_text buf) t = Redir c f mode fd"
    using t(3) v by auto
qed

text \<open>A first part that a separator follows, and a last part that a whole pipe is read from.\<close>

lemma parse_first:
  assumes "printable c" "reads_back c buf" and at: "left_at buf s (40 # print_cmd c @ 41 # x # xs)"
    and x: "x \<in> {124, 59, 38}" and xs: "tight xs" "0 \<notin> set xs"
    and n: "4 * (length buf - s) + 1 < n"
  shows "\<exists>t y. parseexec n buf s = Some (Inr (t, y)) \<and> map_cmd (span_text buf) t = c \<and>
    left_at buf y (x # xs) \<and> peek buf toks y = (x \<in> set toks, y) \<and>
    gettoken buf y = (x, (y, Suc y), Suc y) \<and> left_at buf (Suc y) xs \<and>
    4 * (length buf - Suc y) + 4 \<le> 4 * (length buf - s)"
proof -
  have tx: "tight (x # xs)" "0 \<notin> set (x # xs)" using x xs by auto
  have "\<exists>t y. parseexec n buf s = Some (Inr (t, y)) \<and> left_at buf y (x # xs)
      \<and> map_cmd (span_text buf) t = c"
    by (rule parse_paren_plain [OF assms(2,1) at tx]) (use x n in auto)
  then obtain t y where t: "parseexec n buf s = Some (Inr (t, y))" "left_at buf y (x # xs)"
    "map_cmd (span_text buf) t = c" by blast
  have "gettoken buf y = (x, (y, Suc y), Suc y)"
    by (rule gettoken_symbol [OF t(2) _ xs(1)]) (use x in auto)
  moreover have "peek buf toks y = (x \<in> set toks, y)" using peek_tight [OF t(2) tx, of toks] by simp
  moreover have "4 * (length buf - Suc y) + 4 \<le> 4 * (length buf - s)"
    using left_at_length [OF at] left_at_length [OF left_at_Cons(3) [OF t(2)]] by simp
  ultimately show ?thesis using t left_at_Cons(3) [OF t(2)] by blast
qed

lemma parse_last:
  assumes "printable d" "reads_back d buf" "left_at buf s (40 # print_cmd d @ 41 # rest)"
    and rest: "rest = [] \<or> hd rest = 41" "0 \<notin> set rest" and n: "4 * (length buf - s) + 2 < n"
  shows "\<exists>u z. parsepipe n buf s = Some (Inr (u, z)) \<and> left_at buf z rest
    \<and> map_cmd (span_text buf) u = d"
proof -
  obtain m where m: "n = Suc m" using n by (cases n) auto
  have "\<exists>u z. parseexec m buf s = Some (Inr (u, z)) \<and> left_at buf z rest
      \<and> map_cmd (span_text buf) u = d"
    by (rule parse_paren_plain [OF assms(2,1,3) tight_rest [OF rest(1)] rest(2)]) (use rest(1) n m in auto)
  then obtain u z where u: "parseexec m buf s = Some (Inr (u, z))" "left_at buf z rest"
    "map_cmd (span_text buf) u = d" by blast
  have "parsepipe n buf s = Some (Inr (u, z))"
    unfolding m using rest(1) by (intro parsepipe_plain [OF u(1,2) tight_rest [OF rest(1)] rest(2)]) auto
  then show ?thesis using u by blast
qed

lemma reads_back_Pipe:
  assumes "printable (Pipe c d)" "reads_back c buf" "reads_back d buf"
  shows "reads_back (Pipe c d) buf"
  unfolding reads_back_def
proof (intro allI impI)
  fix s rest n
  assume at0: "left_at buf s (print_cmd (Pipe c d) @ rest)"
    and rest: "rest = [] \<or> hd rest = 41" "0 \<notin> set rest" and n: "4 * (length buf - s) + 3 < n"
  obtain m where m: "n = Suc (Suc (Suc m))" using n by (rule three_units)
  have c: "printable c" "printable d" using assms(1) by simp_all
  let ?xs = "40 # print_cmd d @ 41 # rest"
  have at: "left_at buf s (40 # print_cmd c @ 41 # 124 # ?xs)" using at0 by simp
  have nz: "0 \<notin> set ?xs" using rest(2) print_cmd_starts [OF c(2)] by simp
  obtain t y where t: "parseexec (Suc m) buf s = Some (Inr (t, y))" "map_cmd (span_text buf) t = c"
    "peek buf [124] y = (True, y)" "gettoken buf y = (124, (y, Suc y), Suc y)" "left_at buf (Suc y) ?xs"
    "4 * (length buf - Suc y) + 4 \<le> 4 * (length buf - s)"
    using parse_first [OF c(1) assms(2) at _ _ nz, of "Suc m" "[124]"] n m by (auto simp del: parseexec.simps)
  obtain u z where u: "parsepipe (Suc m) buf (Suc y) = Some (Inr (u, z))" "left_at buf z rest"
    "map_cmd (span_text buf) u = d"
    using parse_last [OF c(2) assms(3) t(5) rest, of "Suc m"] t(6) n m by (auto simp del: parsepipe.simps)
  have "parsepipe (Suc (Suc m)) buf s = Some (Inr (Pipe t u, z))"
    by (subst parsepipe.simps) (simp add: t(1,3,4) u(1) pthen_def del: parseexec.simps parsepipe.simps)
  then have "parseline n buf s = Some (Inr (Pipe t u, z))"
    unfolding m using rest by (intro parseline_plain [OF _ u(2) tight_rest [OF rest(1)] rest(2)]) auto
  then show "\<exists>t s'. parseline n buf s = Some (Inr (t, s')) \<and> left_at buf s' rest
      \<and> map_cmd (span_text buf) t = Pipe c d"
    using t(2) u by auto
qed

lemma reads_back_Seq:
  assumes "printable (Seq c d)" "reads_back c buf" "reads_back d buf"
  shows "reads_back (Seq c d) buf"
  unfolding reads_back_def
proof (intro allI impI)
  fix s rest n
  assume at0: "left_at buf s (print_cmd (Seq c d) @ rest)"
    and rest: "rest = [] \<or> hd rest = 41" "0 \<notin> set rest" and n: "4 * (length buf - s) + 3 < n"
  obtain m where m: "n = Suc (Suc (Suc m))" using n by (rule three_units)
  have c: "printable c" "printable d" using assms(1) by simp_all
  let ?xs = "40 # print_cmd d @ 41 # rest"
  have at: "left_at buf s (40 # print_cmd c @ 41 # 59 # ?xs)" using at0 by simp
  have nz: "0 \<notin> set ?xs" using rest(2) print_cmd_starts [OF c(2)] by simp
  obtain t y where t: "parseexec (Suc m) buf s = Some (Inr (t, y))" "map_cmd (span_text buf) t = c"
    "peek buf [59] y = (True, y)" "gettoken buf y = (59, (y, Suc y), Suc y)" "left_at buf (Suc y) ?xs"
    "4 * (length buf - Suc y) + 4 \<le> 4 * (length buf - s)" "left_at buf y (59 # ?xs)"
    using parse_first [OF c(1) assms(2) at _ _ nz, of "Suc m" "[59]"] n m by (auto simp del: parseexec.simps)
  have pp: "parsepipe (Suc (Suc m)) buf s = Some (Inr (t, y))"
    using nz by (intro parsepipe_plain [OF t(1,7)]) auto
  have pb: "parsebacks buf t y = (t, y)"
    using nz by (intro parsebacks_none [OF t(7)]) auto
  obtain u z where u: "parsepipe (Suc m) buf (Suc y) = Some (Inr (u, z))" "left_at buf z rest"
    "map_cmd (span_text buf) u = d"
    using parse_last [OF c(2) assms(3) t(5) rest, of "Suc m"] t(6) n m by (auto simp del: parsepipe.simps)
  have "parseline (Suc (Suc m)) buf (Suc y) = Some (Inr (u, z))"
    using rest by (intro parseline_plain [OF u(1,2) tight_rest [OF rest(1)] rest(2)]) auto
  then have "parseline n buf s = Some (Inr (Seq t u, z))"
    unfolding m
    by (subst parseline.simps) (simp add: pp pb t(3,4) pthen_def del: parsepipe.simps parseline.simps)
  then show "\<exists>t s'. parseline n buf s = Some (Inr (t, s')) \<and> left_at buf s' rest
      \<and> map_cmd (span_text buf) t = Seq c d"
    using t(2) u by auto
qed

lemma reads_back_Back:
  assumes "printable (Back c)" "reads_back c buf"
  shows "reads_back (Back c) buf"
  unfolding reads_back_def
proof (intro allI impI)
  fix s rest n
  assume at0: "left_at buf s (print_cmd (Back c) @ rest)"
    and rest: "rest = [] \<or> hd rest = 41" "0 \<notin> set rest" and n: "4 * (length buf - s) + 3 < n"
  obtain m where m: "n = Suc (Suc (Suc m))" using n by (rule three_units)
  have c: "printable c" using assms(1) by simp
  note tr = tight_rest [OF rest(1)]
  have at: "left_at buf s (40 # print_cmd c @ 41 # 38 # rest)" using at0 by simp
  obtain t y where t: "parseexec (Suc m) buf s = Some (Inr (t, y))" "map_cmd (span_text buf) t = c"
    "peek buf [38] y = (True, y)" "gettoken buf y = (38, (y, Suc y), Suc y)" "left_at buf (Suc y) rest"
    "left_at buf y (38 # rest)"
    using parse_first [OF c(1) assms(2) at _ tr rest(2), of "Suc m" "[38]"] n m
    by (auto simp del: parseexec.simps)
  have pp: "parsepipe (Suc (Suc m)) buf s = Some (Inr (t, y))"
    using rest(2) by (intro parsepipe_plain [OF t(1,6)]) auto
  have "parsebacks buf (Back t) (Suc y) = (Back t, Suc y)"
    using rest(1) by (intro parsebacks_none [OF t(5) tr rest(2)]) auto
  then have pb: "parsebacks buf t y = (Back t, Suc y)"
    by (subst parsebacks.simps) (simp add: t(3,4))
  have "peek buf [59] (Suc y) = (False, Suc y)"
    using peek_tight [OF t(5) tr rest(2), of "[59]"] rest(1) by auto
  then have "parseline n buf s = Some (Inr (Back t, Suc y))"
    unfolding m by (subst parseline.simps) (simp add: pp pb pthen_def del: parsepipe.simps)
  then show "\<exists>t s'. parseline n buf s = Some (Inr (t, s')) \<and> left_at buf s' rest
      \<and> map_cmd (span_text buf) t = Back c"
    using t(2,5) by auto
qed

lemma printable_reads_back: "printable c \<Longrightarrow> reads_back c buf"
  by (induction c)
    (simp_all add: reads_back_Exec reads_back_Redir reads_back_Pipe reads_back_Seq reads_back_Back)

text \<open>
  C4: Every command that fits \<open>MAXARGS\<close> and whose words hold neither white space nor symbols has
  a line that the shell parses to it: pipes, lists, background commands, redirections and nested
  blocks are read back with their structure, and the strings that the parsed command points to,
  after \<open>nulterminate\<close>, are its words.
\<close>

theorem parse_print_roundtrip:
  assumes "printable c"
  shows "\<exists>t b. parsecmd (print_cmd c) w = Some (Ret (t, b) w) \<and>
    map_cmd (\<lambda>v. cstring b (fst v)) t = c"
proof -
  let ?buf = "print_cmd c"
  have nz: "0 \<notin> set ?buf" using print_cmd_starts [OF assms] by simp
  obtain t s where t: "parseline (4 * length ?buf + 4) ?buf 0 = Some (Inr (t, s))"
    "left_at ?buf s []" "map_cmd (span_text ?buf) t = c"
    using printable_reads_back [OF assms, of ?buf, unfolded reads_back_def, rule_format,
        of 0 "[]" "4 * length ?buf + 4"] by (auto simp: left_at_def)
  have "returns ?buf 0 (parseline (4 * length ?buf + 4) ?buf 0)"
    using parse_returns [OF nz, of 0 "4 * length ?buf + 4"] by simp
  then have ok: "cmd_ok ?buf t" by (simp add: t(1))
  let ?b = "nulterminate t (?buf @ [0])"
  have "peek ?buf [] s = (False, length ?buf)"
    using peek_tight [OF t(2), of "[]"] left_at_Nil [OF t(2)] by simp
  then have "parsecmd ?buf w = Some (Ret (t, ?b) w)" by (simp add: parsecmd_def t(1))
  moreover have "map_cmd (\<lambda>v. cstring ?b (fst v)) t = map_cmd (span_text ?buf) t"
    using nulterminate_words [OF ok nz] by (intro cmd.map_cong) auto
  ultimately show ?thesis using t(3) by auto
qed

text \<open>The command \<open>a | (b c > f)\<close>, in the background.\<close>

theorem parse_print_roundtrip_witness:
  "printable (Back (Pipe (Exec [[97]]) (Redir (Exec [[98], [99]]) [102] WR_MODE 1))) \<and>
   (\<exists>t b. parsecmd (print_cmd (Back (Pipe (Exec [[97]]) (Redir (Exec [[98], [99]]) [102] WR_MODE 1))))
       idle_world = Some (Ret (t, b) idle_world) \<and>
     map_cmd (\<lambda>v. cstring b (fst v)) t =
       Back (Pipe (Exec [[97]]) (Redir (Exec [[98], [99]]) [102] WR_MODE 1)))"
proof -
  have "printable (Back (Pipe (Exec [[97]]) (Redir (Exec [[98], [99]]) [102] WR_MODE 1)))"
    by (simp add: a_word_def word_byte_def whitespace_def symbols_def)
  then show ?thesis by (intro conjI parse_print_roundtrip)
qed

end
