(* ===== verification/Shrun.thy ===== *)
theory Shrun
  imports Sh
begin

text \<open>
  Running commands (\<open>sh.c\<close>): \<open>runcmd\<close> and \<open>fork1\<close>. A program is the
  tree of the system calls it makes: a call and, for every reply of the kernel, how it goes on. A
  process that forks goes on twice, with the reply 0 in the child. The programs are then run
  against the descriptor tables that the kernel keeps, which shows with which descriptors every
  command of a line is started.
\<close>

section \<open>Programs as trees of system calls\<close>

datatype call =
    C_exec "uchar list" "uchar list list"
  | C_open "uchar list" nat
  | C_close nat
  | C_dup nat
  | C_pipe
  | C_fork
  | C_wait
  | C_print "uchar list"

text \<open>A reply: the number returned and the pair that \<open>pipe\<close> stores.\<close>

record reply =
  r_ret :: int
  r_pipe :: "nat \<times> nat"

datatype prog = Done | Call call "reply \<Rightarrow> prog"

text \<open>\<open>panic\<close> of the shell, and \<open>fork1\<close> with what follows it.\<close>

definition panic_prog :: "string \<Rightarrow> prog" where
  "panic_prog msg = Call (C_print (str msg @ [10])) (\<lambda>_. Done)"

definition fork1 :: "(bool \<Rightarrow> prog) \<Rightarrow> prog" where
  "fork1 k = Call C_fork (\<lambda>r. if r_ret r = -1 then panic_prog ''fork'' else k (r_ret r = 0))"

primrec runcmd :: "uchar list cmd \<Rightarrow> prog" where
  "runcmd (Exec argv) =
     (if argv = [] then Done
      else Call (C_exec (hd argv) argv) (\<lambda>_.
           Call (C_print (str ''exec '' @ hd argv @ str '' failed'' @ [10])) (\<lambda>_. Done)))"
| "runcmd (Redir c file mode fd) =
     Call (C_close fd) (\<lambda>_.
     Call (C_open file mode) (\<lambda>r.
       if r_ret r < 0
       then Call (C_print (str ''open '' @ file @ str '' failed'' @ [10])) (\<lambda>_. Done)
       else runcmd c))"
| "runcmd (Seq left right) =
     fork1 (\<lambda>child. if child then runcmd left else Call C_wait (\<lambda>_. runcmd right))"
| "runcmd (Pipe left right) =
     Call C_pipe (\<lambda>r. if r_ret r < 0 then panic_prog ''pipe'' else let p = r_pipe r in
     fork1 (\<lambda>child. if child
       then Call (C_close 1) (\<lambda>_. Call (C_dup (snd p)) (\<lambda>_.
            Call (C_close (fst p)) (\<lambda>_. Call (C_close (snd p)) (\<lambda>_. runcmd left))))
       else fork1 (\<lambda>child. if child
         then Call (C_close 0) (\<lambda>_. Call (C_dup (fst p)) (\<lambda>_.
              Call (C_close (fst p)) (\<lambda>_. Call (C_close (snd p)) (\<lambda>_. runcmd right))))
         else Call (C_close (fst p)) (\<lambda>_. Call (C_close (snd p)) (\<lambda>_.
              Call C_wait (\<lambda>_. Call C_wait (\<lambda>_. Done)))))))"
| "runcmd (Back c) = fork1 (\<lambda>child. if child then runcmd c else Done)"

section \<open>The descriptors of a process\<close>

text \<open>
  What a descriptor refers to: what it was when the shell started, a file opened by name and
  mode, or an end of a pipe. Pipes are told apart by the history of forks and pipes of the process
  that made them.
\<close>

datatype obj = Inherited nat | Opened "uchar list" nat | Read_end "nat list" | Write_end "nat list"

type_synonym fds = "nat \<Rightarrow> obj option"

text \<open>The lowest free descriptor, as \<open>fdalloc\<close> finds it.\<close>

definition fd_alloc :: "fds \<Rightarrow> nat option" where
  "fd_alloc f = find (\<lambda>i. f i = None) [0..<16]"

definition ret :: "int \<Rightarrow> reply" where
  "ret n = \<lparr>r_ret = n, r_pipe = (0, 0)\<rparr>"

text \<open>
  The programs that a process and its children start, with their arguments and descriptors, in
  the order of the tree, when \<open>fork\<close> and the opening of files succeed.
\<close>

primrec starts :: "prog \<Rightarrow> nat list \<Rightarrow> fds \<Rightarrow> (uchar list list \<times> fds) list" where
  "starts Done h f = []"
| "starts (Call c k) h f =
     (case c of
        C_exec path argv \<Rightarrow> [(argv, f)]
      | C_open path mode \<Rightarrow>
          (case fd_alloc f of
             None \<Rightarrow> starts (k (ret (-1))) h f
           | Some d \<Rightarrow> starts (k (ret (int d))) h (f(d \<mapsto> Opened path mode)))
      | C_close d \<Rightarrow> starts (k (ret 0)) h (f(d := None))
      | C_dup d \<Rightarrow>
          (case fd_alloc f of
             None \<Rightarrow> starts (k (ret (-1))) h f
           | Some e \<Rightarrow> starts (k (ret (int e))) h (f(e := f d)))
      | C_pipe \<Rightarrow>
          (case fd_alloc f of
             None \<Rightarrow> starts (k (ret (-1))) h f
           | Some d \<Rightarrow>
               (case fd_alloc (f(d \<mapsto> Read_end h)) of
                  None \<Rightarrow> starts (k (ret (-1))) h f
                | Some e \<Rightarrow> starts (k ((ret 0)\<lparr>r_pipe := (d, e)\<rparr>)) (0 # h)
                              (f(d \<mapsto> Read_end h, e \<mapsto> Write_end h))))
      | C_fork \<Rightarrow> starts (k (ret 0)) (1 # h) f @ starts (k (ret 1)) (2 # h) f
      | _ \<Rightarrow> starts (k (ret 0)) h f)"

section \<open>What a command line starts\<close>

text \<open>
  The meaning of a command: redirections and pipes replace one descriptor each and add no other.
\<close>

primrec started_by :: "uchar list cmd \<Rightarrow> nat list \<Rightarrow> fds \<Rightarrow> (uchar list list \<times> fds) list" where
  "started_by (Exec argv) h f = (if argv = [] then [] else [(argv, f)])"
| "started_by (Redir c file mode fd) h f = started_by c h (f(fd \<mapsto> Opened file mode))"
| "started_by (Seq c d) h f = started_by c (1 # h) f @ started_by d (2 # h) f"
| "started_by (Pipe c d) h f =
     started_by c (1 # 0 # h) (f(1 \<mapsto> Write_end h)) @ started_by d (1 # 2 # 0 # h) (f(0 \<mapsto> Read_end h))"
| "started_by (Back c) h f = started_by c (1 # h) f"

text \<open>The three standard descriptors are open and no other.\<close>

definition std_fds :: "fds \<Rightarrow> bool" where
  "std_fds f \<longleftrightarrow> dom f = {0, 1, 2}"

lemma fd_alloc_eq: "f d = None \<Longrightarrow> \<forall>i < d. f i \<noteq> None \<Longrightarrow> d < 16 \<Longrightarrow> fd_alloc f = Some d"
  unfolding fd_alloc_def by (auto simp: find_upt_Some_iff)

lemma std_fdsD: "std_fds f \<Longrightarrow> f i = None \<longleftrightarrow> 2 < i"
proof -
  assume "std_fds f"
  then have "i \<in> dom f \<longleftrightarrow> i \<in> {0, 1, 2}" by (simp add: std_fds_def)
  then show ?thesis by (auto simp: dom_def)
qed

lemma std_fds_upd: "std_fds f \<Longrightarrow> d < 3 \<Longrightarrow> std_fds (f(d \<mapsto> x))"
  by (auto simp: std_fds_def)

text \<open>Redirections name a standard descriptor, as those of the parser do.\<close>

primrec std_redirs :: "'w cmd \<Rightarrow> bool" where
  "std_redirs (Exec argv) \<longleftrightarrow> True"
| "std_redirs (Redir c file mode fd) \<longleftrightarrow> fd < 3 \<and> std_redirs c"
| "std_redirs (Seq c d) \<longleftrightarrow> std_redirs c \<and> std_redirs d"
| "std_redirs (Pipe c d) \<longleftrightarrow> std_redirs c \<and> std_redirs d"
| "std_redirs (Back c) \<longleftrightarrow> std_redirs c"

lemma fd_alloc_closed: "std_fds f \<Longrightarrow> d < 3 \<Longrightarrow> fd_alloc (f(d := None)) = Some d"
  by (rule fd_alloc_eq) (auto simp: std_fdsD)

lemma starts_fork1: "starts (fork1 k) h f = starts (k True) (1 # h) f @ starts (k False) (2 # h) f"
  by (simp add: fork1_def ret_def)

text \<open>The descriptors of the children of a pipe: the new ends take 3 and 4 and are closed again.\<close>

lemma pipe_fds:
  assumes "std_fds f" "d < 2"
  shows "fd_alloc f = Some 3" "fd_alloc (f(3 \<mapsto> x)) = Some 4"
    "fd_alloc (f(3 \<mapsto> x, 4 \<mapsto> y, d := None)) = Some d"
    "f(3 \<mapsto> x, 4 \<mapsto> y, d := None, d \<mapsto> z, 3 := None, 4 := None) = f(d \<mapsto> z)"
proof -
  note fds = std_fdsD [OF assms(1)]
  have lower: "f i \<noteq> None" if "i < 3" for i using that fds [of i] by simp
  show "fd_alloc f = Some 3" using lower by (intro fd_alloc_eq) (simp_all add: fds)
  show "fd_alloc (f(3 \<mapsto> x)) = Some 4"
  proof (rule fd_alloc_eq)
    show "\<forall>i < 4. (f(3 \<mapsto> x)) i \<noteq> None"
      using lower by (auto simp: less_Suc_eq numeral_eq_Suc)
  qed (simp_all add: fds)
  show "fd_alloc (f(3 \<mapsto> x, 4 \<mapsto> y, d := None)) = Some d"
    using assms(2) by (intro fd_alloc_eq) (simp_all add: fds)
  show "f(3 \<mapsto> x, 4 \<mapsto> y, d := None, d \<mapsto> z, 3 := None, 4 := None) = f(d \<mapsto> z)"
    using assms(2) fds [of 3] fds [of 4] by (intro ext) auto
qed

lemma starts_runcmd:
  "std_fds f \<Longrightarrow> std_redirs c \<Longrightarrow> starts (runcmd c) h f = started_by c h f"
proof (induction c arbitrary: h f)
  case (Exec argv)
  then show ?case by simp
next
  case (Redir c name mode fd)
  then have fd: "fd < 3" "std_redirs c" by simp_all
  have "starts (runcmd c) h (f(fd \<mapsto> Opened name mode)) = started_by c h (f(fd \<mapsto> Opened name mode))"
    using Redir.prems(1) fd by (intro Redir.IH std_fds_upd)
  then show ?case
    using Redir.prems(1) fd by (simp add: fd_alloc_closed ret_def)
next
  case (Pipe c d)
  have "starts (runcmd c) g (f(1 \<mapsto> x)) = started_by c g (f(1 \<mapsto> x))"
    "starts (runcmd d) g (f(0 \<mapsto> x)) = started_by d g (f(0 \<mapsto> x))" for g x
    using Pipe.prems by (intro Pipe.IH std_fds_upd; simp)+
  then show ?case
    using pipe_fds [OF Pipe.prems(1), of 0] pipe_fds [OF Pipe.prems(1), of 1]
    by (simp add: starts_fork1 ret_def Let_def)
next
  case (Seq c d)
  then show ?case by (simp add: starts_fork1)
next
  case (Back c)
  then show ?case by (simp add: starts_fork1)
qed

text \<open>
  C16: Started from a shell with its three standard descriptors, every program of a command line
  gets exactly the descriptors that the redirections and pipes around it describe: the left side of
  a pipe writes to it, the right side reads from it, and no process keeps an end of a pipe open
  that would keep a reader from seeing the end of its input.
\<close>

theorem commands_get_their_descriptors:
  assumes "std_fds f" and "std_redirs c"
  shows "starts (runcmd c) h f = started_by c h f"
  using assms by (rule starts_runcmd)

text \<open>The line \<open>a | b > f\<close>.\<close>

theorem commands_get_their_descriptors_witness:
  "starts (runcmd (Pipe (Exec [[97]]) (Redir (Exec [[98]]) [102] WR_MODE 1))) []
      [0 \<mapsto> Inherited 0, 1 \<mapsto> Inherited 1, 2 \<mapsto> Inherited 2] =
   [([[97]], [0 \<mapsto> Inherited 0, 1 \<mapsto> Write_end [], 2 \<mapsto> Inherited 2]),
    ([[98]], [0 \<mapsto> Read_end [], 1 \<mapsto> Opened [102] WR_MODE, 2 \<mapsto> Inherited 2])]"
proof -
  let ?f = "[0 \<mapsto> Inherited 0, 1 \<mapsto> Inherited 1, 2 \<mapsto> Inherited 2] :: fds"
  have "std_fds ?f" by (auto simp: std_fds_def)
  then have "starts (runcmd (Pipe (Exec [[97]]) (Redir (Exec [[98]]) [102] WR_MODE 1))) [] ?f =
      started_by (Pipe (Exec [[97]]) (Redir (Exec [[98]]) [102] WR_MODE 1)) [] ?f"
    by (rule commands_get_their_descriptors) simp
  then show ?thesis by (simp add: fun_eq_iff)
qed

end
