(* ===== verification/Spec2Isabelle.thy ===== *)
theory Spec2Isabelle
  imports Trap Paging Mp Grep Uprogs Shprint Shrun
begin

text \<open>
  A verification library for Customized-xv6: the xv6 kernel for x86 multiprocessors, with four
  scheduling policies chosen when it is built, and its user programs.

  \<^bold>\<open>The program.\<close> The kernel runs on every CPU. Interrupts and system calls enter it through
  \<open>trap.c\<close>; a system call works on the files of \<open>file.c\<close>, which are pipes, devices or inodes; inodes
  (\<open>fs.c\<close>) are read and written through the block cache (\<open>bio.c\<close>) under the log (\<open>log.c\<close>), down to
  the disk driver (\<open>ide.c\<close>). Processes (\<open>proc.c\<close>) own page tables (\<open>vm.c\<close>) made of pages of the
  allocator (\<open>kalloc.c\<close>), and a scheduler per CPU switches between them. Spin locks protect the tables;
  sleep locks, pipes and waiting processes use \<open>sleep\<close> and \<open>wakeup\<close>. User programs reach all this
  through system calls only.

  \<^bold>\<open>Modelling conventions.\<close> A C routine is a function on an explicit state and returns a value
  of type \<^typ>\<open>'a res\<close>: the new state and result, or the reason why control does not come back
  (a panic with its message, a spin lock held by another CPU, an endless loop, an access C leaves
  undefined, a process that sleeps for ever). The global variables of each component are a record that
  extends the record of the components it calls, so each routine is defined once and runs on the
  state of every client. Pointers into byte memory are 32-bit words; a pointer into a table of
  structures is the index of its entry. A C \<open>int\<close> is a 32-bit word read by \<^const>\<open>sint\<close>, or an
  \<^typ>\<open>int\<close> where the code cannot overflow it. Routines that may sleep are threads (\<open>Thread\<close>): they
  also take the schedule, the list of the changes that other processes make while this one
  sleeps, so a property holds for every interleaving that the schedules describe.

  \<^bold>\<open>Theories.\<close>
  \<^item> \<open>Prelude\<close>: results, sequencing, search loops, machine integers.
  \<^item> \<open>Cstring\<close>: byte memory and \<open>string.c\<close>, each routine stated by what it leaves at every address.
  \<^item> \<open>Machine\<close>: CPUs, segment descriptors, locks, \<open>mycpu\<close>.
  \<^item> \<open>Spinlock\<close>: \<open>spinlock.c\<close>; critical sections, the contract \<open>mutex\<close> and mutual exclusion in every
    interleaving of the CPUs.
  \<^item> \<open>Console\<close>: console output of \<open>console.c\<close>; output does not fail, and numbers are printed as
    numerals.
  \<^item> \<open>Kalloc\<close>: \<open>kalloc.c\<close>; the free list in memory, the contract \<open>page_allocator\<close>, no page is handed out
    twice, and \<open>kinit1\<close> and \<open>kinit2\<close> free exactly the pages they should.
  \<^item> \<open>Vm\<close>, \<open>Paging\<close>: \<open>vm.c\<close> over page tables in memory, the translation of the hardware, and what
    \<open>mappages\<close> does to it.
  \<^item> \<open>Proc\<close>, \<open>Life\<close>: \<open>proc.c\<close>: the table, sleeping and waking, priorities; creation, growth, exit and
    collection of processes.
  \<^item> \<open>Scheduler\<close>: the scheduler under its four policies; the contract \<open>policy_contract\<close> with its four
    interpretations says which process each policy dispatches.
  \<^item> \<open>Mlfq\<close>: \<open>aging\<close> and the queue moves of a clock tick, equal to the rule of multi-level feedback.
  \<^item> \<open>Thread\<close>, \<open>Sleeplock\<close>, \<open>Pipe\<close>: blocking loops, \<open>sleeplock.c\<close>, and \<open>pipe.c\<close> refined to a
    bounded queue.
  \<^item> \<open>Ide\<close>, \<open>Bio\<close>, \<open>Log\<close>: \<open>ide.c\<close> with \<open>ioapic.c\<close>, \<open>bio.c\<close> and \<open>log.c\<close>; a disk round trip, the list of
    buffers in order of use, the log header and its bound.
  \<^item> \<open>Inode\<close>, \<open>Fs\<close>, \<open>File\<close>: \<open>fs.c\<close> and \<open>file.c\<close>; one cache entry for an inode, inodes and directory
    entries on disk, path lookup equal to a walk along the elements of the path.
  \<^item> \<open>Conin\<close>: console input, \<open>kbd.c\<close> and \<open>uart.c\<close>; the contract \<open>char_source\<close> for the keyboard and the
    serial line, and the line editor refined to its specification.
  \<^item> \<open>Exec\<close>, \<open>Syscall\<close>, \<open>Trap\<close>: \<open>exec.c\<close>, \<open>syscall.c\<close>, \<open>sysfile.c\<close>, \<open>sysproc.c\<close> and \<open>trap.c\<close>; arguments
    stay inside the process, and what a clock interrupt does.
  \<^item> \<open>Mp\<close>: the search for the multiprocessor tables, \<open>mp.c\<close>, and when it ends.
  \<^item> \<open>User\<close>: the system calls as user programs see them, \<open>ulib.c\<close> and \<open>printf.c\<close>.
  \<^item> \<open>Grep\<close>, \<open>Uprogs\<close>: \<open>grep.c\<close>, whose matcher is proved equal to the language of the pattern; \<open>cat.c\<close>
    and \<open>wc.c\<close>, which do not depend on how reads cut their input.
  \<^item> \<open>Sh\<close>, \<open>Shprint\<close>, \<open>Shrun\<close>: the parser of \<open>sh.c\<close>, which returns on every line and reads back every
    command that is printed; \<open>runcmd\<close> and the descriptors it starts programs with.

  \<^bold>\<open>Bounds, fuel and loops.\<close> Loops with a count are recursions on it. The loops of \<open>strlen\<close>, \<open>strcpy\<close>
  and of \<open>mpinit\<close> may not end and are partial functions whose value is then \<^term>\<open>None\<close>. The scheduler's
  endless loop runs for the length of a list of environment steps, over which its theorems
  quantify. Waiting for the disk reads from a list of the values that the status port will show.
  The shell's parsers take four units of fuel for each byte of the line and four more, which is
  proved to be enough for every line.

  \<^bold>\<open>What the code gets wrong.\<close> The theorems \<open>pbs_starves_above_200\<close>, \<open>pbs_break_keeps_proc\<close>,
  \<open>log_reservation_off_by_one\<close>, \<open>grep_drops_partial_line\<close> and \<open>mpinit_returns_iff\<close> state defects of the
  code as it is.

  \<^bold>\<open>Not modelled.\<close> The boot code and the assembly (\<open>bootmain.c\<close>, \<open>bootasm.S\<close>, \<open>entry.S\<close>, \<open>trapasm.S\<close>,
  \<open>vectors.S\<close>), whose effect is the initial state and the entry into \<open>trap\<close>; \<open>main.c\<close>, which calls the
  initialisers in order; \<open>lapic.c\<close> and \<open>picirq.c\<close>, sequences of device writes without kernel state;
  \<open>memide.c\<close>, which is not linked; \<open>mkfs.c\<close>, a program of the build host; \<open>umalloc.c\<close>; the user
  programs that only make a few system calls, and the test programs. The kernel is modelled without the
  compile-time flag \<open>GRPH\<close>, which adds output for graphs. Memory is sequentially consistent: the fences
  of \<open>spinlock.c\<close> have no effect in the model.
\<close>

end
